(* ===== verification/Jfs_Prelude.thy ===== *)
theory Jfs_Prelude
  imports Main "HOL-Library.Word" "HOL-Library.Monad_Syntax"
begin

unbundle bit_operations_syntax

text \<open>
  The prelude of the development: the names of the C types the modules share, the way C
  failures are written down, and the generic facts on machine words and lists that the
  component theories use.

  \<^item> \<open>size_t\<close> and \<open>uintptr_t\<close> are 64-bit words (the program targets 64-bit Linux), so
    address and size arithmetic wraps exactly as the compiled code does;
  \<^item> a pointer is its address, and the null pointer is address 0;
  \<^item> an \<open>assert\<close> of the source is \<open>c_assert\<close> in the option monad: \<open>None\<close> is the abort of
    a failed assertion, so a theorem that ends in \<open>Some\<close> also shows that no assertion
    on the way fails.
\<close>

type_synonym size_t = "64 word"
type_synonym uintptr = "64 word"
type_synonym addr = "64 word"
type_synonym u32 = "32 word"
type_synonym byte = "8 word"

abbreviation (input) NULL :: addr where
  "NULL \<equiv> 0"

text \<open>Facts about aligned sizes and addresses, for \<open>simp add:\<close> in the component proofs.\<close>

named_theorems align_simps

section \<open>Assertions\<close>

definition c_assert :: "bool \<Rightarrow> unit option" where
  "c_assert c = (if c then Some () else None)"

lemma c_assert_True [simp]: "c_assert True = Some ()"
  by (simp add: c_assert_def)

lemma c_assert_False [simp]: "c_assert False = None"
  by (simp add: c_assert_def)

lemma c_assert_bind_Some [simp]:
  "(c_assert c \<bind> f) = Some y \<longleftrightarrow> c \<and> f () = Some y"
  by (cases c) simp_all

lemma c_assert_bind_None: "(c_assert c \<bind> f) = None \<longleftrightarrow> \<not> c \<or> f () = None"
  by (cases c) simp_all

section \<open>Powers of two and masks on words\<close>

lemma nat_and_pred_zero: "n \<noteq> 0 \<Longrightarrow> n AND (n - 1) = (0::nat) \<Longrightarrow> \<exists>k. n = 2 ^ k"
proof (induction n rule: less_induct)
  case (less n)
  show ?case
  proof (cases "even n")
    case True
    then obtain m where m: "n = 2 * m" by (elim evenE)
    with less.prems have "m \<noteq> 0" "m < n" by auto
    have n1: "n - 1 = 2 * (m - 1) + 1" using m \<open>m \<noteq> 0\<close> by simp
    have "n AND (n - 1) = 2 * (m AND (m - 1))"
      unfolding n1 unfolding m by (subst and_rec) simp
    with less.prems have "m AND (m - 1) = 0" by simp
    with less.IH [OF \<open>m < n\<close> \<open>m \<noteq> 0\<close>] obtain k where "m = 2 ^ k" by blast
    with m have "n = 2 ^ Suc k" by simp
    then show ?thesis by blast
  next
    case False
    then obtain m where m: "n = 2 * m + 1" by (elim oddE)
    have n1: "n - 1 = 2 * m" using m by simp
    have "n AND (n - 1) = 2 * m"
      unfolding n1 unfolding m by (subst and_rec) simp
    with less.prems m have "n = 2 ^ 0" by simp
    then show ?thesis by blast
  qed
qed

lemma unat_and: "unat (a AND b) = unat a AND unat b"
  for a b :: "'a::len word"
  by (simp add: unsigned_and_eq)

lemma pow2_word_iff: "w \<noteq> 0 \<and> (w - 1) AND w = 0 \<longleftrightarrow> (\<exists>k < LENGTH('a). w = 2 ^ k)"
  for w :: "'a::len word"
proof
  assume w: "w \<noteq> 0 \<and> (w - 1) AND w = 0"
  then have "unat w AND (unat w - 1) = 0"
    by (metis and.commute unat_and unat_minus_one unat_0)
  moreover have "unat w \<noteq> 0" using w by (simp add: unat_eq_0)
  ultimately obtain k where k: "unat w = 2 ^ k" using nat_and_pred_zero by blast
  have "2 ^ k < (2::nat) ^ LENGTH('a)" by (metis k unsigned_less)
  then have "k < LENGTH('a)" by simp
  moreover have "w = 2 ^ k" by (metis k of_nat_numeral of_nat_power of_nat_unat ucast_id)
  ultimately show "\<exists>k < LENGTH('a). w = 2 ^ k" by blast
next
  assume "\<exists>k < LENGTH('a). w = 2 ^ k"
  then obtain k where k: "k < LENGTH('a)" "w = 2 ^ k" by blast
  then have "w \<noteq> 0" by (simp add: exp_eq_zero_iff)
  moreover have "mask k AND (2 ^ k :: 'a word) = 0"
    by (rule bit_eqI) (auto simp: bit_simps)
  ultimately show "w \<noteq> 0 \<and> (w - 1) AND w = 0" using k by (simp add: mask_eq_decr_exp)
qed

lemma unat_and_not_mask: "unat (w AND NOT (mask k)) = unat w div 2 ^ k * 2 ^ k"
  for w :: "'a::len word"
proof -
  have "w = (w AND NOT (mask k)) + (w AND mask k)"
    by (subst disjunctive_add) (auto simp: bit_simps bit_eq_iff)
  then have "w AND NOT (mask k) = w - take_bit k w"
    by (metis add_diff_cancel_right' take_bit_eq_mask)
  moreover have t: "unat (take_bit k w) = unat w mod 2 ^ k"
    by (simp add: unsigned_take_bit_eq flip: take_bit_eq_mod)
  then have "take_bit k w \<le> w" by (simp add: word_le_nat_alt)
  ultimately have "unat (w AND NOT (mask k)) = unat w - unat w mod 2 ^ k"
    using t by (simp add: unat_sub)
  then show ?thesis by (simp add: minus_mod_eq_div_mult)
qed

lemma unat_Suc_less: "(w :: 'a::len word) < v \<Longrightarrow> unat (w + 1) = Suc (unat w)"
proof -
  assume "w < v"
  then have "unat w < unat v" by (simp add: word_less_nat_alt)
  moreover have "unat v < 2 ^ LENGTH('a)" by (rule unsigned_less)
  ultimately have "Suc (unat w) < 2 ^ LENGTH('a)" by linarith
  then show ?thesis by (simp add: unat_word_ariths)
qed

lemma unat32_less: "unat (w :: 32 word) < 2 ^ 32"
  by (rule order_less_le_trans [OF unsigned_less]) simp

lemma unat_ucast32: "unat (ucast (w :: 32 word) :: 64 word) = unat w"
  using unat32_less [of w] by (simp add: unsigned_ucast_eq take_bit_nat_eq_self)

lemma unat64_less [simp]: "unat (w :: 64 word) < 2 ^ 64"
  by (rule order_less_le_trans [OF unsigned_less]) simp

lemma unat64_less_numeral [simp]: "unat (w :: 64 word) < 18446744073709551616"
  using unat64_less [of w] by simp

lemma unat_of_nat64: "n < 2 ^ 64 \<Longrightarrow> unat (of_nat n :: 64 word) = n"
  by (simp add: unat_of_nat)

lemma unat_plus_one: "unat (w :: 64 word) < unat (v :: 64 word) \<Longrightarrow> unat (w + 1) = Suc (unat w)"
proof -
  assume "unat w < unat v"
  then have "Suc (unat w) < 2 ^ 64" using unat64_less [of v] by linarith
  then show ?thesis by (simp add: unat_word_ariths)
qed

lemma of_nat64_below: "n < unat (v :: 64 word) \<Longrightarrow> unat (of_nat n :: 64 word) = n"
  using unat64_less [of v] by (intro unat_of_nat64) linarith

lemma of_nat64_eq_0: "n < unat (v :: 64 word) \<Longrightarrow> (of_nat n :: 64 word) = 0 \<longleftrightarrow> n = 0"
proof
  assume n: "n < unat v" and "(of_nat n :: 64 word) = 0"
  then have "unat (of_nat n :: 64 word) = 0" by (simp only: unat_0)
  then show "n = 0" unfolding of_nat64_below [OF n] .
qed simp

lemma unat_pow2: "k < LENGTH('a) \<Longrightarrow> unat (2 ^ k :: 'a::len word) = 2 ^ k"
  by (metis mod_less numeral_One of_nat_numeral of_nat_power one_less_numeral_iff
      power_strict_increasing semiring_norm(76) unat_of_nat)

text \<open>
  Rounding up with the mask trick \<open>(s + a - 1) & ~(a - 1)\<close> for a power of two \<open>a\<close>: the
  exact multiple, reduced modulo the word size when the addition wraps.
\<close>

lemma div_mult_mod_pow2:
  "k \<le> n \<Longrightarrow> (x mod 2 ^ n) div 2 ^ k * 2 ^ k = (x div 2 ^ k * 2 ^ k) mod (2 ^ n :: nat)"
proof -
  assume "k \<le> n"
  then obtain d where n: "n = k + d" using le_Suc_ex by blast
  have "(x mod 2 ^ n) div 2 ^ k = (x div 2 ^ k) mod 2 ^ d"
    unfolding n by (simp add: power_add mod_mult2_eq)
  then have "(x mod 2 ^ n) div 2 ^ k * 2 ^ k = 2 ^ k * ((x div 2 ^ k) mod 2 ^ d)"
    by (simp only: mult.commute)
  also have "\<dots> = (2 ^ k * (x div 2 ^ k)) mod (2 ^ k * 2 ^ d)"
    by (rule mult_mod_right)
  finally show ?thesis unfolding n by (simp only: mult.commute power_add)
qed

lemma unat_round_up:
  assumes "k < LENGTH('a)" and a: "a = (2 ^ k :: 'a::len word)"
  shows "unat ((s + a - 1) AND NOT (a - 1))
       = ((unat s + unat a - 1) div unat a * unat a) mod 2 ^ LENGTH('a)"
proof -
  have ua: "unat a = 2 ^ k" using assms by (simp add: unat_pow2)
  have "s + a - 1 = s + mask k" by (simp add: a mask_eq_decr_exp)
  moreover have "unat (mask k :: 'a word) = 2 ^ k - 1"
    using assms by (simp add: mask_eq_decr_exp unat_minus_one unat_pow2 exp_eq_zero_iff)
  ultimately have "unat (s + a - 1) = (unat s + unat a - 1) mod 2 ^ LENGTH('a)"
    by (simp only: unat_word_ariths ua Nat.add_diff_assoc one_le_power one_le_numeral)
  moreover have "NOT (a - 1) = NOT (mask k)" by (simp add: a mask_eq_decr_exp)
  ultimately show ?thesis
    using assms(1) by (simp add: unat_and_not_mask ua div_mult_mod_pow2)
qed

end
