(* ===== verification/Jfs_Error.thy ===== *)
theory Jfs_Error
  imports Jfs_Prelude
begin

text \<open>
  The error module (\<open>src/src/include/error.h\<close>, \<open>src/src/modules/error.c\<close>): the error enum,
  its strings, and the wrappers that translate the outcome of a system call into the
  program's errors.

  Every C function of the program takes a \<open>jfs_err_t *err\<close> that it reads and writes. In
  the model it is a value passed in and a value returned. No wrapper clears it on
  success, which callers that loop have to take care of. What the kernel or the C library
  answers is an argument of the wrapper: \<open>SysOk v\<close> for a result, \<open>SysErr e\<close> for \<open>-1\<close> (or
  \<open>MAP_FAILED\<close>, or a null \<open>DIR\<close>) with \<open>errno\<close> set to \<open>e\<close>. The colour codes printed by
  \<open>LOG_ERR\<close> and \<open>RES_ERR\<close> are output only and are not modelled; the assignment
  \<open>*err = JFS_OK\<close> of \<open>RES_ERR\<close> is.
\<close>

section \<open>The error enum\<close>

datatype jfs_err_t =
    JFS_OK
  | JFS_ERR_SYS
  | JFS_ERR_INTER
  | JFS_ERR_AGAIN
  | JFS_ERR_ACCESS
  | JFS_ERR_INVAL_PATH
  | JFS_ERR_ARG
  | JFS_ERR_EMPTY
  | JFS_ERR_FULL
  | JFS_ERR_BAD_CONF
  | JFS_ERR_GETADDRINFO
  | JFS_ERR_LAN_HOST_UNREACH
  | JFS_ERR_CONNECTION_ABORT
  | JFS_ERR_CONNECTION_RESET
  | JFS_ERR_PIPE
  | JFS_ERR_MUTEX_BUSY
  | JFS_ERR_COND_BUSY
  | JFS_ERR_COND_TIMED_OUT
  | JFS_ERR_FIO_PATH_LEN
  | JFS_ERR_FIO_NAME_LEN
  | JFS_ERR_FIO_PATH_OVERFLOW
  | JFS_ERR_FIO_FILE_END
  | JFS_ERR_FW_STATE
  | JFS_ERR_FW_SKIP
  | JFS_ERR_FW_FAIL
  | JFS_ERR_FW_UNSUPPORTED
  | JFS_ERR_FW_UNKNOWN
  | JFS_ERR_NS_BAD_ACCEPT
  | JFS_ERR_NS_BAD_ADDR
  | JFS_ERR_NS_CONNECTION_CLOSE
  | JFS_ERR_BST_BAD_KEY

fun jfs_err_str :: "jfs_err_t \<Rightarrow> string" where
  "jfs_err_str JFS_OK = ''JFS_OK''"
| "jfs_err_str JFS_ERR_SYS = ''JFS_ERR_SYS''"
| "jfs_err_str JFS_ERR_INTER = ''JFS_ERR_INTER''"
| "jfs_err_str JFS_ERR_AGAIN = ''JFS_ERR_AGAIN''"
| "jfs_err_str JFS_ERR_ACCESS = ''JFS_ERR_ACCESS''"
| "jfs_err_str JFS_ERR_INVAL_PATH = ''JFS_ERR_INVAL_PATH''"
| "jfs_err_str JFS_ERR_ARG = ''JFS_ERR_ARG''"
| "jfs_err_str JFS_ERR_EMPTY = ''JFS_ERR_EMPTY''"
| "jfs_err_str JFS_ERR_FULL = ''JFS_ERR_FULL''"
| "jfs_err_str JFS_ERR_BAD_CONF = ''JFS_ERR_BAD_CONF''"
| "jfs_err_str JFS_ERR_GETADDRINFO = ''JFS_ERR_GETADDRINFO''"
| "jfs_err_str JFS_ERR_LAN_HOST_UNREACH = ''JFS_ERR_LAN_HOST_UNREACH''"
| "jfs_err_str JFS_ERR_CONNECTION_ABORT = ''JFS_ERR_CONNECTION_ABORT''"
| "jfs_err_str JFS_ERR_CONNECTION_RESET = ''JFS_ERR_CONNECTION_RESET''"
| "jfs_err_str JFS_ERR_PIPE = ''JFS_ERR_PIPE''"
| "jfs_err_str JFS_ERR_MUTEX_BUSY = ''JFS_ERR_MUTEX_BUSY''"
| "jfs_err_str JFS_ERR_COND_BUSY = ''JFS_ERR_COND_BUSY''"
| "jfs_err_str JFS_ERR_COND_TIMED_OUT = ''JFS_ERR_COND_TIMED_OUT''"
| "jfs_err_str JFS_ERR_FIO_PATH_LEN = ''JFS_ERR_FIO_PATH_LEN''"
| "jfs_err_str JFS_ERR_FIO_NAME_LEN = ''JFS_ERR_FIO_NAME_LEN''"
| "jfs_err_str JFS_ERR_FIO_PATH_OVERFLOW = ''JFS_ERR_FIO_PATH_OVERFLOW''"
| "jfs_err_str JFS_ERR_FIO_FILE_END = ''JFS_ERR_FIO_FILE_END''"
| "jfs_err_str JFS_ERR_FW_STATE = ''JFS_ERR_FW_STATE''"
| "jfs_err_str JFS_ERR_FW_SKIP = ''JFS_ERR_FW_SKIP''"
| "jfs_err_str JFS_ERR_FW_FAIL = ''JFS_ERR_FW_FAIL''"
| "jfs_err_str JFS_ERR_FW_UNSUPPORTED = ''JFS_ERR_FW_UNSUPPORTED''"
| "jfs_err_str JFS_ERR_FW_UNKNOWN = ''JFS_ERR_FW_UNKNOWN''"
| "jfs_err_str JFS_ERR_NS_BAD_ACCEPT = ''JFS_ERR_NS_BAD_ACCEPT''"
| "jfs_err_str JFS_ERR_NS_BAD_ADDR = ''JFS_ERR_NS_BAD_ADDR''"
| "jfs_err_str JFS_ERR_NS_CONNECTION_CLOSE = ''JFS_ERR_NS_CONNECTION_CLOSE''"
| "jfs_err_str JFS_ERR_BST_BAD_KEY = ''JFS_ERR_BST_BAD_KEY''"

text \<open>\<open>JFS_ERROR_LIST\<close>: the enum constants in the order of the macro, which fixes their codes.\<close>

definition jfs_err_list :: "jfs_err_t list" where
  "jfs_err_list =
    [JFS_OK,
     JFS_ERR_SYS,
     JFS_ERR_INTER,
     JFS_ERR_AGAIN,
     JFS_ERR_ACCESS,
     JFS_ERR_INVAL_PATH,
     JFS_ERR_ARG,
     JFS_ERR_EMPTY,
     JFS_ERR_FULL,
     JFS_ERR_BAD_CONF,
     JFS_ERR_GETADDRINFO,
     JFS_ERR_LAN_HOST_UNREACH,
     JFS_ERR_CONNECTION_ABORT,
     JFS_ERR_CONNECTION_RESET,
     JFS_ERR_PIPE,
     JFS_ERR_MUTEX_BUSY,
     JFS_ERR_COND_BUSY,
     JFS_ERR_COND_TIMED_OUT,
     JFS_ERR_FIO_PATH_LEN,
     JFS_ERR_FIO_NAME_LEN,
     JFS_ERR_FIO_PATH_OVERFLOW,
     JFS_ERR_FIO_FILE_END,
     JFS_ERR_FW_STATE,
     JFS_ERR_FW_SKIP,
     JFS_ERR_FW_FAIL,
     JFS_ERR_FW_UNSUPPORTED,
     JFS_ERR_FW_UNKNOWN,
     JFS_ERR_NS_BAD_ACCEPT,
     JFS_ERR_NS_BAD_ADDR,
     JFS_ERR_NS_CONNECTION_CLOSE,
     JFS_ERR_BST_BAD_KEY]"

definition jfs_err_code :: "jfs_err_t \<Rightarrow> nat" where
  "jfs_err_code e = length (takeWhile (\<lambda>x. x \<noteq> e) jfs_err_list)"

section \<open>Outcomes of system calls\<close>

datatype errno =
    E_NONE
  | EACCES | ENOENT | ENOTDIR
  | ECONNABORTED | EPROTO | ENOPROTOOPT | EHOSTDOWN | ENONET | EHOSTUNREACH | EOPNOTSUPP
  | ENETUNREACH | EAGAIN | EINTR | ECONNREFUSED | ETIMEDOUT | ECONNRESET | EPIPE | EBUSY
  | E_OTHER nat

datatype 'a sys = SysOk 'a | SysErr errno

datatype eai = EAI_AGAIN | EAI_FAIL | EAI_NONAME | EAI_SYSTEM | EAI_OTHER nat

text \<open>
  The macros that reset or remap an error: \<open>RES_ERR\<close>, \<open>IGNORE_ERR\<close> and \<open>REMAP_ERR\<close>.
\<close>

definition RES_ERR :: "jfs_err_t \<Rightarrow> jfs_err_t" where
  "RES_ERR err = JFS_OK"

definition REMAP_ERR :: "jfs_err_t \<Rightarrow> jfs_err_t \<Rightarrow> jfs_err_t \<Rightarrow> jfs_err_t" where
  "REMAP_ERR from_var to_var err = (if err = from_var then to_var else err)"

text \<open>A null pointer is \<open>None\<close>: the argument is what \<open>malloc\<close> or \<open>realloc\<close> returned.\<close>

definition jfs_malloc :: "'p option \<Rightarrow> jfs_err_t \<Rightarrow> 'p option \<times> jfs_err_t" where
  "jfs_malloc allocated_memory err =
     (case allocated_memory of
        None \<Rightarrow> (None, JFS_ERR_SYS)
      | Some p \<Rightarrow> (Some p, err))"

definition jfs_realloc :: "'p option \<Rightarrow> jfs_err_t \<Rightarrow> 'p option \<times> jfs_err_t" where
  "jfs_realloc allocated_memory err =
     (case allocated_memory of
        None \<Rightarrow> (None, JFS_ERR_SYS)
      | Some p \<Rightarrow> (Some p, err))"

definition jfs_lstat :: "'st sys \<Rightarrow> jfs_err_t \<Rightarrow> 'st option \<times> jfs_err_t" where
  "jfs_lstat r err =
     (case r of
        SysOk st \<Rightarrow> (Some st, err)
      | SysErr EACCES \<Rightarrow> (None, JFS_ERR_ACCESS)
      | SysErr ENOENT \<Rightarrow> (None, JFS_ERR_INVAL_PATH)
      | SysErr ENOTDIR \<Rightarrow> (None, JFS_ERR_INVAL_PATH)
      | SysErr _ \<Rightarrow> (None, JFS_ERR_SYS))"

definition jfs_opendir :: "'d sys \<Rightarrow> jfs_err_t \<Rightarrow> 'd option \<times> jfs_err_t" where
  "jfs_opendir r err =
     (case r of
        SysOk dir \<Rightarrow> (Some dir, err)
      | SysErr ENOENT \<Rightarrow> (None, JFS_ERR_INVAL_PATH)
      | SysErr ENOTDIR \<Rightarrow> (None, JFS_ERR_INVAL_PATH)
      | SysErr EACCES \<Rightarrow> (None, JFS_ERR_ACCESS)
      | SysErr _ \<Rightarrow> (None, JFS_ERR_SYS))"

definition jfs_shutdown :: "unit sys \<Rightarrow> jfs_err_t \<Rightarrow> jfs_err_t" where
  "jfs_shutdown r err = (case r of SysOk _ \<Rightarrow> err | SysErr _ \<Rightarrow> JFS_ERR_SYS)"

definition jfs_getaddrinfo :: "eai + 'ai \<Rightarrow> jfs_err_t \<Rightarrow> 'ai option \<times> jfs_err_t" where
  "jfs_getaddrinfo r err =
     (case r of
        Inr result \<Rightarrow> (Some result, err)
      | Inl EAI_AGAIN \<Rightarrow> (None, JFS_ERR_AGAIN)
      | Inl EAI_FAIL \<Rightarrow> (None, JFS_ERR_LAN_HOST_UNREACH)
      | Inl EAI_NONAME \<Rightarrow> (None, JFS_ERR_LAN_HOST_UNREACH)
      | Inl EAI_SYSTEM \<Rightarrow> (None, JFS_ERR_SYS)
      | Inl (EAI_OTHER _) \<Rightarrow> (None, JFS_ERR_GETADDRINFO))"

definition jfs_bind :: "unit sys \<Rightarrow> jfs_err_t \<Rightarrow> jfs_err_t" where
  "jfs_bind r err = (case r of SysOk _ \<Rightarrow> err | SysErr _ \<Rightarrow> JFS_ERR_SYS)"

definition jfs_listen :: "unit sys \<Rightarrow> jfs_err_t \<Rightarrow> jfs_err_t" where
  "jfs_listen r err = (case r of SysOk _ \<Rightarrow> err | SysErr _ \<Rightarrow> JFS_ERR_SYS)"

definition jfs_accept :: "int sys \<Rightarrow> jfs_err_t \<Rightarrow> int \<times> jfs_err_t" where
  "jfs_accept r err =
     (case r of
        SysOk accepted_fd \<Rightarrow> (accepted_fd, err)
      | SysErr e \<Rightarrow>
          (-1, case e of
             ECONNABORTED \<Rightarrow> JFS_ERR_CONNECTION_ABORT
           | EPROTO \<Rightarrow> JFS_ERR_AGAIN
           | ENOPROTOOPT \<Rightarrow> JFS_ERR_AGAIN
           | EHOSTDOWN \<Rightarrow> JFS_ERR_AGAIN
           | ENONET \<Rightarrow> JFS_ERR_AGAIN
           | EHOSTUNREACH \<Rightarrow> JFS_ERR_AGAIN
           | EOPNOTSUPP \<Rightarrow> JFS_ERR_AGAIN
           | ENETUNREACH \<Rightarrow> JFS_ERR_AGAIN
           | EAGAIN \<Rightarrow> JFS_ERR_AGAIN
           | EINTR \<Rightarrow> JFS_ERR_INTER
           | _ \<Rightarrow> JFS_ERR_SYS))"

definition jfs_connect :: "unit sys \<Rightarrow> jfs_err_t \<Rightarrow> jfs_err_t" where
  "jfs_connect r err =
     (case r of
        SysOk _ \<Rightarrow> err
      | SysErr e \<Rightarrow>
          (case e of
             EAGAIN \<Rightarrow> JFS_ERR_AGAIN
           | ECONNREFUSED \<Rightarrow> JFS_ERR_LAN_HOST_UNREACH
           | ETIMEDOUT \<Rightarrow> JFS_ERR_LAN_HOST_UNREACH
           | ENETUNREACH \<Rightarrow> JFS_ERR_LAN_HOST_UNREACH
           | EINTR \<Rightarrow> JFS_ERR_INTER
           | _ \<Rightarrow> JFS_ERR_SYS))"

definition jfs_recv :: "nat sys \<Rightarrow> jfs_err_t \<Rightarrow> nat \<times> jfs_err_t" where
  "jfs_recv r err =
     (case r of
        SysOk status \<Rightarrow> (status, err)
      | SysErr e \<Rightarrow>
          (0, case e of
             EAGAIN \<Rightarrow> JFS_ERR_AGAIN
           | EINTR \<Rightarrow> JFS_ERR_INTER
           | _ \<Rightarrow> JFS_ERR_SYS))"

definition jfs_send :: "nat sys \<Rightarrow> jfs_err_t \<Rightarrow> nat \<times> jfs_err_t" where
  "jfs_send r err =
     (case r of
        SysOk status \<Rightarrow> (status, err)
      | SysErr e \<Rightarrow>
          (0, case e of
             EAGAIN \<Rightarrow> JFS_ERR_AGAIN
           | ECONNRESET \<Rightarrow> JFS_ERR_CONNECTION_RESET
           | EINTR \<Rightarrow> JFS_ERR_INTER
           | EPIPE \<Rightarrow> JFS_ERR_PIPE
           | _ \<Rightarrow> JFS_ERR_SYS))"

definition jfs_socket :: "int sys \<Rightarrow> jfs_err_t \<Rightarrow> int \<times> jfs_err_t" where
  "jfs_socket r err =
     (case r of SysOk new_fd \<Rightarrow> (new_fd, err) | SysErr _ \<Rightarrow> (-1, JFS_ERR_SYS))"

definition jfs_close :: "unit sys \<Rightarrow> jfs_err_t \<Rightarrow> jfs_err_t" where
  "jfs_close r err = (case r of SysOk _ \<Rightarrow> err | SysErr _ \<Rightarrow> JFS_ERR_SYS)"

text \<open>
  The pthread functions return their error number and leave \<open>errno\<close> alone; the wrappers
  test the returned number against 0 but then switch on \<open>errno\<close>. Both are arguments here.
\<close>

definition jfs_mutex_init :: "errno \<Rightarrow> errno \<Rightarrow> jfs_err_t \<Rightarrow> jfs_err_t" where
  "jfs_mutex_init ret errno_now err = (if ret \<noteq> E_NONE then JFS_ERR_SYS else err)"

definition jfs_mutex_destroy :: "errno \<Rightarrow> errno \<Rightarrow> jfs_err_t \<Rightarrow> jfs_err_t" where
  "jfs_mutex_destroy ret errno_now err =
     (if ret \<noteq> E_NONE
      then (case errno_now of EBUSY \<Rightarrow> JFS_ERR_MUTEX_BUSY | _ \<Rightarrow> JFS_ERR_SYS)
      else err)"

definition jfs_mutex_trylock :: "errno \<Rightarrow> errno \<Rightarrow> jfs_err_t \<Rightarrow> jfs_err_t" where
  "jfs_mutex_trylock ret errno_now err =
     (if ret \<noteq> E_NONE
      then (case errno_now of EBUSY \<Rightarrow> JFS_ERR_MUTEX_BUSY | _ \<Rightarrow> JFS_ERR_SYS)
      else err)"

definition jfs_cond_destroy :: "errno \<Rightarrow> errno \<Rightarrow> jfs_err_t \<Rightarrow> jfs_err_t" where
  "jfs_cond_destroy ret errno_now err =
     (if ret \<noteq> E_NONE
      then (case errno_now of EBUSY \<Rightarrow> JFS_ERR_COND_BUSY | _ \<Rightarrow> JFS_ERR_SYS)
      else err)"

definition jfs_cond_timedwait :: "errno \<Rightarrow> errno \<Rightarrow> jfs_err_t \<Rightarrow> jfs_err_t" where
  "jfs_cond_timedwait ret errno_now err =
     (if ret \<noteq> E_NONE
      then (case errno_now of ETIMEDOUT \<Rightarrow> JFS_ERR_COND_TIMED_OUT | _ \<Rightarrow> JFS_ERR_SYS)
      else err)"

definition jfs_eventfd :: "int sys \<Rightarrow> jfs_err_t \<Rightarrow> int \<times> jfs_err_t" where
  "jfs_eventfd r err =
     (case r of SysOk event_fd \<Rightarrow> (event_fd, err) | SysErr _ \<Rightarrow> (-1, JFS_ERR_SYS))"

definition jfs_read :: "nat sys \<Rightarrow> jfs_err_t \<Rightarrow> nat \<times> jfs_err_t" where
  "jfs_read r err =
     (case r of
        SysOk status \<Rightarrow> (status, err)
      | SysErr e \<Rightarrow>
          (0, case e of
             EAGAIN \<Rightarrow> JFS_ERR_AGAIN
           | EINTR \<Rightarrow> JFS_ERR_INTER
           | _ \<Rightarrow> JFS_ERR_SYS))"

definition jfs_write :: "nat sys \<Rightarrow> jfs_err_t \<Rightarrow> nat \<times> jfs_err_t" where
  "jfs_write r err =
     (case r of
        SysOk status \<Rightarrow> (status, err)
      | SysErr e \<Rightarrow>
          (0, case e of
             EAGAIN \<Rightarrow> JFS_ERR_AGAIN
           | EINTR \<Rightarrow> JFS_ERR_INTER
           | EPIPE \<Rightarrow> JFS_ERR_PIPE
           | _ \<Rightarrow> JFS_ERR_SYS))"

definition jfs_mmap :: "addr sys \<Rightarrow> jfs_err_t \<Rightarrow> addr \<times> jfs_err_t" where
  "jfs_mmap r err =
     (case r of SysOk mem \<Rightarrow> (mem, err) | SysErr _ \<Rightarrow> (NULL, JFS_ERR_SYS))"

text \<open>\<open>posix_memalign\<close> returns 0 and a block, or an error number.\<close>

definition jfs_aligned_alloc :: "addr sys \<Rightarrow> jfs_err_t \<Rightarrow> addr \<times> jfs_err_t" where
  "jfs_aligned_alloc r err =
     (case r of SysOk mem \<Rightarrow> (mem, err) | SysErr _ \<Rightarrow> (NULL, JFS_ERR_SYS))"

section \<open>The enum and its codes\<close>

text \<open>Every constant of the enum is in the list exactly once, so codes and constants agree.\<close>

lemma jfs_err_list_distinct: "distinct jfs_err_list"
  by (simp add: jfs_err_list_def)

lemma jfs_err_list_complete: "e \<in> set jfs_err_list"
  by (cases e) (simp_all add: jfs_err_list_def)

lemma takeWhile_neq_index:
  "x \<in> set xs \<Longrightarrow> length (takeWhile (\<lambda>y. y \<noteq> x) xs) < length xs
     \<and> xs ! length (takeWhile (\<lambda>y. y \<noteq> x) xs) = x"
  by (induction xs) auto

lemma jfs_err_code_nth: "jfs_err_list ! jfs_err_code e = e"
  unfolding jfs_err_code_def using takeWhile_neq_index [OF jfs_err_list_complete] by blast

lemma jfs_err_code_inj: "jfs_err_code e = jfs_err_code e' \<longleftrightarrow> e = e'"
  by (metis jfs_err_code_nth)

text \<open>C compares enum constants by their codes; this is the library's linear order.\<close>

instantiation jfs_err_t :: linorder
begin

definition less_eq_jfs_err_t :: "jfs_err_t \<Rightarrow> jfs_err_t \<Rightarrow> bool" where
  "less_eq_jfs_err_t a b = (jfs_err_code a \<le> jfs_err_code b)"

definition less_jfs_err_t :: "jfs_err_t \<Rightarrow> jfs_err_t \<Rightarrow> bool" where
  "less_jfs_err_t a b = (jfs_err_code a < jfs_err_code b)"

instance
  by standard (auto simp: less_eq_jfs_err_t_def less_jfs_err_t_def jfs_err_code_inj)

end

lemma JFS_OK_least: "JFS_OK \<le> e"
  by (simp add: less_eq_jfs_err_t_def jfs_err_code_def jfs_err_list_def)

text \<open>The strings are the spelling of the constants, so no two constants share one.\<close>

lemma jfs_err_str_list_distinct: "distinct (map jfs_err_str jfs_err_list)"
  by (simp add: jfs_err_list_def)

lemma jfs_err_str_inj: "jfs_err_str a = jfs_err_str b \<Longrightarrow> a = b"
  using jfs_err_str_list_distinct jfs_err_list_complete
  by (metis distinct_map inj_on_eq_iff)

section \<open>The contract of a wrapper\<close>

text \<open>
  What the callers of a wrapper rely on: a successful call hands the value on and leaves
  \<open>err\<close> as it was; a failed call returns the wrapper's failure value and sets \<open>err\<close> to an
  error that depends on the cause alone.
\<close>

locale sys_wrapper =
  fixes call :: "'o \<Rightarrow> jfs_err_t \<Rightarrow> 'b \<times> jfs_err_t"
    and succeeded :: "'o \<Rightarrow> bool"
    and result :: "'o \<Rightarrow> 'b"
    and failure :: 'b
  assumes call_ok: "succeeded r \<Longrightarrow> call r err = (result r, err)"
    and call_fail: "\<not> succeeded r \<Longrightarrow> fst (call r err) = failure"
    and call_fail_err: "\<not> succeeded r \<Longrightarrow> snd (call r err) \<noteq> JFS_OK"
    and call_fail_indep: "\<not> succeeded r \<Longrightarrow> snd (call r err) = snd (call r err')"
begin

lemma call_err_OK_iff: "snd (call r JFS_OK) = JFS_OK \<longleftrightarrow> succeeded r"
  by (metis call_ok call_fail_err snd_conv)

lemma call_keeps_error: "err \<noteq> JFS_OK \<Longrightarrow> snd (call r err) \<noteq> JFS_OK"
  by (cases "succeeded r") (auto simp: call_ok call_fail_err)

lemma call_cases:
  obtains (ok) "succeeded r" "call r err = (result r, err)"
  | (fail) e where "\<not> succeeded r" "e \<noteq> JFS_OK" "\<And>err. call r err = (failure, e)"
  by (metis call_ok call_fail call_fail_err call_fail_indep prod.collapse)

end

fun is_ok :: "'a sys \<Rightarrow> bool" where
  "is_ok (SysOk _) = True"
| "is_ok (SysErr _) = False"

fun sys_value :: "'a sys \<Rightarrow> 'a" where
  "sys_value (SysOk v) = v"
| "sys_value (SysErr _) = undefined"

lemma is_ok_conv: "is_ok r \<longleftrightarrow> (\<exists>v. r = SysOk v)"
  by (cases r) simp_all

lemmas wrapper_defs =
  jfs_malloc_def jfs_realloc_def jfs_lstat_def jfs_opendir_def jfs_shutdown_def
  jfs_getaddrinfo_def jfs_bind_def jfs_listen_def jfs_accept_def jfs_connect_def
  jfs_recv_def jfs_send_def jfs_socket_def jfs_close_def jfs_mutex_init_def
  jfs_mutex_destroy_def jfs_mutex_trylock_def jfs_cond_destroy_def
  jfs_cond_timedwait_def jfs_eventfd_def jfs_read_def jfs_write_def jfs_mmap_def
  jfs_aligned_alloc_def

interpretation malloc_w: sys_wrapper jfs_malloc "\<lambda>p. p \<noteq> None" "\<lambda>p. p" None
  by unfold_locales (auto simp: jfs_malloc_def)

interpretation realloc_w: sys_wrapper jfs_realloc "\<lambda>p. p \<noteq> None" "\<lambda>p. p" None
  by unfold_locales (auto simp: jfs_realloc_def)

interpretation lstat_w: sys_wrapper jfs_lstat is_ok "\<lambda>r. Some (sys_value r)" None
  by unfold_locales (auto simp: jfs_lstat_def split: sys.splits errno.splits)

interpretation opendir_w: sys_wrapper jfs_opendir is_ok "\<lambda>r. Some (sys_value r)" None
  by unfold_locales (auto simp: jfs_opendir_def split: sys.splits errno.splits)

interpretation getaddrinfo_w:
  sys_wrapper jfs_getaddrinfo "\<lambda>r. \<not> isl r" "\<lambda>r. Some (projr r)" None
  by unfold_locales (auto simp: jfs_getaddrinfo_def split: sum.splits eai.splits)

interpretation accept_w: sys_wrapper jfs_accept is_ok sys_value "-1"
  by unfold_locales (auto simp: jfs_accept_def split: sys.splits errno.splits)

interpretation connect_w:
  sys_wrapper "\<lambda>r err. ((), jfs_connect r err)" is_ok "\<lambda>_. ()" "()"
  by unfold_locales (auto simp: jfs_connect_def split: sys.splits errno.splits)

interpretation bind_w: sys_wrapper "\<lambda>r err. ((), jfs_bind r err)" is_ok "\<lambda>_. ()" "()"
  by unfold_locales (auto simp: jfs_bind_def split: sys.splits)

interpretation listen_w: sys_wrapper "\<lambda>r err. ((), jfs_listen r err)" is_ok "\<lambda>_. ()" "()"
  by unfold_locales (auto simp: jfs_listen_def split: sys.splits)

interpretation shutdown_w: sys_wrapper "\<lambda>r err. ((), jfs_shutdown r err)" is_ok "\<lambda>_. ()" "()"
  by unfold_locales (auto simp: jfs_shutdown_def split: sys.splits)

interpretation close_w: sys_wrapper "\<lambda>r err. ((), jfs_close r err)" is_ok "\<lambda>_. ()" "()"
  by unfold_locales (auto simp: jfs_close_def split: sys.splits)

interpretation recv_w: sys_wrapper jfs_recv is_ok sys_value 0
  by unfold_locales (auto simp: jfs_recv_def split: sys.splits errno.splits)

interpretation send_w: sys_wrapper jfs_send is_ok sys_value 0
  by unfold_locales (auto simp: jfs_send_def split: sys.splits errno.splits)

interpretation read_w: sys_wrapper jfs_read is_ok sys_value 0
  by unfold_locales (auto simp: jfs_read_def split: sys.splits errno.splits)

interpretation write_w: sys_wrapper jfs_write is_ok sys_value 0
  by unfold_locales (auto simp: jfs_write_def split: sys.splits errno.splits)

interpretation socket_w: sys_wrapper jfs_socket is_ok sys_value "-1"
  by unfold_locales (auto simp: jfs_socket_def split: sys.splits)

interpretation eventfd_w: sys_wrapper jfs_eventfd is_ok sys_value "-1"
  by unfold_locales (auto simp: jfs_eventfd_def split: sys.splits)

interpretation mmap_w: sys_wrapper jfs_mmap is_ok sys_value NULL
  by unfold_locales (auto simp: jfs_mmap_def split: sys.splits)

interpretation aligned_alloc_w: sys_wrapper jfs_aligned_alloc is_ok sys_value NULL
  by unfold_locales (auto simp: jfs_aligned_alloc_def split: sys.splits)


section \<open>The allocator as a state\<close>

text \<open>
  Functions that allocate several times, or that must give back what they allocated, thread
  an allocator state: the answers of the coming calls of \<open>malloc\<close> and \<open>realloc\<close> (\<open>False\<close> is a
  failure; past the end of the list every call succeeds) and the number of live blocks. It
  counts allocations minus frees, and is an \<open>int\<close> so that a block freed twice shows.
\<close>

record heap =
  alloc_script :: "bool list"
  live :: int

definition next_alloc :: "'a heap_scheme \<Rightarrow> bool" where
  "next_alloc h = (case alloc_script h of [] \<Rightarrow> True | b # _ \<Rightarrow> b)"

definition heap_malloc :: "'a heap_scheme \<Rightarrow> jfs_err_t \<Rightarrow> unit option \<times> 'a heap_scheme \<times> jfs_err_t" where
  "heap_malloc h err =
     (let (p, err) = jfs_malloc (if next_alloc h then Some () else None) err
      in (p, h\<lparr>alloc_script := tl (alloc_script h),
               live := live h + (if p \<noteq> None then 1 else 0)\<rparr>, err))"

text \<open>A successful \<open>realloc\<close> of a live block replaces it; of a null pointer it is a \<open>malloc\<close>.\<close>

definition heap_realloc ::
  "bool \<Rightarrow> 'a heap_scheme \<Rightarrow> jfs_err_t \<Rightarrow> unit option \<times> 'a heap_scheme \<times> jfs_err_t" where
  "heap_realloc is_null h err =
     (let (p, err) = jfs_realloc (if next_alloc h then Some () else None) err
      in (p, h\<lparr>alloc_script := tl (alloc_script h),
               live := live h + (if p \<noteq> None \<and> is_null then 1 else 0)\<rparr>, err))"

definition heap_free :: "bool \<Rightarrow> 'a heap_scheme \<Rightarrow> 'a heap_scheme" where
  "heap_free is_null h = (if is_null then h else h\<lparr>live := live h - 1\<rparr>)"

lemma heap_malloc_cases:
  obtains (ok) "next_alloc h"
    "heap_malloc h err = (Some (), h\<lparr>alloc_script := tl (alloc_script h), live := live h + 1\<rparr>, err)"
  | (fail) "\<not> next_alloc h"
    "heap_malloc h err = (None, h\<lparr>alloc_script := tl (alloc_script h)\<rparr>, JFS_ERR_SYS)"
  by (cases "next_alloc h") (auto simp: heap_malloc_def jfs_malloc_def)

lemma heap_realloc_cases:
  obtains (ok) "next_alloc h"
    "heap_realloc False h err = (Some (), h\<lparr>alloc_script := tl (alloc_script h)\<rparr>, err)"
  | (fail) "\<not> next_alloc h"
    "heap_realloc False h err = (None, h\<lparr>alloc_script := tl (alloc_script h)\<rparr>, JFS_ERR_SYS)"
  by (cases "next_alloc h") (auto simp: heap_realloc_def jfs_realloc_def)

lemma live_heap_free [simp]: "live (heap_free n h) = live h - (if n then 0 else 1)"
  by (simp add: heap_free_def)

lemma alloc_script_heap_free [simp]: "alloc_script (heap_free n h) = alloc_script h"
  by (simp add: heap_free_def)

lemma more_heap_free [simp]: "heap.more (heap_free n h) = heap.more h"
  by (simp add: heap_free_def)

end
