(* ===== verification/Jfs_Layout.thy ===== *)
theory Jfs_Layout
  imports Jfs_Error
begin

text \<open>
  The memory layout generator (\<open>src/src/modules/memory_layout_generator.c\<close> and its header).
  It packs a small header struct, the list of components, a user header and one array per
  description into a single aligned allocation. Sizes, alignments and counts are 64-bit
  words and the code does not check for overflow; the theorems carry the bound under which
  the computed layout is the intended one. The pair \<open>descriptions\<close>, \<open>descriptions_count\<close>
  of the C struct is one list here.
\<close>

section \<open>Data\<close>

record jfs_mlg_desc =
  desc_size :: size_t
  desc_align :: size_t
  desc_count :: size_t

record jfs_mlg_layout =
  descriptions :: "jfs_mlg_desc list"
  header_desc :: jfs_mlg_desc

record jfs_mlg_component =
  comp_ptr :: addr
  comp_desc :: jfs_mlg_desc

record jfs_mlg_memory =
  mem_component_list_ptr :: addr
  mem_component_list :: "jfs_mlg_component list"
  mem_component_count :: size_t
  mem_header :: addr

section \<open>Operations\<close>

definition jfs_mlg_valid_align :: "size_t \<Rightarrow> bool" where
  "jfs_mlg_valid_align align \<longleftrightarrow> align \<noteq> 0 \<and> ((align - 1) AND align) = 0"

definition jfs_mlg_valid_desc :: "jfs_mlg_desc \<Rightarrow> bool" where
  "jfs_mlg_valid_desc desc \<longleftrightarrow>
     jfs_mlg_valid_align (desc_align desc) \<and> desc_size desc > 0 \<and> desc_count desc > 0"

definition jfs_mlg_valid_component :: "jfs_mlg_component \<Rightarrow> bool" where
  "jfs_mlg_valid_component component \<longleftrightarrow>
     jfs_mlg_valid_desc (comp_desc component) \<and> comp_ptr component \<noteq> NULL"

definition jfs_mlg_apply_offset :: "addr \<Rightarrow> uintptr \<Rightarrow> addr option" where
  "jfs_mlg_apply_offset ptr offset = do {
     c_assert (offset > 0);
     Some (ptr + offset)
   }"

definition jfs_mlg_align_size :: "size_t \<Rightarrow> size_t \<Rightarrow> size_t option" where
  "jfs_mlg_align_size sz align = do {
     c_assert (jfs_mlg_valid_align align);
     c_assert (sz > 0);
     Some ((sz + align - 1) AND NOT (align - 1))
   }"

text \<open>The result is the offset returned and the new value of \<open>*base\<close>.\<close>

definition jfs_mlg_append :: "jfs_mlg_desc \<Rightarrow> jfs_mlg_desc \<Rightarrow> (uintptr \<times> jfs_mlg_desc) option" where
  "jfs_mlg_append base to_append = do {
     c_assert (jfs_mlg_valid_desc base);
     c_assert (jfs_mlg_valid_desc to_append);
     aligned_base_size \<leftarrow> jfs_mlg_align_size (desc_size base) (desc_align to_append);
     let base = base\<lparr>desc_size := aligned_base_size + desc_size to_append * desc_count to_append\<rparr>;
     let base = (if desc_align to_append > desc_align base
                 then base\<lparr>desc_align := desc_align to_append\<rparr> else base);
     Some (aligned_base_size, base)
   }"

text \<open>\<open>sizeof\<close> and \<open>alignof\<close> of \<open>jfs_mlg_memory_t\<close> and \<open>jfs_mlg_component_t\<close> on a 64-bit target.\<close>

definition memory_desc0 :: jfs_mlg_desc where
  "memory_desc0 = \<lparr>desc_size = 24, desc_align = 8, desc_count = 1\<rparr>"

definition component_list_desc :: "jfs_mlg_layout \<Rightarrow> jfs_mlg_desc" where
  "component_list_desc layout =
     \<lparr>desc_size = 32, desc_align = 8, desc_count = of_nat (length (descriptions layout))\<rparr>"

text \<open>
  The loop that fills \<open>component_offsets\<close>: \<open>Inl\<close> is the \<open>goto cleanup\<close> with the error set.
\<close>

fun mlg_component_offsets ::
  "jfs_mlg_desc list \<Rightarrow> jfs_mlg_desc \<Rightarrow> (jfs_err_t + uintptr list \<times> jfs_mlg_desc) option" where
  "mlg_component_offsets [] memory_desc = Some (Inr ([], memory_desc))"
| "mlg_component_offsets (desc # descs) memory_desc =
     (if \<not> jfs_mlg_valid_desc desc then Some (Inl JFS_ERR_BAD_CONF)
      else do {
        (off, memory_desc) \<leftarrow> jfs_mlg_append memory_desc desc;
        rest \<leftarrow> mlg_component_offsets descs memory_desc;
        Some (case rest of
                Inl e \<Rightarrow> Inl e
              | Inr (offs, memory_desc) \<Rightarrow> Inr (off # offs, memory_desc))
      })"

text \<open>The loop that fills \<open>memory->component_list\<close>.\<close>

fun mlg_fill_components ::
  "addr \<Rightarrow> jfs_mlg_desc list \<Rightarrow> uintptr list \<Rightarrow> jfs_mlg_component list option" where
  "mlg_fill_components memory (desc # descs) (off # offs) = do {
     ptr \<leftarrow> jfs_mlg_apply_offset memory off;
     rest \<leftarrow> mlg_fill_components memory descs offs;
     Some (\<lparr>comp_ptr = ptr, comp_desc = desc\<rparr> # rest)
   }"
| "mlg_fill_components memory _ _ = Some []"

text \<open>
  \<open>malloc_ret\<close> is the answer of \<open>malloc\<close> for the offsets array, \<open>memalign\<close> that of
  \<open>posix_memalign\<close> for an alignment and a size.
\<close>

definition jfs_mlg_memory_init ::
  "addr option \<Rightarrow> (size_t \<Rightarrow> size_t \<Rightarrow> addr sys) \<Rightarrow> jfs_mlg_layout \<Rightarrow> jfs_err_t
     \<Rightarrow> (jfs_mlg_memory option \<times> jfs_err_t) option" where
  "jfs_mlg_memory_init malloc_ret memalign layout err =
     (if \<not> jfs_mlg_valid_desc (header_desc layout) then Some (None, JFS_ERR_BAD_CONF)
      else do {
        (component_list_offset, memory_desc) \<leftarrow>
           jfs_mlg_append memory_desc0 (component_list_desc layout);
        (header_offset, memory_desc) \<leftarrow> jfs_mlg_append memory_desc (header_desc layout);
        let (component_offsets, err) = jfs_malloc malloc_ret err;
        if err \<noteq> JFS_OK then Some (None, err)
        else do {
          offsets \<leftarrow> mlg_component_offsets (descriptions layout) memory_desc;
          case offsets of
            Inl e \<Rightarrow> Some (None, e)
          | Inr (offs, memory_desc) \<Rightarrow> do {
              let (memory, err) =
                jfs_aligned_alloc (memalign (desc_align memory_desc) (desc_size memory_desc)) err;
              if err \<noteq> JFS_OK then Some (None, err)
              else do {
                component_list \<leftarrow> jfs_mlg_apply_offset memory component_list_offset;
                header \<leftarrow> jfs_mlg_apply_offset memory header_offset;
                components \<leftarrow> mlg_fill_components memory (descriptions layout) offs;
                Some (Some \<lparr>mem_component_list_ptr = component_list,
                            mem_component_list = components,
                            mem_component_count = of_nat (length (descriptions layout)),
                            mem_header = header\<rparr>, err)
              }
            }
        }
      })"

section \<open>Alignment arithmetic\<close>

lemma valid_align_iff: "jfs_mlg_valid_align a \<longleftrightarrow> (\<exists>k < 64. a = 2 ^ k)"
  using pow2_word_iff [of a] by (simp add: jfs_mlg_valid_align_def)

lemma valid_alignE:
  assumes "jfs_mlg_valid_align a"
  obtains k where "k < 64" "a = 2 ^ k" "unat a = 2 ^ k"
  using assms unat_pow2 [where 'a = 64] by (auto simp: valid_align_iff)

definition round_up :: "nat \<Rightarrow> nat \<Rightarrow> nat" where
  "round_up s a = (s + a - 1) div a * a"

lemma round_up_ge: "0 < a \<Longrightarrow> s \<le> round_up s a"
proof -
  assume a: "0 < a"
  have "s + a - 1 < (s + a - 1) div a * a + a" using a
    by (metis add.commute dividend_less_times_div mult.commute)
  then show ?thesis unfolding round_up_def using a by linarith
qed

lemma round_up_less: "0 < a \<Longrightarrow> round_up s a < s + a"
proof -
  assume a: "0 < a"
  have "(s + a - 1) div a * a \<le> s + a - 1" by simp
  then show ?thesis unfolding round_up_def using a by linarith
qed

lemma round_up_dvd: "a dvd round_up s a"
  by (simp add: round_up_def)

lemma round_up_least: "0 < a \<Longrightarrow> a dvd m \<Longrightarrow> s \<le> m \<Longrightarrow> round_up s a \<le> m"
proof -
  assume a: "0 < a" and "a dvd m" and s: "s \<le> m"
  then obtain q where m: "m = q * a" by (metis dvd_def mult.commute)
  have "s + a - 1 < (q + 1) * a" using a s m by simp
  then have "(s + a - 1) div a < q + 1" by (simp add: less_mult_imp_div_less)
  then show ?thesis unfolding round_up_def m by simp
qed

lemma align_size_unat:
  assumes "jfs_mlg_valid_align a" and "s > 0"
  shows "\<exists>r. jfs_mlg_align_size s a = Some r \<and> unat r = round_up (unat s) (unat a) mod 2 ^ 64"
proof -
  from assms(1) obtain k where k: "k < 64" "a = 2 ^ k" by (elim valid_alignE)
  then show ?thesis
    using assms unat_round_up [of k a s]
    by (simp add: jfs_mlg_align_size_def round_up_def)
qed


section \<open>Appending one description\<close>

text \<open>
  The same computation on unbounded naturals: where the next region starts, how many bytes
  a description covers, and where the layout ends.
\<close>

definition desc_bytes :: "jfs_mlg_desc \<Rightarrow> nat" where
  "desc_bytes d = unat (desc_size d) * unat (desc_count d)"

definition append_end :: "nat \<Rightarrow> jfs_mlg_desc \<Rightarrow> nat" where
  "append_end e d = round_up e (unat (desc_align d)) + desc_bytes d"

definition layout_end :: "nat \<Rightarrow> jfs_mlg_desc list \<Rightarrow> nat" where
  "layout_end = foldl append_end"

lemma layout_end_simps [simp]:
  "layout_end e [] = e"
  "layout_end e (d # ds) = layout_end (append_end e d) ds"
  by (simp_all add: layout_end_def)

lemma valid_descD:
  assumes "jfs_mlg_valid_desc d"
  shows "jfs_mlg_valid_align (desc_align d)" "desc_size d > 0" "desc_count d > 0"
    "0 < unat (desc_align d)" "0 < desc_bytes d"
  using assms by (auto simp: jfs_mlg_valid_desc_def desc_bytes_def jfs_mlg_valid_align_def
      word_greater_zero_iff unat_gt_0)

lemma append_end_ge: "jfs_mlg_valid_desc d \<Longrightarrow> e + desc_bytes d \<le> append_end e d"
  using round_up_ge valid_descD(4) by (simp add: append_end_def)

lemma layout_end_ge: "\<forall>d \<in> set ds. jfs_mlg_valid_desc d \<Longrightarrow> e \<le> layout_end e ds"
proof (induction ds arbitrary: e)
  case (Cons d ds)
  have "e \<le> append_end e d" using append_end_ge [of d e] Cons.prems by simp
  also have "\<dots> \<le> layout_end (append_end e d) ds" using Cons by simp
  finally show ?case by simp
qed simp

lemma valid_align_dvd:
  assumes "jfs_mlg_valid_align a" and "jfs_mlg_valid_align b" and "a \<le> b"
  shows "unat a dvd unat b"
proof -
  obtain i j where ij: "unat a = 2 ^ i" "unat b = 2 ^ j"
    using assms(1,2) by (metis valid_alignE)
  have "(2::nat) ^ i \<le> 2 ^ j" using assms(3) ij by (simp add: word_le_nat_alt)
  then have "i \<le> j" by simp
  then show ?thesis using ij by (simp add: le_imp_power_dvd)
qed

lemma append_ok:
  assumes base: "jfs_mlg_valid_desc base" and d: "jfs_mlg_valid_desc d"
    and fits: "append_end (unat (desc_size base)) d < 2 ^ 64"
  obtains off base' where "jfs_mlg_append base d = Some (off, base')"
    and "unat off = round_up (unat (desc_size base)) (unat (desc_align d))"
    and "unat (desc_size base') = append_end (unat (desc_size base)) d"
    and "desc_align base' = max (desc_align base) (desc_align d)"
    and "jfs_mlg_valid_desc base'"
proof -
  note vd = valid_descD [OF d] and vb = valid_descD [OF base]
  let ?e = "unat (desc_size base)"
  from align_size_unat [OF vd(1) vb(2)] obtain r where
    r: "jfs_mlg_align_size (desc_size base) (desc_align d) = Some r"
    and ur: "unat r = round_up ?e (unat (desc_align d)) mod 2 ^ 64" by blast
  have small: "round_up ?e (unat (desc_align d)) < 2 ^ 64" "desc_bytes d < 2 ^ 64"
    using fits by (simp_all add: append_end_def)
  then have ur': "unat r = round_up ?e (unat (desc_align d))" using ur by simp
  have "unat (desc_size d * desc_count d) = desc_bytes d"
    using small by (simp add: unat_word_ariths desc_bytes_def)
  then have us: "unat (r + desc_size d * desc_count d) = append_end ?e d"
    using fits ur' by (simp add: unat_word_ariths append_end_def)
  let ?b = "base\<lparr>desc_size := r + desc_size d * desc_count d,
                desc_align := max (desc_align base) (desc_align d)\<rparr>"
  have "0 < append_end ?e d" using append_end_ge [OF d, of ?e] vd(5) by linarith
  then have pos: "r + desc_size d * desc_count d > 0" using us by (simp add: word_less_nat_alt)
  show thesis
  proof (rule that [of r ?b])
    show "jfs_mlg_append base d = Some (r, ?b)"
      using base d r by (auto simp: jfs_mlg_append_def Let_def max_def)
    show "jfs_mlg_valid_desc ?b"
      using pos vb vd by (auto simp: jfs_mlg_valid_desc_def max_def)
  qed (use ur' us in simp_all)
qed

section \<open>The placement of a whole layout\<close>

text \<open>
  \<open>placed lo ds ps hi\<close>: the regions of the descriptions \<open>ds\<close> at the addresses \<open>ps\<close> lie in
  this order between \<open>lo\<close> and \<open>hi\<close> without overlap, each at a multiple of its alignment.
\<close>

fun placed :: "nat \<Rightarrow> jfs_mlg_desc list \<Rightarrow> addr list \<Rightarrow> nat \<Rightarrow> bool" where
  "placed lo [] [] hi \<longleftrightarrow> lo \<le> hi"
| "placed lo (d # ds) (p # ps) hi \<longleftrightarrow>
     lo \<le> unat p \<and> unat (desc_align d) dvd unat p \<and> placed (unat p + desc_bytes d) ds ps hi"
| "placed lo _ _ hi \<longleftrightarrow> False"

lemma placed_length: "placed lo ds ps hi \<Longrightarrow> length ps = length ds"
  by (induction lo ds ps hi rule: placed.induct) auto

lemma placed_le: "placed lo ds ps hi \<Longrightarrow> lo \<le> hi"
  by (induction lo ds ps hi rule: placed.induct) auto

lemma placed_bounds:
  "placed lo ds ps hi \<Longrightarrow> i < length ds \<Longrightarrow>
     lo \<le> unat (ps ! i) \<and> unat (ps ! i) + desc_bytes (ds ! i) \<le> hi
     \<and> unat (desc_align (ds ! i)) dvd unat (ps ! i)"
proof (induction lo ds ps hi arbitrary: i rule: placed.induct)
  case (2 lo d ds p ps hi)
  then show ?case using placed_le by (cases i) fastforce+
qed auto

lemma placed_disjoint:
  "placed lo ds ps hi \<Longrightarrow> i < j \<Longrightarrow> j < length ds \<Longrightarrow>
     unat (ps ! i) + desc_bytes (ds ! i) \<le> unat (ps ! j)"
proof (induction lo ds ps hi arbitrary: i j rule: placed.induct)
  case (2 lo d ds p ps hi)
  then obtain j' where j: "j = Suc j'" by (cases j) auto
  show ?case
  proof (cases i)
    case 0
    then show ?thesis
      using 2 j placed_bounds [of "unat p + desc_bytes d" ds ps hi j'] by simp
  next
    case (Suc i')
    then show ?thesis using 2 j by simp
  qed
qed auto

fun layout_align :: "size_t \<Rightarrow> jfs_mlg_desc list \<Rightarrow> size_t" where
  "layout_align a [] = a"
| "layout_align a (d # ds) = layout_align (max a (desc_align d)) ds"

lemma offsets_ok:
  assumes "jfs_mlg_valid_desc base" and "\<forall>d \<in> set ds. jfs_mlg_valid_desc d"
    and "layout_end (unat (desc_size base)) ds < 2 ^ 64"
  shows "\<exists>offs md. mlg_component_offsets ds base = Some (Inr (offs, md))
     \<and> placed (unat (desc_size base)) ds offs (unat (desc_size md))
     \<and> unat (desc_size md) = layout_end (unat (desc_size base)) ds
     \<and> jfs_mlg_valid_desc md \<and> desc_align md = layout_align (desc_align base) ds
     \<and> (\<forall>d \<in> set (base # ds). desc_align d \<le> desc_align md)"
  using assms
proof (induction ds arbitrary: base)
  case Nil
  then show ?case by auto
next
  case (Cons d ds)
  let ?e = "unat (desc_size base)"
  have d: "jfs_mlg_valid_desc d" and ds: "\<forall>d \<in> set ds. jfs_mlg_valid_desc d"
    using Cons.prems(2) by auto
  have fits: "append_end ?e d < 2 ^ 64"
    using layout_end_ge [OF ds, of "append_end ?e d"] Cons.prems(3) by simp
  obtain off base' where a: "jfs_mlg_append base d = Some (off, base')"
    and off: "unat off = round_up ?e (unat (desc_align d))"
    and sz: "unat (desc_size base') = append_end ?e d"
    and al: "desc_align base' = max (desc_align base) (desc_align d)"
    and v: "jfs_mlg_valid_desc base'"
    by (rule append_ok [OF Cons.prems(1) d fits])
  from Cons.IH [OF v ds] Cons.prems(3) sz obtain offs md where
    IH: "mlg_component_offsets ds base' = Some (Inr (offs, md))"
      "placed (append_end ?e d) ds offs (unat (desc_size md))"
      "unat (desc_size md) = layout_end (append_end ?e d) ds"
      "jfs_mlg_valid_desc md" "desc_align md = layout_align (desc_align base') ds"
      "\<forall>d \<in> set (base' # ds). desc_align d \<le> desc_align md"
    by auto
  have "placed ?e (d # ds) (off # offs) (unat (desc_size md))"
    using IH(2) round_up_ge [OF valid_descD(4) [OF d]] round_up_dvd off
    by (simp add: append_end_def)
  then show ?case using d a IH al by (auto intro!: exI [of _ "off # offs"] exI [of _ md])
qed

lemma fill_components_ok:
  "\<forall>off \<in> set offs. off > 0 \<Longrightarrow> length offs = length ds \<Longrightarrow>
     \<exists>cs. mlg_fill_components p ds offs = Some cs
        \<and> map comp_ptr cs = map ((+) p) offs \<and> map comp_desc cs = ds"
proof (induction p ds offs rule: mlg_fill_components.induct)
  case (1 p d ds off offs)
  then show ?case by (auto simp: jfs_mlg_apply_offset_def)
qed (auto split: list.splits)

text \<open>Moving a placement of offsets to an aligned base address.\<close>

lemma placed_shift:
  assumes "placed lo ds offs hi" and "unat p + hi \<le> 2 ^ 64"
    and "\<forall>d \<in> set ds. unat (desc_align d) dvd unat p \<and> 0 < desc_bytes d"
  shows "placed (unat p + lo) ds (map ((+) p) offs) (unat p + hi)"
  using assms
proof (induction lo ds offs hi rule: placed.induct)
  case (2 lo d ds off offs hi)
  have "unat off + desc_bytes d \<le> hi" using 2 placed_le by fastforce
  then have "unat p + unat off < 2 ^ 64" using "2.prems"(2,3) by fastforce
  then have "unat (p + off) = unat p + unat off" by (simp add: unat_word_ariths)
  then show ?case using 2 by (simp add: ac_simps)
qed auto


section \<open>Properties of the layout generator\<close>

text \<open>The test \<open>align && ((align - 1) & align) == 0\<close> accepts exactly the 64 powers of two
  that a \<open>size_t\<close> can hold.\<close>

theorem mlg_valid_align_pow2: "jfs_mlg_valid_align a \<longleftrightarrow> (\<exists>k < 64. unat a = 2 ^ k)"
proof
  assume "jfs_mlg_valid_align a"
  then show "\<exists>k < 64. unat a = 2 ^ k" by (metis valid_alignE)
next
  assume "\<exists>k < 64. unat a = 2 ^ k"
  then obtain k where "k < 64" "unat a = unat (2 ^ k :: size_t)" by (auto simp: unat_pow2)
  then show "jfs_mlg_valid_align a" by (auto simp: valid_align_iff dest: word_unat_eq_iff [THEN iffD2])
qed

text \<open>C38. \<open>jfs_mlg_align_size\<close> rounds up: when a multiple of the alignment that is at least
  the size still fits a \<open>size_t\<close>, the result is the least such multiple; when none fits, the
  addition wraps and the result is 0.\<close>

theorem mlg_align_size_rounds:
  assumes "jfs_mlg_valid_align a" and "s > 0"
  shows "\<exists>r. jfs_mlg_align_size s a = Some r \<and> unat a dvd unat r \<and>
    (if \<exists>m < 2 ^ 64. unat a dvd m \<and> unat s \<le> m
     then unat s \<le> unat r \<and> (\<forall>m. unat a dvd m \<and> unat s \<le> m \<longrightarrow> unat r \<le> m)
     else r = 0)"
proof -
  from assms(1) obtain k where k: "k < 64" "unat a = 2 ^ k" by (elim valid_alignE)
  then have a0: "0 < unat a" and adv: "unat a dvd 2 ^ 64"
    using le_imp_power_dvd [of k 64 "2::nat"] by simp_all
  obtain r where r: "jfs_mlg_align_size s a = Some r"
    "unat r = round_up (unat s) (unat a) mod 2 ^ 64"
    using align_size_unat [OF assms] by blast
  let ?u = "round_up (unat s) (unat a)"
  have dv: "unat a dvd unat r" unfolding r(2) using adv round_up_dvd by (simp add: dvd_mod)
  have le: "?u \<le> 2 ^ 64" using round_up_least [OF a0 adv] unat64_less [of s] less_imp_le by blast
  show ?thesis
  proof (cases "?u < 2 ^ 64")
    case True
    then have "\<exists>m < 2 ^ 64. unat a dvd m \<and> unat s \<le> m"
      using round_up_dvd round_up_ge [OF a0] by blast
    moreover have "unat r = ?u" using True r(2) by simp
    ultimately show ?thesis
      using r(1) dv round_up_least [OF a0] round_up_ge [OF a0] by auto
  next
    case False
    then have "?u = 2 ^ 64" using le by simp
    then have "r = 0" using r(2) by (simp add: unat_eq_0)
    moreover have "\<not> (\<exists>m < 2 ^ 64. unat a dvd m \<and> unat s \<le> m)"
      using False round_up_least [OF a0] by (meson order_le_less_trans)
    ultimately show ?thesis using r(1) dv by (simp only: if_False simp_thms) blast
  qed
qed

theorem mlg_align_size_rounds_witness:
  "\<exists>r. jfs_mlg_align_size 24 16 = Some r \<and> 24 \<le> unat r"
proof -
  have a: "jfs_mlg_valid_align 16" by (simp add: jfs_mlg_valid_align_def)
  have "(32::nat) < 2 ^ 64 \<and> unat (16::size_t) dvd 32 \<and> unat (24::size_t) \<le> 32" by simp
  then have "\<exists>m < (2::nat) ^ 64. unat (16::size_t) dvd m \<and> unat (24::size_t) \<le> m" by blast
  moreover have "(24::size_t) > 0" by simp
  ultimately show ?thesis using mlg_align_size_rounds [OF a, of 24] by auto
qed

text \<open>
  The whole initialisation. \<open>layout_end 24 \<dots> < 2 ^ 64\<close> says that the sizes do not overflow;
  the allocator hypotheses are what \<open>malloc\<close> and \<open>posix_memalign\<close> promise when they succeed, for the one
  alignment (\<open>layout_align 8 \<dots>\<close>, the largest one of the regions and at least that of \<open>jfs_mlg_memory_t\<close>) and the one
  size that are asked for.
\<close>

lemma memory_init_ok:
  assumes hd_ok: "jfs_mlg_valid_desc (header_desc lay)"
    and ne: "descriptions lay \<noteq> []"
    and ds_ok: "\<forall>d \<in> set (descriptions lay). jfs_mlg_valid_desc d"
    and len: "length (descriptions lay) < 2 ^ 64"
    and regs: "regs = component_list_desc lay # header_desc lay # descriptions lay"
    and fits: "layout_end 24 regs < 2 ^ 64"
    and mem: "memalign (layout_align 8 regs) (of_nat (layout_end 24 regs)) = SysOk p"
      "unat (layout_align 8 regs) dvd unat p" "unat p + layout_end 24 regs \<le> 2 ^ 64"
  obtains m where
    "jfs_mlg_memory_init (Some q) memalign lay JFS_OK = Some (Some m, JFS_OK)"
    "placed (unat p + 24) regs
       (mem_component_list_ptr m # mem_header m # map comp_ptr (mem_component_list m))
       (unat p + layout_end 24 regs)"
    "map comp_desc (mem_component_list m) = descriptions lay"
proof -
  let ?cl = "component_list_desc lay"
  have v0: "jfs_mlg_valid_desc memory_desc0" and s0: "unat (desc_size memory_desc0) = 24"
    by (simp_all add: memory_desc0_def jfs_mlg_valid_desc_def jfs_mlg_valid_align_def)
  have vcl: "jfs_mlg_valid_desc ?cl"
    using ne len by (simp add: component_list_desc_def jfs_mlg_valid_desc_def
        jfs_mlg_valid_align_def word_less_nat_alt unat_of_nat)
  have vall: "\<forall>d \<in> set regs. jfs_mlg_valid_desc d" using vcl hd_ok ds_ok regs by auto
  from offsets_ok [OF v0 vall] fits s0 obtain offs md where
    o: "mlg_component_offsets regs memory_desc0 = Some (Inr (offs, md))"
       "placed 24 regs offs (unat (desc_size md))"
       "unat (desc_size md) = layout_end 24 regs" "jfs_mlg_valid_desc md"
       "\<forall>d \<in> set regs. desc_align d \<le> desc_align md" "desc_align md = layout_align 8 regs"
    by (auto simp: memory_desc0_def)
  from o(1) regs vcl hd_ok obtain o1 d1 o2 d2 os where
    a1: "jfs_mlg_append memory_desc0 ?cl = Some (o1, d1)"
    and a2: "jfs_mlg_append d1 (header_desc lay) = Some (o2, d2)"
    and a3: "mlg_component_offsets (descriptions lay) d2 = Some (Inr (os, md))"
    and offs: "offs = o1 # o2 # os"
    by (auto split: option.splits sum.splits bind_splits)
  have "desc_size md = of_nat (layout_end 24 regs)" using o(3) by (metis unsigned_of_nat unat_of_nat word_of_nat_eq_iff of_nat_unat ucast_id)
  then have p: "memalign (desc_align md) (desc_size md) = SysOk p"
    "unat (desc_align md) dvd unat p" "unat p + layout_end 24 regs \<le> 2 ^ 64"
    using mem o(6) by simp_all
  have dvds: "\<forall>d \<in> set regs. unat (desc_align d) dvd unat p \<and> 0 < desc_bytes d"
    using vall o(4,5) p(2) valid_align_dvd valid_descD(1,5) by (meson dvd_trans)
  have pl: "placed (unat p + 24) regs (map ((+) p) offs) (unat p + layout_end 24 regs)"
    using placed_shift [OF o(2) _ dvds] p(3) o(3) by simp
  have pos: "\<forall>off \<in> set offs. off > 0"
  proof
    fix off assume "off \<in> set offs"
    then obtain i where "i < length regs" "off = offs ! i"
      using placed_length [OF o(2)] by (metis in_set_conv_nth)
    then have "24 \<le> unat off" using placed_bounds [OF o(2)] by blast
    then show "off > 0" by (simp add: word_less_nat_alt)
  qed
  from fill_components_ok [of os "descriptions lay" p] pos offs placed_length [OF o(2)] regs
  obtain cs where cs: "mlg_fill_components p (descriptions lay) os = Some cs"
    "map comp_ptr cs = map ((+) p) os" "map comp_desc cs = descriptions lay"
    by auto
  let ?m = "\<lparr>mem_component_list_ptr = p + o1, mem_component_list = cs,
     mem_component_count = of_nat (length (descriptions lay)), mem_header = p + o2\<rparr>"
  have "jfs_mlg_memory_init (Some q) memalign lay JFS_OK = Some (Some ?m, JFS_OK)"
    using hd_ok a1 a2 a3 p(1) pos offs cs
    by (simp add: jfs_mlg_memory_init_def jfs_malloc_def jfs_aligned_alloc_def
        jfs_mlg_apply_offset_def)
  then show thesis using that [of ?m] pl offs cs by auto
qed


text \<open>C6. For a non-empty list of valid descriptions whose sizes do not overflow, when \<open>malloc\<close> succeeds and \<open>posix_memalign\<close>
  answers the one request made of it with an aligned block \<open>p\<close> of that size, \<open>jfs_mlg_memory_init\<close> succeeds
  and the component list, the header and every component array lie inside the allocated
  block, behind the \<open>jfs_mlg_memory_t\<close> at its start, at multiples of their alignments, and
  pairwise disjoint; the component list repeats the descriptions in order.\<close>

theorem mlg_memory_init_layout:
  assumes hd_ok: "jfs_mlg_valid_desc (header_desc lay)"
    and ne: "descriptions lay \<noteq> []"
    and ds_ok: "\<forall>d \<in> set (descriptions lay). jfs_mlg_valid_desc d"
    and len: "length (descriptions lay) < 2 ^ 64"
    and regs: "regs = component_list_desc lay # header_desc lay # descriptions lay"
    and fits: "layout_end 24 regs < 2 ^ 64"
    and mem: "memalign (layout_align 8 regs) (of_nat (layout_end 24 regs)) = SysOk p"
      "unat (layout_align 8 regs) dvd unat p" "unat p + layout_end 24 regs \<le> 2 ^ 64"
  shows "\<exists>m ptrs. jfs_mlg_memory_init (Some q) memalign lay JFS_OK = Some (Some m, JFS_OK)
    \<and> map comp_desc (mem_component_list m) = descriptions lay
    \<and> ptrs = mem_component_list_ptr m # mem_header m # map comp_ptr (mem_component_list m)
    \<and> length ptrs = length regs
    \<and> (\<forall>i < length regs. unat (desc_align (regs ! i)) dvd unat (ptrs ! i)
          \<and> unat p + 24 \<le> unat (ptrs ! i)
          \<and> unat (ptrs ! i) + desc_bytes (regs ! i) \<le> unat p + layout_end 24 regs)
    \<and> (\<forall>i j. i < j \<and> j < length regs \<longrightarrow>
          unat (ptrs ! i) + desc_bytes (regs ! i) \<le> unat (ptrs ! j))"
proof -
  obtain m where
    m: "jfs_mlg_memory_init (Some q) memalign lay JFS_OK = Some (Some m, JFS_OK)"
    and pl: "placed (unat p + 24) regs
       (mem_component_list_ptr m # mem_header m # map comp_ptr (mem_component_list m))
       (unat p + layout_end 24 regs)"
    and cd: "map comp_desc (mem_component_list m) = descriptions lay"
    by (rule memory_init_ok [of lay regs memalign p q, OF assms])
  show ?thesis
    using m cd placed_length [OF pl] placed_bounds [OF pl] placed_disjoint [OF pl] by blast
qed

theorem mlg_memory_init_layout_witness:
  "\<exists>m. jfs_mlg_memory_init (Some 64) (\<lambda>a s. if a = 64 \<and> s = 320 then SysOk 8192 else SysErr (E_OTHER 12))
         \<lparr>descriptions = [\<lparr>desc_size = 12, desc_align = 4, desc_count = 3\<rparr>,
                          \<lparr>desc_size = 64, desc_align = 64, desc_count = 2\<rparr>],
          header_desc = \<lparr>desc_size = 5, desc_align = 1, desc_count = 1\<rparr>\<rparr> JFS_OK
       = Some (Some m, JFS_OK) \<and> length (mem_component_list m) = 2"
proof -
  let ?lay = "\<lparr>descriptions = [\<lparr>desc_size = 12, desc_align = 4, desc_count = 3\<rparr>,
                          \<lparr>desc_size = 64, desc_align = 64, desc_count = 2\<rparr>],
          header_desc = \<lparr>desc_size = 5, desc_align = 1, desc_count = 1\<rparr>\<rparr> :: jfs_mlg_layout"
  let ?regs = "component_list_desc ?lay # header_desc ?lay # descriptions ?lay"
  have e: "layout_end 24 ?regs = 320"
    by (simp add: component_list_desc_def append_end_def round_up_def desc_bytes_def)
  have 1: "jfs_mlg_valid_desc (header_desc ?lay)" "descriptions ?lay \<noteq> []"
    "\<forall>d \<in> set (descriptions ?lay). jfs_mlg_valid_desc d"
    "length (descriptions ?lay) < 2 ^ 64"
    by (simp_all add: jfs_mlg_valid_desc_def jfs_mlg_valid_align_def)
  have 3: "layout_end 24 ?regs < 2 ^ 64" unfolding e by simp
  let ?mem = "\<lambda>a s. if a = 64 \<and> s = 320 then SysOk 8192 else SysErr (E_OTHER 12)"
  have 2: "layout_align 8 ?regs = 64" by (simp add: component_list_desc_def max_def)
  have 4: "?mem (layout_align 8 ?regs) (of_nat (layout_end 24 ?regs)) = SysOk (8192::addr)"
    "unat (layout_align 8 ?regs) dvd unat (8192::addr)" "unat (8192::addr) + layout_end 24 ?regs \<le> 2 ^ 64"
    unfolding e 2 by simp_all
  obtain m where m: "jfs_mlg_memory_init (Some 64) ?mem ?lay JFS_OK = Some (Some m, JFS_OK)"
      "map comp_desc (mem_component_list m) = descriptions ?lay"
    using mlg_memory_init_layout [where memalign = ?mem and q = "64::addr", OF 1(1-4) refl 3 4] by blast
  have "length (mem_component_list m) = 2" using arg_cong [OF m(2), of length] by simp
  with m(1) show ?thesis by blast
qed

lemma component_offsets_err:
  "mlg_component_offsets ds md = Some (Inl e) \<Longrightarrow> e = JFS_ERR_BAD_CONF"
  by (induction ds arbitrary: md)
    (auto split: if_splits bind_splits sum.splits prod.splits)

text \<open>Whenever \<open>jfs_mlg_memory_init\<close> returns, it returns a memory exactly when \<open>err\<close> is
  still \<open>JFS_OK\<close>; an invalid header is \<open>JFS_ERR_BAD_CONF\<close>, and a valid one with an empty
  description list runs into the assertion of \<open>jfs_mlg_append\<close>.\<close>

theorem mlg_memory_init_errors:
  "(jfs_mlg_memory_init mr ma lay JFS_OK = Some (r, e) \<longrightarrow> (r = None \<longleftrightarrow> e \<noteq> JFS_OK))
   \<and> (\<not> jfs_mlg_valid_desc (header_desc lay) \<longrightarrow>
        jfs_mlg_memory_init mr ma lay JFS_OK = Some (None, JFS_ERR_BAD_CONF))
   \<and> (jfs_mlg_valid_desc (header_desc lay) \<and> descriptions lay = [] \<longrightarrow>
        jfs_mlg_memory_init mr ma lay JFS_OK = None)"
proof (intro conjI impI)
  assume "jfs_mlg_memory_init mr ma lay JFS_OK = Some (r, e)"
  then show "r = None \<longleftrightarrow> e \<noteq> JFS_OK"
    by (auto simp: jfs_mlg_memory_init_def split: if_splits bind_splits prod.splits sum.splits
        dest!: component_offsets_err)
next
  assume "jfs_mlg_valid_desc (header_desc lay) \<and> descriptions lay = []"
  then show "jfs_mlg_memory_init mr ma lay JFS_OK = None"
    by (simp add: jfs_mlg_memory_init_def jfs_mlg_append_def component_list_desc_def
        jfs_mlg_valid_desc_def)
qed (simp add: jfs_mlg_memory_init_def)

theorem mlg_memory_init_errors_witness:
  "jfs_mlg_memory_init None (\<lambda>a s. SysErr EAGAIN)
     \<lparr>descriptions = [], header_desc = \<lparr>desc_size = 5, desc_align = 3, desc_count = 1\<rparr>\<rparr> JFS_OK
   = Some (None, JFS_ERR_BAD_CONF)"
proof -
  have "\<not> jfs_mlg_valid_desc \<lparr>desc_size = 5, desc_align = 3, desc_count = 1\<rparr>"
    by (simp add: jfs_mlg_valid_desc_def jfs_mlg_valid_align_def)
  then show ?thesis using mlg_memory_init_errors
      [of None "\<lambda>a s. SysErr EAGAIN"
        "\<lparr>descriptions = [], header_desc = \<lparr>desc_size = 5, desc_align = 3, desc_count = 1\<rparr>\<rparr>"]
    by simp
qed

end
