(* ===== verification/Jfs_Memory_Block.thy ===== *)
theory Jfs_Memory_Block
  imports Jfs_Layout
begin

text \<open>
  Byte-addressed memory and the memory block module (\<open>src/src/modules/memory_block.c\<close>,
  \<open>src/src/include/memory_block.h\<close>): an array of equally sized slots. Memory is a function
  from 64-bit addresses to bytes; \<open>memcpy\<close> and \<open>memmove\<close> read a list of bytes and write it
  back, with all address arithmetic modulo \<open>2 ^ 64\<close>. The section on slots shows that a
  block is the list of its slots and that the operations are the list operations.
\<close>

type_synonym mem = "addr \<Rightarrow> byte"

section \<open>Reading, writing and moving bytes\<close>

definition read_bytes :: "mem \<Rightarrow> addr \<Rightarrow> nat \<Rightarrow> byte list" where
  "read_bytes m p n = map (\<lambda>i. m (p + of_nat i)) [0..<n]"

definition write_bytes :: "mem \<Rightarrow> addr \<Rightarrow> byte list \<Rightarrow> mem" where
  "write_bytes m p bs = (\<lambda>a. if unat (a - p) < length bs then bs ! unat (a - p) else m a)"

definition memmove :: "mem \<Rightarrow> addr \<Rightarrow> addr \<Rightarrow> nat \<Rightarrow> mem" where
  "memmove m dst src n = write_bytes m dst (read_bytes m src n)"

section \<open>Data and operations\<close>

record jfs_mb =
  mb_base_ptr :: addr
  mb_obj_size :: size_t
  mb_capacity :: size_t

definition jfs_mb_init :: "jfs_mb \<Rightarrow> jfs_mlg_component \<Rightarrow> jfs_err_t \<Rightarrow> jfs_mb \<times> jfs_err_t" where
  "jfs_mb_init mb component err =
     (if \<not> jfs_mlg_valid_component component then (mb, JFS_ERR_BAD_CONF)
      else (mb\<lparr>mb_base_ptr := comp_ptr component,
               mb_obj_size := desc_size (comp_desc component),
               mb_capacity := desc_count (comp_desc component)\<rparr>, err))"

definition jfs_mb_index :: "jfs_mb \<Rightarrow> size_t \<Rightarrow> addr" where
  "jfs_mb_index mb index = mb_base_ptr mb + index * mb_obj_size mb"

definition jfs_mb_write :: "jfs_mb \<Rightarrow> byte list \<Rightarrow> size_t \<Rightarrow> mem \<Rightarrow> mem" where
  "jfs_mb_write mb obj index m =
     write_bytes m (jfs_mb_index mb index) (take (unat (mb_obj_size mb)) obj)"

definition jfs_mb_read :: "jfs_mb \<Rightarrow> size_t \<Rightarrow> mem \<Rightarrow> byte list" where
  "jfs_mb_read mb index m = read_bytes m (jfs_mb_index mb index) (unat (mb_obj_size mb))"

definition jfs_mb_remap :: "jfs_mb \<Rightarrow> size_t \<Rightarrow> size_t \<Rightarrow> size_t \<Rightarrow> mem \<Rightarrow> mem" where
  "jfs_mb_remap mb dest_index src_index obj_count m =
     memmove m (jfs_mb_index mb dest_index) (jfs_mb_index mb src_index)
       (unat (mb_obj_size mb * obj_count))"

section \<open>Bytes at offsets from a base\<close>

lemma length_read_bytes [simp]: "length (read_bytes m p n) = n"
  by (simp add: read_bytes_def)

lemma nth_read_bytes [simp]: "i < n \<Longrightarrow> read_bytes m p n ! i = m (p + of_nat i)"
  by (simp add: read_bytes_def)

lemma unat_diff_of_nat:
  assumes "x < 2 ^ 64" and "y < 2 ^ 64"
  shows "unat (of_nat x - of_nat y :: 64 word) = (if y \<le> x then x - y else 2 ^ 64 + x - y)"
proof (cases "y \<le> x")
  case True
  then have e: "(of_nat x - of_nat y :: 64 word) = of_nat (x - y)" by simp
  have "x - y < 2 ^ 64" using assms by simp
  then have "unat (of_nat (x - y) :: 64 word) = x - y" by (rule unat_of_nat64)
  then show ?thesis unfolding e using True by (simp only: if_True)
next
  case False
  have "(of_nat (2 ^ 64 + x - y) :: 64 word) = of_nat (2 ^ 64) + of_nat x - of_nat y"
    using assms by (simp only: of_nat_diff of_nat_add trans_le_add1 less_imp_le)
  also have "\<dots> = of_nat x - of_nat y" by simp
  finally have e: "(of_nat x - of_nat y :: 64 word) = of_nat (2 ^ 64 + x - y)" by (rule sym)
  have "2 ^ 64 + x - y < 2 ^ 64" using False by simp
  then have "unat (of_nat (2 ^ 64 + x - y) :: 64 word) = 2 ^ 64 + x - y" by (rule unat_of_nat64)
  then show ?thesis unfolding e using False by (simp only: if_False)
qed

lemma write_bytes_at:
  assumes "x < 2 ^ 64" and "y + length bs \<le> 2 ^ 64"
  shows "write_bytes m (p + of_nat y) bs (p + of_nat x)
       = (if y \<le> x \<and> x < y + length bs then bs ! (x - y) else m (p + of_nat x))"
proof (cases "y < 2 ^ 64")
  case True
  have "p + of_nat x - (p + of_nat y) = of_nat x - (of_nat y :: 64 word)" by simp
  then show ?thesis
    unfolding write_bytes_def using unat_diff_of_nat [OF assms(1) True] assms by auto
next
  case False
  then have "length bs = 0" using assms(2) by linarith
  then show ?thesis by (auto simp: write_bytes_def)
qed

section \<open>A block as the list of its slots\<close>

definition mb_ok :: "jfs_mb \<Rightarrow> bool" where
  "mb_ok mb \<longleftrightarrow> unat (mb_capacity mb) * unat (mb_obj_size mb) \<le> 2 ^ 64 \<and> mb_obj_size mb \<noteq> 0"

definition slots :: "jfs_mb \<Rightarrow> mem \<Rightarrow> byte list list" where
  "slots mb m = map (\<lambda>i. jfs_mb_read mb (of_nat i) m) [0..<unat (mb_capacity mb)]"

abbreviation cap :: "jfs_mb \<Rightarrow> nat" where
  "cap mb \<equiv> unat (mb_capacity mb)"

abbreviation osz :: "jfs_mb \<Rightarrow> nat" where
  "osz mb \<equiv> unat (mb_obj_size mb)"

lemma length_slots [simp]: "length (slots mb m) = cap mb"
  by (simp add: slots_def)

lemma slots_nth: "i < cap mb \<Longrightarrow> slots mb m ! i = jfs_mb_read mb (of_nat i) m"
  by (simp add: slots_def)

lemma length_mb_read [simp]: "length (jfs_mb_read mb i m) = osz mb"
  by (simp add: jfs_mb_read_def)

lemma slot_length: "s \<in> set (slots mb m) \<Longrightarrow> length s = osz mb"
  by (auto simp: slots_def)

lemma mb_index_of_nat: "jfs_mb_index mb (of_nat i) = mb_base_ptr mb + of_nat (i * osz mb)"
  by (simp add: jfs_mb_index_def)

lemma slot_byte: "j < osz mb \<Longrightarrow>
   jfs_mb_read mb (of_nat i) m ! j = m (mb_base_ptr mb + of_nat (i * osz mb + j))"
  by (simp add: jfs_mb_read_def mb_index_of_nat add.assoc)

lemma slot_offset:
  assumes "i < n" and "j < s"
  shows "i * s + j < n * (s::nat)"
proof -
  have "i * s + j < i * s + s" using assms(2) by simp
  also have "\<dots> = Suc i * s" by simp
  also have "\<dots> \<le> n * s" using assms(1) by (intro mult_le_mono1) simp
  finally show ?thesis .
qed

text \<open>The general write: bytes placed at a slot boundary, \<open>n\<close> slots long.\<close>

lemma slots_write_bytes:
  assumes ok: "mb_ok mb" and d: "d + n \<le> cap mb" and len: "length bs = n * osz mb"
  shows "slots mb (write_bytes m (jfs_mb_index mb (of_nat d)) bs)
       = take d (slots mb m) @ map (\<lambda>k. take (osz mb) (drop (k * osz mb) bs)) [0..<n]
         @ drop (d + n) (slots mb m)" (is "slots mb ?m' = ?rhs")
proof (rule nth_equalityI)
  show "length (slots mb ?m') = length ?rhs" using d by simp
next
  fix i assume "i < length (slots mb ?m')"
  then have i: "i < cap mb" by simp
  let ?s = "osz mb"
  have byte: "slots mb ?m' ! i ! j
      = (if d \<le> i \<and> i < d + n then bs ! ((i - d) * ?s + j) else slots mb m ! i ! j)"
    if j: "j < ?s" for j
  proof -
    have x: "i * ?s + j < 2 ^ 64"
      using slot_offset [OF i j] ok by (simp add: mb_ok_def)
    have "(d + n) * ?s \<le> cap mb * ?s" using d by (intro mult_le_mono1)
    then have y: "d * ?s + length bs \<le> 2 ^ 64"
      using ok len by (simp add: mb_ok_def add_mult_distrib)
    have in_iff: "d * ?s \<le> i * ?s + j \<and> i * ?s + j < d * ?s + length bs \<longleftrightarrow> d \<le> i \<and> i < d + n"
    proof
      assume a: "d * ?s \<le> i * ?s + j \<and> i * ?s + j < d * ?s + length bs"
      have "d * ?s < Suc i * ?s" using a j by simp
      then have "d < Suc i" by (simp only: mult_less_cancel2)
      moreover have "i * ?s < (d + n) * ?s" using a len by (simp add: add_mult_distrib)
      then have "i < d + n" by (simp only: mult_less_cancel2)
      ultimately show "d \<le> i \<and> i < d + n" by simp
    next
      assume a: "d \<le> i \<and> i < d + n"
      then have "d * ?s \<le> i * ?s" by (intro mult_le_mono1) simp
      moreover have "i * ?s + j < (d + n) * ?s" using slot_offset [of i "d + n" j ?s] a j by simp
      ultimately show "d * ?s \<le> i * ?s + j \<and> i * ?s + j < d * ?s + length bs"
        unfolding len add_mult_distrib by linarith
    qed
    have "i * ?s + j - d * ?s = (i - d) * ?s + j" if "d \<le> i"
      using that by (simp add: diff_mult_distrib)
    then show ?thesis
      using i j in_iff write_bytes_at [OF x y, of m "mb_base_ptr mb"]
      by (simp add: slots_nth slot_byte mb_index_of_nat)
  qed
  have "length (slots mb ?m' ! i) = ?s" using i by (simp add: slots_nth)
  moreover have "?rhs ! i = (if d \<le> i \<and> i < d + n then take ?s (drop ((i - d) * ?s) bs)
      else slots mb m ! i)"
    using d i by (auto simp: nth_append min_def)
  moreover have "length (take ?s (drop ((i - d) * ?s) bs)) = ?s" if "d \<le> i" "i < d + n"
  proof -
    have "Suc (i - d) * ?s \<le> n * ?s" using that by (intro mult_le_mono1) simp
    then show ?thesis using len by simp
  qed
  ultimately show "slots mb ?m' ! i = ?rhs ! i"
    using i byte by (intro nth_equalityI) (auto simp: slots_nth)
qed

section \<open>Properties of memory blocks\<close>

lemma slots_write:
  assumes "mb_ok mb" and "i < cap mb" and "length obj = osz mb"
  shows "slots mb (jfs_mb_write mb obj (of_nat i) m) = (slots mb m)[i := obj]"
  using slots_write_bytes [of mb i 1 obj m] assms
  by (simp add: jfs_mb_write_def upd_conv_take_nth_drop)

lemma slots_read: "i < cap mb \<Longrightarrow> jfs_mb_read mb (of_nat i) m = slots mb m ! i"
  by (simp add: slots_nth)

lemma read_slots:
  assumes "s + n \<le> cap mb" and "k < n"
  shows "take (osz mb) (drop (k * osz mb) (read_bytes m (jfs_mb_index mb (of_nat s)) (n * osz mb)))
       = slots mb m ! (s + k)"
proof (rule nth_equalityI)
  have "Suc k * osz mb \<le> n * osz mb" using assms(2) by (intro mult_le_mono1) simp
  then show l: "length (take (osz mb) (drop (k * osz mb)
      (read_bytes m (jfs_mb_index mb (of_nat s)) (n * osz mb)))) = length (slots mb m ! (s + k))"
    using assms by (simp add: slots_nth)
  fix j assume "j < length (take (osz mb) (drop (k * osz mb)
      (read_bytes m (jfs_mb_index mb (of_nat s)) (n * osz mb))))"
  then have j: "j < osz mb" by simp
  then show "take (osz mb) (drop (k * osz mb)
      (read_bytes m (jfs_mb_index mb (of_nat s)) (n * osz mb))) ! j = slots mb m ! (s + k) ! j"
    using slot_offset [OF assms(2) j] assms
      slot_byte [of j mb "s + k" m] slots_nth [of "s + k" mb m]
    by (simp add: mb_index_of_nat add_mult_distrib ac_simps)
qed

lemma slots_remap:
  assumes ok: "mb_ok mb" and "d + n \<le> cap mb" and "s + n \<le> cap mb"
  shows "slots mb (jfs_mb_remap mb (of_nat d) (of_nat s) (of_nat n) m)
       = take d (slots mb m) @ take n (drop s (slots mb m)) @ drop (d + n) (slots mb m)"
proof (cases "n * osz mb = 2 ^ 64")
  have n: "n < 2 ^ 64" using assms(2) unat64_less [of "mb_capacity mb"] by linarith
  case True
  have "n * osz mb \<le> cap mb * osz mb" using assms(2) by (intro mult_le_mono1) simp
  then have "cap mb * osz mb = n * osz mb" using True ok by (simp add: mb_ok_def)
  then have "cap mb = n" using ok by (simp add: mb_ok_def unat_eq_0)
  then have "d = 0" "s = 0" using assms by auto
  have "unat (mb_obj_size mb * of_nat n) = 0"
    using True n by (simp add: unat_word_ariths unat_of_nat mult.commute)
  then have "jfs_mb_remap mb (of_nat d) (of_nat s) (of_nat n) m = m"
    by (simp add: jfs_mb_remap_def memmove_def write_bytes_def)
  then show ?thesis using \<open>d = 0\<close> \<open>s = 0\<close> by simp
next
  have n: "n < 2 ^ 64" using assms(2) unat64_less [of "mb_capacity mb"] by linarith
  case False
  have "n * osz mb \<le> cap mb * osz mb" using assms(2) by (intro mult_le_mono1) simp
  then have "n * osz mb < 2 ^ 64" using ok False unfolding mb_ok_def by linarith
  then have sz: "unat (mb_obj_size mb * of_nat n) = n * osz mb"
    using n by (simp add: unat_word_ariths unat_of_nat mult.commute)
  have "map (\<lambda>k. take (osz mb) (drop (k * osz mb)
      (read_bytes m (jfs_mb_index mb (of_nat s)) (n * osz mb)))) [0..<n]
      = take n (drop s (slots mb m))"
    using assms read_slots [OF assms(3)] by (intro nth_equalityI) auto
  then show ?thesis
    using slots_write_bytes [OF ok assms(2)] by (simp add: jfs_mb_remap_def memmove_def sz)
qed


text \<open>Writes inside the block leave every byte outside it alone.\<close>

definition in_block :: "jfs_mb \<Rightarrow> addr \<Rightarrow> bool" where
  "in_block mb a \<longleftrightarrow> unat (a - mb_base_ptr mb) < cap mb * osz mb"

lemma write_bytes_frame:
  assumes "d * osz mb + length bs \<le> cap mb * osz mb" and "mb_ok mb" and "\<not> in_block mb a"
  shows "write_bytes m (jfs_mb_index mb (of_nat d)) bs a = m a"
proof -
  let ?x = "unat (a - mb_base_ptr mb)"
  have a: "a = mb_base_ptr mb + of_nat ?x" by simp
  have "?x < 2 ^ 64" by (rule unat64_less)
  moreover have "d * osz mb + length bs \<le> 2 ^ 64" using assms(1,2) by (simp add: mb_ok_def)
  ultimately have "write_bytes m (jfs_mb_index mb (of_nat d)) bs (mb_base_ptr mb + of_nat ?x)
      = (if d * osz mb \<le> ?x \<and> ?x < d * osz mb + length bs then bs ! (?x - d * osz mb)
         else m (mb_base_ptr mb + of_nat ?x))"
    unfolding mb_index_of_nat by (rule write_bytes_at)
  moreover have "\<not> ?x < d * osz mb + length bs" using assms(1,3) by (simp add: in_block_def)
  ultimately show ?thesis using a by simp
qed

section \<open>The slot store interface\<close>

text \<open>
  What the LRU cache relies on: a well-formed block is a list of slots, \<open>rd\<close> and \<open>wr\<close> are
  indexing and update of that list, and \<open>mv d s n\<close> copies \<open>n\<close> slots from \<open>s\<close> to \<open>d\<close> as if
  through a temporary. A slot written has to have the slot size.
\<close>

locale slot_store =
  fixes rd :: "nat \<Rightarrow> 'b \<Rightarrow> 'a"
    and wr :: "'a \<Rightarrow> nat \<Rightarrow> 'b \<Rightarrow> 'b"
    and mv :: "nat \<Rightarrow> nat \<Rightarrow> nat \<Rightarrow> 'b \<Rightarrow> 'b"
    and view :: "'b \<Rightarrow> 'a list"
    and ok :: "'b \<Rightarrow> bool"
    and fits :: "'b \<Rightarrow> 'a \<Rightarrow> bool"
  assumes rd_view: "ok b \<Longrightarrow> i < length (view b) \<Longrightarrow> rd i b = view b ! i"
    and view_fits: "ok b \<Longrightarrow> i < length (view b) \<Longrightarrow> fits b (view b ! i)"
    and wr_view: "ok b \<Longrightarrow> i < length (view b) \<Longrightarrow> fits b x \<Longrightarrow> view (wr x i b) = (view b)[i := x]"
    and wr_ok: "ok b \<Longrightarrow> ok (wr x i b)"
    and wr_fits: "fits (wr x i b) y = fits b y"
    and mv_view: "ok b \<Longrightarrow> d + n \<le> length (view b) \<Longrightarrow> s + n \<le> length (view b) \<Longrightarrow>
       view (mv d s n b) = take d (view b) @ take n (drop s (view b)) @ drop (d + n) (view b)"
    and mv_ok: "ok b \<Longrightarrow> ok (mv d s n b)"
    and mv_fits: "fits (mv d s n b) y = fits b y"
begin

text \<open>Saving slot \<open>i\<close>, shifting the slots before it up by one, and storing it in slot 0
  moves it to the front.\<close>

lemma promote_front:
  assumes "ok b" and "i < length (view b)"
  shows "view (wr (rd i b) 0 (mv 1 0 i b)) = view b ! i # take i (view b) @ drop (Suc i) (view b)"
    and "ok (wr (rd i b) 0 (mv 1 0 i b))"
proof -
  let ?v = "view b"
  have ne: "?v \<noteq> []" using assms(2) by auto
  have mv: "view (mv 1 0 i b) = take 1 ?v @ take i ?v @ drop (Suc i) ?v"
    using mv_view [OF assms(1), of 1 i 0] assms(2) by simp
  moreover have "take 1 ?v = [hd ?v]" using ne by (cases ?v) auto
  ultimately have v: "view (mv 1 0 i b) = hd ?v # take i ?v @ drop (Suc i) ?v" by simp
  have "fits (mv 1 0 i b) (rd i b)"
    using assms by (simp add: mv_fits rd_view view_fits)
  then have "view (wr (rd i b) 0 (mv 1 0 i b)) = (view (mv 1 0 i b))[0 := rd i b]"
    using wr_view [OF mv_ok [OF assms(1)]] v by simp
  then show "view (wr (rd i b) 0 (mv 1 0 i b)) = ?v ! i # take i ?v @ drop (Suc i) ?v"
    using v assms by (simp add: rd_view)
  show "ok (wr (rd i b) 0 (mv 1 0 i b))" using assms(1) by (simp add: wr_ok mv_ok)
qed

end

interpretation mb_store: slot_store
  "\<lambda>i (mb, m). jfs_mb_read mb (of_nat i) m"
  "\<lambda>x i (mb, m). (mb, jfs_mb_write mb x (of_nat i) m)"
  "\<lambda>d s n (mb, m). (mb, jfs_mb_remap mb (of_nat d) (of_nat s) (of_nat n) m)"
  "\<lambda>(mb, m). slots mb m"
  "\<lambda>(mb, m). mb_ok mb"
  "\<lambda>(mb, m) x. length x = osz mb"
  by unfold_locales (auto simp: slots_nth slots_write slots_remap)

lemma remap_frame:
  assumes "mb_ok mb" and "d + n \<le> cap mb" and "\<not> in_block mb a"
  shows "jfs_mb_remap mb (of_nat d) s (of_nat n) m a = m a"
proof -
  have n: "unat (of_nat n :: size_t) = n"
    using assms(2) unat64_less [of "mb_capacity mb"] by (intro unat_of_nat64) linarith
  have "unat (mb_obj_size mb * of_nat n) \<le> n * osz mb"
    using n by (simp add: unat_word_ariths mult.commute)
  moreover have "(d + n) * osz mb \<le> cap mb * osz mb" using assms(2) by (intro mult_le_mono1)
  ultimately have "d * osz mb + unat (mb_obj_size mb * of_nat n) \<le> cap mb * osz mb"
    unfolding add_mult_distrib by linarith
  then show ?thesis using assms by (simp add: jfs_mb_remap_def memmove_def write_bytes_frame)
qed

lemma write_frame:
  assumes "mb_ok mb" and "i < cap mb" and "\<not> in_block mb a"
  shows "jfs_mb_write mb obj (of_nat i) m a = m a"
proof -
  have "Suc i * osz mb \<le> cap mb * osz mb" using assms(2) by (intro mult_le_mono1) simp
  then show ?thesis using assms by (simp add: jfs_mb_write_def write_bytes_frame)
qed

text \<open>C18. On a well-formed block, \<open>jfs_mb_read\<close> and \<open>jfs_mb_write\<close> are indexing and update of
  the list of slots, \<open>jfs_mb_remap\<close> copies a range of slots to another, possibly overlapping
  range, and neither changes a byte outside the block.\<close>

theorem mb_operations_are_list_operations:
  assumes "mb_ok mb" and "i < cap mb" and "length obj = osz mb"
    and "d + n \<le> cap mb" and "s + n \<le> cap mb"
  shows "jfs_mb_read mb (of_nat i) m = slots mb m ! i
    \<and> slots mb (jfs_mb_write mb obj (of_nat i) m) = (slots mb m)[i := obj]
    \<and> slots mb (jfs_mb_remap mb (of_nat d) (of_nat s) (of_nat n) m)
        = take d (slots mb m) @ take n (drop s (slots mb m)) @ drop (d + n) (slots mb m)
    \<and> (\<forall>a. \<not> in_block mb a \<longrightarrow> jfs_mb_write mb obj (of_nat i) m a = m a
          \<and> jfs_mb_remap mb (of_nat d) (of_nat s) (of_nat n) m a = m a)"
  using assms by (simp add: slots_nth slots_write slots_remap write_frame remap_frame)

theorem mb_operations_are_list_operations_witness:
  "\<exists>mb m. cap mb = 4 \<and> slots mb (jfs_mb_remap mb (of_nat 1) (of_nat 0) (of_nat 2) m)
     = [[10, 11], [10, 11], [12, 13], [16, 17]]"
proof -
  let ?mb = "\<lparr>mb_base_ptr = 4096, mb_obj_size = 2, mb_capacity = 4\<rparr>"
  let ?m = "\<lambda>a. ucast (a - 4086) :: byte"
  have h: "mb_ok ?mb" "0 < cap ?mb" "length [0, 0 :: byte] = osz ?mb" "1 + 2 \<le> cap ?mb" "0 + 2 \<le> cap ?mb"
    by (simp_all add: mb_ok_def)
  have "[0..<4] = [0, 1, 2, 3::nat]" and "[0..<2] = [0, 1::nat]" by (simp_all add: upt_rec)
  then have "slots ?mb ?m = [[10, 11], [12, 13], [14, 15], [16, 17]]"
    by (simp add: slots_def jfs_mb_read_def read_bytes_def jfs_mb_index_def)
  moreover have "slots ?mb (jfs_mb_remap ?mb (of_nat 1) (of_nat 0) (of_nat 2) ?m)
     = take 1 (slots ?mb ?m) @ take 2 (drop 0 (slots ?mb ?m)) @ drop (1 + 2) (slots ?mb ?m)"
    using mb_operations_are_list_operations [OF h] by blast
  ultimately have "slots ?mb (jfs_mb_remap ?mb (of_nat 1) (of_nat 0) (of_nat 2) ?m)
     = [[10, 11], [10, 11], [12, 13], [16, 17]]" by simp
  then show ?thesis by (intro exI [of _ ?mb] exI [of _ ?m]) simp
qed

end
