(* ===== verification/Jfs_Lru.thy ===== *)
theory Jfs_Lru
  imports Jfs_Memory_Block
begin

text \<open>
  The LRU cache (\<open>src/src/modules/lru_cache.c\<close>, \<open>src/src/include/lru_cache.h\<close>): a memory block
  whose first \<open>count\<close> slots are in use, most recently used first. The four callbacks are the
  caller's code and are parameters of the model: they see the bytes of one slot and a
  context, and a slot callback returns the new bytes of the slot and the new context. A
  null function pointer is \<open>None\<close>, and calling it is the value \<open>None\<close> of the option monad,
  as is a failed assertion.
\<close>

section \<open>Data\<close>

type_synonym ('k) jfs_lru_cmp_fn = "'k \<Rightarrow> byte list \<Rightarrow> int"
type_synonym ('c) jfs_lru_slot_fn = "byte list \<Rightarrow> 'c \<Rightarrow> byte list \<times> 'c"

record ('k, 'u, 'e) jfs_lru_fn =
  fn_cmp :: "'k jfs_lru_cmp_fn option"
  fn_hit :: "'u jfs_lru_slot_fn option"
  fn_miss :: "'u jfs_lru_slot_fn option"
  fn_evict :: "'e jfs_lru_slot_fn option"

record ('k, 'u, 'e) jfs_lru_conf =
  conf_component :: jfs_mlg_component
  conf_fn :: "('k, 'u, 'e) jfs_lru_fn"
  conf_evict_ctx :: 'e

record ('k, 'u, 'e) jfs_lru =
  lru_mb :: jfs_mb
  lru_count :: size_t
  lru_fn :: "('k, 'u, 'e) jfs_lru_fn"
  lru_evict_ctx :: 'e

section \<open>Operations\<close>

definition jfs_lru_make_desc ::
  "size_t \<Rightarrow> size_t \<Rightarrow> size_t \<Rightarrow> jfs_err_t \<Rightarrow> jfs_mlg_desc \<times> jfs_err_t" where
  "jfs_lru_make_desc obj_size obj_align obj_count err =
     (let desc = \<lparr>desc_size = obj_size, desc_align = obj_align, desc_count = obj_count + 1\<rparr>
      in if \<not> jfs_mlg_valid_desc desc
         then (\<lparr>desc_size = 0, desc_align = 0, desc_count = 0\<rparr>, JFS_ERR_ARG)
         else (desc, err))"

definition lru_valid_fn :: "('k, 'u, 'e) jfs_lru_fn \<Rightarrow> bool" where
  "lru_valid_fn fn \<longleftrightarrow>
     fn_cmp fn \<noteq> None \<and> fn_evict fn \<noteq> None \<and> fn_hit fn \<noteq> None \<and> fn_miss fn \<noteq> None"

definition jfs_lru_init ::
  "('k, 'u, 'e) jfs_lru \<Rightarrow> ('k, 'u, 'e) jfs_lru_conf \<Rightarrow> jfs_err_t
     \<Rightarrow> ('k, 'u, 'e) jfs_lru \<times> jfs_err_t" where
  "jfs_lru_init lru conf err =
     (if \<not> lru_valid_fn (conf_fn conf) then (lru, JFS_ERR_BAD_CONF)
      else let (mb, err) = jfs_mb_init (lru_mb lru) (conf_component conf) err;
               lru = lru\<lparr>lru_mb := mb\<rparr>
           in if err \<noteq> JFS_OK then (lru, err)
              else (lru\<lparr>lru_count := 0, lru_fn := conf_fn conf,
                        lru_evict_ctx := conf_evict_ctx conf\<rparr>, err))"

text \<open>A callback applied to the slot with index \<open>i\<close>.\<close>

definition lru_slot_call ::
  "'c jfs_lru_slot_fn option \<Rightarrow> jfs_mb \<Rightarrow> size_t \<Rightarrow> 'c \<Rightarrow> mem \<Rightarrow> (mem \<times> 'c) option" where
  "lru_slot_call f mb i ctx m = do {
     f \<leftarrow> f;
     let (slot, ctx) = f (jfs_mb_read mb i m) ctx;
     Some (jfs_mb_write mb slot i m, ctx)
   }"

definition lru_promote :: "('k, 'u, 'e) jfs_lru \<Rightarrow> size_t \<Rightarrow> mem \<Rightarrow> mem" where
  "lru_promote lru index m =
     (let temp_slot = jfs_mb_read (lru_mb lru) index m;
          m = jfs_mb_remap (lru_mb lru) 1 0 index m
      in jfs_mb_write (lru_mb lru) temp_slot 0 m)"

text \<open>The search loop of \<open>jfs_lru_access\<close>, with the number of iterations left.\<close>

fun lru_search ::
  "'k jfs_lru_cmp_fn \<Rightarrow> 'k \<Rightarrow> jfs_mb \<Rightarrow> mem \<Rightarrow> nat \<Rightarrow> size_t \<Rightarrow> size_t option" where
  "lru_search cmp key mb m 0 i = None"
| "lru_search cmp key mb m (Suc n) i =
     (if cmp key (jfs_mb_read mb i m) = 0 then Some i else lru_search cmp key mb m n (i + 1))"

definition jfs_lru_access ::
  "('k, 'u, 'e) jfs_lru \<Rightarrow> 'k \<Rightarrow> 'u \<Rightarrow> mem \<Rightarrow> (('k, 'u, 'e) jfs_lru \<times> 'u \<times> mem) option" where
  "jfs_lru_access lru key user_ctx m = do {
     cmp \<leftarrow> fn_cmp (lru_fn lru);
     case lru_search cmp key (lru_mb lru) m (unat (lru_count lru)) 0 of
       Some i \<Rightarrow> do {
         (m, user_ctx) \<leftarrow> lru_slot_call (fn_hit (lru_fn lru)) (lru_mb lru) i user_ctx m;
         Some (lru, user_ctx, if i \<noteq> 0 then lru_promote lru i m else m)
       }
     | None \<Rightarrow> do {
         (slot, lru, m) \<leftarrow>
           (if lru_count lru < mb_capacity (lru_mb lru)
            then Some (lru_count lru, lru\<lparr>lru_count := lru_count lru + 1\<rparr>, m)
            else do {
              c_assert (lru_count lru = mb_capacity (lru_mb lru));
              let slot = lru_count lru - 1;
              (m, ctx) \<leftarrow>
                lru_slot_call (fn_evict (lru_fn lru)) (lru_mb lru) slot (lru_evict_ctx lru) m;
              Some (slot, lru\<lparr>lru_evict_ctx := ctx\<rparr>, m)
            });
         (m, user_ctx) \<leftarrow> lru_slot_call (fn_miss (lru_fn lru)) (lru_mb lru) slot user_ctx m;
         Some (lru, user_ctx, lru_promote lru (lru_count lru - 1) m)
       }
   }"

text \<open>\<open>jfs_lru_free\<close>: evict every used slot in index order.\<close>

fun lru_free_loop ::
  "('k, 'u, 'e) jfs_lru \<Rightarrow> nat \<Rightarrow> size_t \<Rightarrow> mem \<Rightarrow> (('k, 'u, 'e) jfs_lru \<times> mem) option" where
  "lru_free_loop lru 0 i m = Some (lru, m)"
| "lru_free_loop lru (Suc n) i m = do {
     (m, ctx) \<leftarrow> lru_slot_call (fn_evict (lru_fn lru)) (lru_mb lru) i (lru_evict_ctx lru) m;
     lru_free_loop (lru\<lparr>lru_evict_ctx := ctx\<rparr>) n (i + 1) m
   }"

definition jfs_lru_free :: "('k, 'u, 'e) jfs_lru \<Rightarrow> mem \<Rightarrow> (('k, 'u, 'e) jfs_lru \<times> mem) option" where
  "jfs_lru_free lru m = lru_free_loop lru (unat (lru_count lru)) 0 m"

section \<open>The abstract cache: a list of slots\<close>

text \<open>
  The invariant: a well-formed block, a positive capacity that is not exceeded, callbacks
  present and keeping the size of a slot.
\<close>

definition lru_ok :: "('k, 'u, 'e) jfs_lru \<Rightarrow> bool" where
  "lru_ok lru \<longleftrightarrow> mb_ok (lru_mb lru) \<and> 0 < cap (lru_mb lru)
     \<and> unat (lru_count lru) \<le> cap (lru_mb lru) \<and> lru_valid_fn (lru_fn lru)"

definition size_keeping :: "nat \<Rightarrow> 'c jfs_lru_slot_fn option \<Rightarrow> bool" where
  "size_keeping n f \<longleftrightarrow> (\<forall>g. f = Some g \<longrightarrow> (\<forall>s c. length s = n \<longrightarrow> length (fst (g s c)) = n))"

definition fns_keep_size :: "('k, 'u, 'e) jfs_lru \<Rightarrow> bool" where
  "fns_keep_size lru \<longleftrightarrow> size_keeping (osz (lru_mb lru)) (fn_hit (lru_fn lru))
     \<and> size_keeping (osz (lru_mb lru)) (fn_miss (lru_fn lru))
     \<and> size_keeping (osz (lru_mb lru)) (fn_evict (lru_fn lru))"

definition lru_view :: "('k, 'u, 'e) jfs_lru \<Rightarrow> mem \<Rightarrow> byte list list" where
  "lru_view lru m = take (unat (lru_count lru)) (slots (lru_mb lru) m)"

text \<open>Moving element \<open>i\<close> of a list to the front.\<close>

definition to_front :: "nat \<Rightarrow> 'a list \<Rightarrow> 'a list" where
  "to_front i xs = xs ! i # take i xs @ drop (Suc i) xs"

text \<open>The first index whose element satisfies \<open>P\<close>.\<close>

fun first_index :: "('a \<Rightarrow> bool) \<Rightarrow> 'a list \<Rightarrow> nat option" where
  "first_index P [] = None"
| "first_index P (x # xs) = (if P x then Some 0 else map_option Suc (first_index P xs))"

lemma first_index_Some: "first_index P xs = Some i \<Longrightarrow>
   i < length xs \<and> P (xs ! i) \<and> (\<forall>j < i. \<not> P (xs ! j))"
  by (induction xs arbitrary: i) (auto simp: nth_Cons split: if_splits nat.splits)

lemma first_index_None: "first_index P xs = None \<longleftrightarrow> (\<forall>x \<in> set xs. \<not> P x)"
  by (induction xs) auto

lemma length_to_front: "i < length xs \<Longrightarrow> length (to_front i xs) = length xs"
  by (simp add: to_front_def)

lemma take_to_front: "i < n \<Longrightarrow> n \<le> length xs \<Longrightarrow> take n (to_front i xs) = to_front i (take n xs)"
  by (cases n) (auto simp: to_front_def min_def take_drop less_Suc_eq_le dest: le_antisym)

lemma to_front_upd: "i < length xs \<Longrightarrow>
   to_front i (xs[i := y]) = y # take i xs @ drop (Suc i) xs"
  by (simp add: to_front_def)

section \<open>The operations on the list\<close>

lemma promote_slots:
  assumes "mb_ok (lru_mb lru)" and "i < cap (lru_mb lru)"
  shows "slots (lru_mb lru) (lru_promote lru (of_nat i) m) = to_front i (slots (lru_mb lru) m)"
  using mb_store.promote_front(1) [of "(lru_mb lru, m)" i] assms
  by (simp add: lru_promote_def Let_def to_front_def)

lemma slot_call_slots:
  assumes "mb_ok mb" and "i < cap mb" and "size_keeping (osz mb) (Some f)"
  obtains m' where "lru_slot_call (Some f) mb (of_nat i) c m = Some (m', snd (f (slots mb m ! i) c))"
    and "slots mb m' = (slots mb m)[i := fst (f (slots mb m ! i) c)]"
proof -
  have "length (fst (f (slots mb m ! i) c)) = osz mb"
    using assms(2,3) by (simp add: size_keeping_def slots_nth)
  then show thesis
    using that [of "jfs_mb_write mb (fst (f (slots mb m ! i) c)) (of_nat i) m"] assms
    by (simp add: lru_slot_call_def slots_nth [symmetric] slots_write split: prod.splits)
qed

lemma search_index:
  assumes "i + n \<le> cap mb"
  shows "lru_search cmp key mb m n (of_nat i)
       = map_option (\<lambda>j. of_nat (i + j)) (first_index (\<lambda>s. cmp key s = 0) (take n (drop i (slots mb m))))"
  using assms
proof (induction n arbitrary: i)
  case (Suc n)
  then have "take (Suc n) (drop i (slots mb m)) = slots mb m ! i # take n (drop (Suc i) (slots mb m))"
    by (simp add: Cons_nth_drop_Suc [symmetric])
  moreover have "lru_search cmp key mb m n (of_nat i + 1) = map_option (\<lambda>j. of_nat (Suc i + j))
      (first_index (\<lambda>s. cmp key s = 0) (take n (drop (Suc i) (slots mb m))))"
    using Suc.IH [of "Suc i"] Suc.prems by (simp add: add.commute)
  ultimately show ?case
    using Suc.prems by (simp add: slots_nth [symmetric] option.map_comp comp_def add.left_commute)
qed simp


text \<open>
  The abstract cache: the used slots as a list, most recent first. \<open>fresh\<close> is what the next
  unused slot contains when the cache is not full.
\<close>

definition lru_step ::
  "'k jfs_lru_cmp_fn \<Rightarrow> 'u jfs_lru_slot_fn \<Rightarrow> 'u jfs_lru_slot_fn \<Rightarrow> 'e jfs_lru_slot_fn \<Rightarrow> nat
     \<Rightarrow> byte list \<Rightarrow> 'k \<Rightarrow> byte list list \<times> 'u \<times> 'e \<Rightarrow> byte list list \<times> 'u \<times> 'e" where
  "lru_step cmp hit miss evict n fresh key = (\<lambda>(xs, u, e).
     case first_index (\<lambda>s. cmp key s = 0) xs of
       Some i \<Rightarrow> let (s, u) = hit (xs ! i) u in (s # take i xs @ drop (Suc i) xs, u, e)
     | None \<Rightarrow>
         if length xs < n then let (s, u) = miss fresh u in (s # xs, u, e)
         else let (v, e) = evict (last xs) e; (s, u) = miss v u in (s # butlast xs, u, e))"

lemma view_length: "lru_ok lru \<Longrightarrow> length (lru_view lru m) = unat (lru_count lru)"
  by (simp add: lru_ok_def lru_view_def)

lemma access_hit:
  assumes ok: "lru_ok lru" and keep: "fns_keep_size lru"
    and fns: "fn_cmp (lru_fn lru) = Some cmp" "fn_hit (lru_fn lru) = Some hit"
    and idx: "first_index (\<lambda>s. cmp key s = 0) (lru_view lru m) = Some i"
  shows "\<exists>m'. jfs_lru_access lru key u m = Some (lru, snd (hit (lru_view lru m ! i) u), m')
    \<and> lru_view lru m' = fst (hit (lru_view lru m ! i) u) # take i (lru_view lru m) @ drop (Suc i) (lru_view lru m)"
proof -
  let ?mb = "lru_mb lru" and ?c = "unat (lru_count lru)"
  let ?h = "hit (slots ?mb m ! i) u"
  have i: "i < ?c" using first_index_Some [OF idx] view_length [OF ok, of m] by simp
  have mb: "mb_ok ?mb" and c: "?c \<le> cap ?mb" using ok by (auto simp: lru_ok_def)
  then have ic: "i < cap ?mb" using i by simp
  have vi: "lru_view lru m ! i = slots ?mb m ! i" using i by (simp add: lru_view_def)
  have srch: "lru_search cmp key ?mb m ?c 0 = Some (of_nat i)"
    using search_index [of 0 ?c ?mb cmp key m] c idx by (simp add: lru_view_def)
  have "size_keeping (osz ?mb) (Some hit)" using keep fns by (simp add: fns_keep_size_def)
  from slot_call_slots [OF mb ic this] obtain m1 where
    m1: "lru_slot_call (Some hit) ?mb (of_nat i) u m = Some (m1, snd ?h)"
    "slots ?mb m1 = (slots ?mb m)[i := fst ?h]" by metis
  let ?m' = "if (of_nat i :: size_t) \<noteq> 0 then lru_promote lru (of_nat i) m1 else m1"
  have z: "(of_nat i :: size_t) = 0 \<longleftrightarrow> i = 0" by (rule of_nat64_eq_0 [OF ic])
  have "slots ?mb ?m' = fst ?h # take i (slots ?mb m) @ drop (Suc i) (slots ?mb m)"
  proof (cases "i = 0")
    case True
    moreover have "slots ?mb m \<noteq> []" using ic by (metis length_slots less_nat_zero_code list.size(3))
    ultimately show ?thesis using m1(2) by (cases "slots ?mb m") auto
  next
    case False
    then show ?thesis
      using z promote_slots [OF mb ic, of m1] to_front_upd [of i "slots ?mb m" "fst ?h"] m1(2) ic
      by simp
  qed
  then have "slots ?mb ?m' = to_front i ((slots ?mb m)[i := fst ?h])"
    using to_front_upd [of i "slots ?mb m"] ic by simp
  then have "lru_view lru ?m' = to_front i ((lru_view lru m)[i := fst ?h])"
    using take_to_front [of i ?c "(slots ?mb m)[i := fst ?h]"] i c
    by (simp add: lru_view_def take_update_swap)
  then have "lru_view lru ?m' = fst ?h # take i (lru_view lru m) @ drop (Suc i) (lru_view lru m)"
    using to_front_upd [of i "lru_view lru m"] i view_length [OF ok, of m] by simp
  moreover have "jfs_lru_access lru key u m = Some (lru, snd ?h, ?m')"
    using fns srch m1(1) by (simp add: jfs_lru_access_def)
  ultimately show ?thesis unfolding vi by blast
qed

text \<open>The common end of both miss branches: fill slot \<open>count - 1\<close> and promote it.\<close>

lemma access_fill:
  assumes mb: "mb_ok (lru_mb lru)" and c: "unat (lru_count lru) = Suc k" "k < cap (lru_mb lru)"
    and miss: "fn_miss (lru_fn lru) = Some miss" "size_keeping (osz (lru_mb lru)) (Some miss)"
  shows "\<exists>m1. lru_slot_call (fn_miss (lru_fn lru)) (lru_mb lru) (of_nat k) u m
       = Some (m1, snd (miss (slots (lru_mb lru) m ! k) u))
     \<and> lru_view lru (lru_promote lru (lru_count lru - 1) m1)
       = fst (miss (slots (lru_mb lru) m ! k) u) # take k (slots (lru_mb lru) m)"
proof -
  let ?mb = "lru_mb lru"
  let ?h = "miss (slots ?mb m ! k) u"
  from slot_call_slots [OF mb c(2) miss(2)] obtain m1 where
    m1: "lru_slot_call (Some miss) ?mb (of_nat k) u m = Some (m1, snd ?h)"
    "slots ?mb m1 = (slots ?mb m)[k := fst ?h]" by metis
  have "lru_count lru = of_nat (Suc k)" using c(1) by (metis of_nat_unat ucast_id)
  then have "lru_count lru - 1 = of_nat k" by simp
  then have "slots ?mb (lru_promote lru (lru_count lru - 1) m1)
      = fst ?h # take k (slots ?mb m) @ drop (Suc k) (slots ?mb m)"
    using promote_slots [OF mb c(2), of m1] to_front_upd [of k "slots ?mb m"] m1(2) c(2) by simp
  then show ?thesis using m1(1) miss(1) c by (auto simp: lru_view_def)
qed

lemma access_miss:
  assumes ok: "lru_ok lru" and keep: "fns_keep_size lru"
    and fns: "fn_cmp (lru_fn lru) = Some cmp" "fn_hit (lru_fn lru) = Some hit"
      "fn_miss (lru_fn lru) = Some miss" "fn_evict (lru_fn lru) = Some evict"
    and idx: "first_index (\<lambda>s. cmp key s = 0) (lru_view lru m) = None"
  shows "\<exists>lru' u' m'. jfs_lru_access lru key u m = Some (lru', u', m')
    \<and> lru_ok lru' \<and> lru_mb lru' = lru_mb lru \<and> lru_fn lru' = lru_fn lru
    \<and> (lru_view lru' m', u', lru_evict_ctx lru') = lru_step cmp hit miss evict (cap (lru_mb lru))
        (slots (lru_mb lru) m ! unat (lru_count lru)) key (lru_view lru m, u, lru_evict_ctx lru)"
proof -
  let ?mb = "lru_mb lru" and ?c = "unat (lru_count lru)"
  have mb: "mb_ok ?mb" and c: "?c \<le> cap ?mb" and c0: "0 < cap ?mb" using ok by (auto simp: lru_ok_def)
  have sk: "size_keeping (osz ?mb) (Some miss)" "size_keeping (osz ?mb) (Some evict)"
    using keep fns by (simp_all add: fns_keep_size_def)
  have srch: "lru_search cmp key ?mb m ?c 0 = None"
    using search_index [of 0 ?c ?mb cmp key m] c idx by (simp add: lru_view_def)
  show ?thesis
  proof (cases "?c < cap ?mb")
    case True
    let ?lru = "lru\<lparr>lru_count := lru_count lru + 1\<rparr>"
    have lt: "lru_count lru < mb_capacity ?mb" using True by (simp add: word_less_nat_alt)
    have uc: "unat (lru_count ?lru) = Suc ?c"
      using unat_plus_one [OF True] by simp
    have e: "(of_nat ?c :: size_t) = lru_count lru" by simp
    from access_fill [of ?lru ?c miss u m] obtain m1 where
      "lru_slot_call (Some miss) ?mb (lru_count lru) u m = Some (m1, snd (miss (slots ?mb m ! ?c) u))"
      "lru_view ?lru (lru_promote ?lru (lru_count ?lru - 1) m1)
         = fst (miss (slots ?mb m ! ?c) u) # lru_view lru m"
      using mb uc True fns sk by (auto simp: lru_view_def)
    moreover have "lru_ok ?lru" using ok uc True by (simp add: lru_ok_def)
    ultimately show ?thesis
      using fns srch lt idx True view_length [OF ok, of m]
      by (auto simp: jfs_lru_access_def lru_step_def split: prod.splits)
  next
    case False
    then have cc: "?c = cap ?mb" using c by simp
    then have eq: "lru_count lru = mb_capacity ?mb" by (simp add: word_unat_eq_iff)
    define k where "k = cap ?mb - 1"
    have k: "k < cap ?mb" "?c = Suc k" using c0 cc by (simp_all add: k_def)
    have "lru_count lru = of_nat (Suc k)" using k(2) by (metis of_nat_unat ucast_id)
    then have ek: "lru_count lru - 1 = of_nat k" by simp
    let ?v = "evict (slots ?mb m ! k) (lru_evict_ctx lru)"
    from slot_call_slots [OF mb k(1) sk(2)] obtain m1 where
      m1: "lru_slot_call (Some evict) ?mb (of_nat k) (lru_evict_ctx lru) m = Some (m1, snd ?v)"
      "slots ?mb m1 = (slots ?mb m)[k := fst ?v]" by metis
    let ?lru = "lru\<lparr>lru_evict_ctx := snd ?v\<rparr>"
    from access_fill [of ?lru k miss u m1] obtain m2 where
      m2: "lru_slot_call (Some miss) ?mb (of_nat k) u m1 = Some (m2, snd (miss (fst ?v) u))"
      "lru_view ?lru (lru_promote ?lru (lru_count ?lru - 1) m2)
         = fst (miss (fst ?v) u) # take k (slots ?mb m)"
      using mb k fns sk m1(2) by (auto simp: lru_view_def)
    have full: "lru_view lru m = slots ?mb m" using cc by (simp add: lru_view_def)
    have "slots ?mb m \<noteq> []" using k by (metis length_slots less_nat_zero_code list.size(3))
    then have "last (lru_view lru m) = slots ?mb m ! k" "butlast (lru_view lru m) = take k (slots ?mb m)"
      unfolding full by (simp_all add: last_conv_nth butlast_conv_take k_def)
    moreover have "lru_ok ?lru" using ok by (simp add: lru_ok_def)
    ultimately show ?thesis
      using fns srch eq idx m1(1) m2 ek view_length [OF ok, of m] cc
      by (auto simp: jfs_lru_access_def lru_step_def split: prod.splits)
  qed
qed


text \<open>Every access refines the abstract step and keeps the invariant.\<close>

lemma access_refines:
  assumes ok: "lru_ok lru" and keep: "fns_keep_size lru"
    and fns: "fn_cmp (lru_fn lru) = Some cmp" "fn_hit (lru_fn lru) = Some hit"
      "fn_miss (lru_fn lru) = Some miss" "fn_evict (lru_fn lru) = Some evict"
  shows "\<exists>lru' u' m'. jfs_lru_access lru key u m = Some (lru', u', m')
    \<and> lru_ok lru' \<and> lru_mb lru' = lru_mb lru \<and> lru_fn lru' = lru_fn lru
    \<and> (lru_view lru' m', u', lru_evict_ctx lru') = lru_step cmp hit miss evict (cap (lru_mb lru))
        (slots (lru_mb lru) m ! unat (lru_count lru)) key (lru_view lru m, u, lru_evict_ctx lru)"
proof (cases "first_index (\<lambda>s. cmp key s = 0) (lru_view lru m)")
  case None
  then show ?thesis by (rule access_miss [OF assms])
next
  case (Some i)
  from access_hit [OF ok keep fns(1,2) Some, of u] obtain m' where
    "jfs_lru_access lru key u m = Some (lru, snd (hit (lru_view lru m ! i) u), m')"
    "lru_view lru m' = fst (hit (lru_view lru m ! i) u) # take i (lru_view lru m) @ drop (Suc i) (lru_view lru m)"
    by blast
  then show ?thesis using ok Some by (auto simp: lru_step_def split: prod.splits)
qed

section \<open>The replacement policy\<close>

text \<open>
  A run of accesses, each with the key and the context of the caller.
\<close>

fun lru_run ::
  "('k, 'u, 'e) jfs_lru \<Rightarrow> mem \<Rightarrow> ('k \<times> 'u) list \<Rightarrow> (('k, 'u, 'e) jfs_lru \<times> mem) option" where
  "lru_run lru m [] = Some (lru, m)"
| "lru_run lru m ((key, u) # as) = do {
     (lru, u, m) \<leftarrow> jfs_lru_access lru key u m;
     lru_run lru m as
   }"

text \<open>
  Callbacks that treat a slot as an entry with a key: \<open>cmp\<close> compares with the key of the
  entry, a hit keeps the key, and a miss stores the key that its context carries.
\<close>

definition key_callbacks ::
  "('k, 'u, 'e) jfs_lru_fn \<Rightarrow> (byte list \<Rightarrow> 'k) \<Rightarrow> ('u \<Rightarrow> 'k) \<Rightarrow> bool" where
  "key_callbacks fn keyof ukey \<longleftrightarrow>
     (\<exists>cmp hit miss. fn_cmp fn = Some cmp \<and> fn_hit fn = Some hit \<and> fn_miss fn = Some miss
        \<and> (\<forall>k s. cmp k s = 0 \<longleftrightarrow> keyof s = k)
        \<and> (\<forall>s u. keyof (fst (hit s u)) = keyof s)
        \<and> (\<forall>s u. keyof (fst (miss s u)) = ukey u))"

lemma removeAll_at:
  "distinct ks \<Longrightarrow> i < length ks \<Longrightarrow> removeAll (ks ! i) ks = take i ks @ drop (Suc i) ks"
proof -
  assume d: "distinct ks" and i: "i < length ks"
  then have ks: "ks = take i ks @ ks ! i # drop (Suc i) ks" by (simp add: id_take_nth_drop)
  then have "ks ! i \<notin> set (take i ks)" "ks ! i \<notin> set (drop (Suc i) ks)"
    using d by (metis distinct_append distinct.simps(2) disjoint_iff list.set_intros(1))+
  then show ?thesis by (subst (2) ks) (simp add: removeAll_id)
qed

lemma step_keys:
  assumes cb: "\<And>k s. cmp k s = 0 \<longleftrightarrow> keyof s = k" "\<And>s u. keyof (fst (hit s u)) = keyof s"
      "\<And>s u. keyof (fst (miss s u)) = ukey u"
    and d: "distinct (map keyof xs)" and len: "length xs \<le> n" "0 < n" and k: "ukey u = k"
    and step: "lru_step cmp hit miss evict n fresh k (xs, u, e) = (ys, u', e')"
  shows "map keyof ys = take n (k # removeAll k (map keyof xs))"
proof (cases "first_index (\<lambda>s. cmp k s = 0) xs")
  case (Some i)
  note i = first_index_Some [OF Some]
  then have ki: "map keyof xs ! i = k" by (simp add: cb)
  have ys: "map keyof ys = k # take i (map keyof xs) @ drop (Suc i) (map keyof xs)"
    using step Some i cb by (auto simp: lru_step_def take_map drop_map split: prod.splits)
      (metis cb(2) fst_conv)
  also have "\<dots> = k # removeAll k (map keyof xs)"
    using removeAll_at [OF d, of i] i ki by simp
  finally have "map keyof ys = k # removeAll k (map keyof xs)" .
  moreover have "length (map keyof ys) \<le> n" unfolding ys using i len by auto
  ultimately show ?thesis by simp
next
  case None
  then have "k \<notin> set (map keyof xs)" by (auto simp: first_index_None cb)
  then have rem: "removeAll k (map keyof xs) = map keyof xs" by (rule removeAll_id)
  show ?thesis
  proof (cases "length xs < n")
    case True
    then show ?thesis
      using step None rem k cb(3) by (auto simp: lru_step_def split: prod.splits) (metis cb(3) fst_conv)
  next
    case False
    then have "length xs = n" using len by simp
    then have "take n (k # map keyof xs) = k # map keyof (butlast xs)"
      using len(2) by (cases n) (auto simp: butlast_conv_take take_map)
    moreover have "map keyof ys = k # map keyof (butlast xs)"
      using step None False k by (auto simp: lru_step_def split: prod.splits) (metis cb(3) fst_conv)
    ultimately show ?thesis using rem by simp
  qed
qed

lemma remdups_snoc: "remdups (xs @ [x]) = removeAll x (remdups xs) @ [x]"
  by (induction xs) auto

lemma take_recent:
  assumes "distinct R"
  shows "take n (k # removeAll k (take n R)) = take n (k # removeAll k R)"
proof (cases n)
  case (Suc j)
  show ?thesis
  proof (cases "k \<in> set (take n R)")
    case True
    have "removeAll k R = removeAll k (take n R) @ removeAll k (drop n R)"
      by (metis append_take_drop_id removeAll_append)
    moreover have "length (removeAll k (take n R)) = length (take n R) - 1"
      using True assms by (simp add: distinct_remove1_removeAll [symmetric] length_remove1)
    moreover have "length (take n R) = n \<or> drop n R = []" by auto
    ultimately show ?thesis using Suc by auto
  next
    case False
    have "removeAll k R = take n R @ removeAll k (drop n R)"
      using False by (metis append_take_drop_id removeAll_append removeAll_id)
    moreover have "length (take n R) = n \<or> drop n R = []" by auto
    ultimately show ?thesis using False Suc by auto
  qed
qed simp

lemma lru_run_append:
  "lru_run lru m (as @ bs) = do { (lru, m) \<leftarrow> lru_run lru m as; lru_run lru m bs }"
  by (induction lru m as rule: lru_run.induct) (auto split: bind_splits prod.splits)


lemma run_keys:
  assumes ok: "lru_ok lru" and keep: "fns_keep_size lru"
    and cb: "key_callbacks (lru_fn lru) keyof ukey" and empty: "lru_count lru = 0"
    and as: "\<forall>(k, u) \<in> set as. ukey u = k"
  shows "\<exists>lru' m'. lru_run lru m as = Some (lru', m') \<and> lru_ok lru' \<and> lru_mb lru' = lru_mb lru
    \<and> lru_fn lru' = lru_fn lru
    \<and> map keyof (lru_view lru' m') = take (cap (lru_mb lru)) (rev (remdups (map fst as)))"
  using as
proof (induction as rule: rev_induct)
  case Nil
  then show ?case using ok empty by (simp add: lru_view_def)
next
  case (snoc a as)
  obtain k u where a: "a = (k, u)" "ukey u = k" using snoc.prems by force
  from cb obtain cmp hit miss where
    f: "fn_cmp (lru_fn lru) = Some cmp" "fn_hit (lru_fn lru) = Some hit" "fn_miss (lru_fn lru) = Some miss"
    and c: "\<And>k s. cmp k s = 0 \<longleftrightarrow> keyof s = k" "\<And>s u. keyof (fst (hit s u)) = keyof s"
      "\<And>s u. keyof (fst (miss s u)) = ukey u"
    by (auto simp: key_callbacks_def)
  obtain evict where e: "fn_evict (lru_fn lru) = Some evict"
    using ok by (auto simp: lru_ok_def lru_valid_fn_def)
  let ?n = "cap (lru_mb lru)" and ?R = "rev (remdups (map fst as))"
  from snoc obtain l1 m1 where IH: "lru_run lru m as = Some (l1, m1)" "lru_ok l1"
    "lru_mb l1 = lru_mb lru" "lru_fn l1 = lru_fn lru"
    "map keyof (lru_view l1 m1) = take ?n ?R" by auto
  have "fns_keep_size l1" using keep IH(3,4) by (simp add: fns_keep_size_def)
  from access_refines [OF IH(2) this, of cmp hit miss evict k u m1] f e IH(3,4)
  obtain l2 u2 m2 where acc: "jfs_lru_access l1 k u m1 = Some (l2, u2, m2)" "lru_ok l2"
    "lru_mb l2 = lru_mb lru" "lru_fn l2 = lru_fn lru"
    "lru_step cmp hit miss evict ?n (slots (lru_mb lru) m1 ! unat (lru_count l1)) k
       (lru_view l1 m1, u, lru_evict_ctx l1) = (lru_view l2 m2, u2, lru_evict_ctx l2)"
    by auto
  have "map keyof (lru_view l2 m2) = take ?n (k # removeAll k (map keyof (lru_view l1 m1)))"
  proof (rule step_keys [OF c _ _ _ a(2) acc(5)])
    show "distinct (map keyof (lru_view l1 m1))" unfolding IH(5) by (simp add: distinct_take)
    show "length (lru_view l1 m1) \<le> ?n" using view_length [OF IH(2)] IH(2,3) by (simp add: lru_ok_def)
    show "0 < ?n" using ok by (simp add: lru_ok_def)
  qed
  also have "\<dots> = take ?n (k # removeAll k ?R)" unfolding IH(5) by (rule take_recent) simp
  also have "k # removeAll k ?R = rev (remdups (map fst (as @ [a])))"
    by (simp add: a(1) remdups_snoc removeAll_filter_not_eq rev_filter)
  finally show ?case using acc a(1) IH(1) by (auto simp: lru_run_append)
qed

section \<open>Initialisation and release\<close>

lemma init_ok:
  assumes "lru_valid_fn (conf_fn conf)" and "jfs_mlg_valid_component (conf_component conf)"
    and "desc_bytes (comp_desc (conf_component conf)) \<le> 2 ^ 64"
  obtains lru' where "jfs_lru_init lru conf JFS_OK = (lru', JFS_OK)" and "lru_ok lru'"
    and "lru_view lru' m = []" and "cap (lru_mb lru') = unat (desc_count (comp_desc (conf_component conf)))"
    and "lru_fn lru' = conf_fn conf" and "lru_count lru' = 0"
proof -
  let ?c = "conf_component conf"
  have "desc_size (comp_desc ?c) \<noteq> 0" "0 < unat (desc_count (comp_desc ?c))"
    using assms(2) valid_descD(2,3) [of "comp_desc ?c"]
    by (auto simp: jfs_mlg_valid_component_def word_greater_zero_iff unat_gt_0)
  then show thesis
    using that [of "fst (jfs_lru_init lru conf JFS_OK)"] assms
    by (auto simp: jfs_lru_init_def jfs_mb_init_def lru_ok_def mb_ok_def lru_view_def desc_bytes_def
        mult.commute)
qed

lemma free_loop_evicts:
  assumes "mb_ok (lru_mb lru)" and "fn_evict (lru_fn lru) = Some evict"
    and "size_keeping (osz (lru_mb lru)) (Some evict)" and "i + n \<le> cap (lru_mb lru)"
  shows "\<exists>lru' m'. lru_free_loop lru n (of_nat i) m = Some (lru', m')
     \<and> lru_evict_ctx lru' = fold (\<lambda>s e. snd (evict s e)) (take n (drop i (slots (lru_mb lru) m)))
         (lru_evict_ctx lru)"
  using assms
proof (induction n arbitrary: i lru m)
  case (Suc n)
  let ?mb = "lru_mb lru" and ?e = "lru_evict_ctx lru"
  have i: "i < cap ?mb" using Suc.prems(4) by simp
  from slot_call_slots [OF Suc.prems(1) i Suc.prems(3)] obtain m1 where
    m1: "lru_slot_call (Some evict) ?mb (of_nat i) ?e m = Some (m1, snd (evict (slots ?mb m ! i) ?e))"
    "slots ?mb m1 = (slots ?mb m)[i := fst (evict (slots ?mb m ! i) ?e)]" by metis
  let ?lru = "lru\<lparr>lru_evict_ctx := snd (evict (slots ?mb m ! i) ?e)\<rparr>"
  from Suc.IH [of ?lru "Suc i" m1] Suc.prems m1(2) obtain lru' m' where
    "lru_free_loop ?lru n (of_nat i + 1) m1 = Some (lru', m')"
    "lru_evict_ctx lru' = fold (\<lambda>s e. snd (evict s e)) (take n (drop (Suc i) (slots ?mb m)))
       (snd (evict (slots ?mb m ! i) ?e))"
    by (auto simp: add.commute)
  moreover have "take (Suc n) (drop i (slots ?mb m)) = slots ?mb m ! i # take n (drop (Suc i) (slots ?mb m))"
    using i by (simp add: Cons_nth_drop_Suc [symmetric])
  ultimately show ?case using Suc.prems(2) m1(1) by simp
qed simp

section \<open>Properties of the LRU cache\<close>

text \<open>C17. \<open>jfs_lru_access\<close> on the bytes of the block refines the abstract cache: a hit moves the
  slot, as changed by the hit callback, to the front; a miss puts the slot filled by the
  miss callback in front, evicting exactly the last slot when the cache is full. No
  assertion fails and the invariant is kept.\<close>

theorem lru_access_refines_list:
  assumes "lru_ok lru" and "fns_keep_size lru"
    and "lru_fn lru = \<lparr>fn_cmp = Some cmp, fn_hit = Some hit, fn_miss = Some miss, fn_evict = Some evict\<rparr>"
  shows "\<exists>lru' u' m'. jfs_lru_access lru key u m = Some (lru', u', m')
    \<and> lru_ok lru' \<and> lru_mb lru' = lru_mb lru \<and> lru_fn lru' = lru_fn lru
    \<and> (lru_view lru' m', u', lru_evict_ctx lru') = lru_step cmp hit miss evict (cap (lru_mb lru))
        (slots (lru_mb lru) m ! unat (lru_count lru)) key (lru_view lru m, u, lru_evict_ctx lru)"
  by (rule access_refines [OF assms(1,2)]) (simp_all add: assms(3))

text \<open>C1. Replacement policy: after any sequence of accesses to an initially empty cache, the
  resident keys are the most recently used distinct keys, most recent first, as many as the
  capacity allows.\<close>

theorem lru_keeps_most_recent:
  assumes "lru_ok lru" and "fns_keep_size lru"
    and "key_callbacks (lru_fn lru) keyof ukey" and "lru_count lru = 0"
    and "\<forall>(k, u) \<in> set as. ukey u = k"
  shows "\<exists>lru' m'. lru_run lru m as = Some (lru', m')
    \<and> map keyof (lru_view lru' m') = take (cap (lru_mb lru)) (rev (remdups (map fst as)))"
  using run_keys [OF assms, of m] by blast


text \<open>Concrete callbacks for the witnesses: one-byte slots that hold their key.\<close>

definition byte_fn :: "(byte, byte, byte list) jfs_lru_fn" where
  "byte_fn = \<lparr>fn_cmp = Some (\<lambda>k s. if s \<noteq> [] \<and> hd s = k \<or> s = [] \<and> k = 0 then 0 else 1),
     fn_hit = Some (\<lambda>s u. (s, u)), fn_miss = Some (\<lambda>s u. ([u], u)),
     fn_evict = Some (\<lambda>s e. (s, e @ s))\<rparr>"

definition byte_key :: "byte list \<Rightarrow> byte" where
  "byte_key s = (if s = [] then 0 else hd s)"

definition byte_lru :: "(byte, byte, byte list) jfs_lru" where
  "byte_lru = \<lparr>lru_mb = \<lparr>mb_base_ptr = 4096, mb_obj_size = 1, mb_capacity = 2\<rparr>, lru_count = 0,
     lru_fn = byte_fn, lru_evict_ctx = []\<rparr>"

lemma byte_lru_ok: "lru_ok byte_lru" "fns_keep_size byte_lru"
  "key_callbacks (lru_fn byte_lru) byte_key id"
  by (auto simp: lru_ok_def byte_lru_def mb_ok_def lru_valid_fn_def byte_fn_def fns_keep_size_def
      size_keeping_def key_callbacks_def byte_key_def)

theorem lru_access_refines_list_witness:
  "\<exists>lru' u' m'. jfs_lru_access byte_lru 7 7 (\<lambda>_. 0) = Some (lru', u', m') \<and> lru_view lru' m' = [[7]]"
proof -
  have fn: "lru_fn byte_lru =
    \<lparr>fn_cmp = Some (\<lambda>k s. if s \<noteq> [] \<and> hd s = k \<or> s = [] \<and> k = 0 then 0 else 1),
     fn_hit = Some (\<lambda>s u. (s, u)), fn_miss = Some (\<lambda>s u. ([u], u)),
     fn_evict = Some (\<lambda>s e. (s, e @ s))\<rparr>" by (simp add: byte_lru_def byte_fn_def)
  have "lru_view byte_lru (\<lambda>_. 0) = []" "cap (lru_mb byte_lru) = 2"
    by (simp_all add: byte_lru_def lru_view_def)
  then show ?thesis
    using lru_access_refines_list [OF byte_lru_ok(1,2) fn, of 7 7 "\<lambda>_. 0"]
    by (auto simp: lru_step_def)
qed

theorem lru_keeps_most_recent_witness:
  "\<exists>lru' m'. lru_run byte_lru (\<lambda>_. 0) [(1, 1), (2, 2), (1, 1), (3, 3)] = Some (lru', m')
     \<and> map byte_key (lru_view lru' m') = [3, 1]"
proof -
  have "\<forall>(k, u) \<in> set [(1, 1), (2, 2), (1, 1), (3, 3 :: byte)]. id u = k" by simp
  moreover have "lru_count byte_lru = 0" "cap (lru_mb byte_lru) = 2" by (simp_all add: byte_lru_def)
  ultimately show ?thesis
    using lru_keeps_most_recent [OF byte_lru_ok(1-3), of "[(1, 1), (2, 2), (1, 1), (3, 3)]" "\<lambda>_. 0"]
    by simp
qed

text \<open>A cache set up through \<open>jfs_lru_make_desc\<close> and \<open>jfs_lru_init\<close> for \<open>obj_count\<close> objects
  starts empty and well formed, with room for \<open>obj_count + 1\<close> entries: the slot the comment
  reserves for the promotion is used for an entry.\<close>

theorem lru_init_capacity:
  assumes "jfs_lru_make_desc sz al n JFS_OK = (desc, JFS_OK)" and "lru_valid_fn fn" and "p \<noteq> NULL"
    and "unat sz * unat (n + 1) \<le> 2 ^ 64"
  shows "\<exists>lru'. jfs_lru_init lru \<lparr>conf_component = \<lparr>comp_ptr = p, comp_desc = desc\<rparr>, conf_fn = fn,
             conf_evict_ctx = e\<rparr> JFS_OK = (lru', JFS_OK)
     \<and> lru_ok lru' \<and> lru_view lru' m = [] \<and> cap (lru_mb lru') = unat (n + 1)"
proof -
  have d: "desc = \<lparr>desc_size = sz, desc_align = al, desc_count = n + 1\<rparr>" "jfs_mlg_valid_desc desc"
    using assms(1) by (auto simp: jfs_lru_make_desc_def Let_def split: if_splits)
  show ?thesis
    by (rule init_ok [of "\<lparr>conf_component = \<lparr>comp_ptr = p, comp_desc = desc\<rparr>, conf_fn = fn,
          conf_evict_ctx = e\<rparr>" lru m])
      (use assms d in \<open>auto simp: jfs_mlg_valid_component_def desc_bytes_def\<close>)
qed

theorem lru_init_capacity_witness:
  "\<exists>lru'. jfs_lru_init byte_lru \<lparr>conf_component = \<lparr>comp_ptr = 4096, comp_desc =
       \<lparr>desc_size = 1, desc_align = 1, desc_count = 4\<rparr>\<rparr>, conf_fn = byte_fn, conf_evict_ctx = []\<rparr> JFS_OK
     = (lru', JFS_OK) \<and> cap (lru_mb lru') = 4"
proof -
  have "jfs_lru_make_desc 1 1 3 JFS_OK = (\<lparr>desc_size = 1, desc_align = 1, desc_count = 4\<rparr>, JFS_OK)"
    by (simp add: jfs_lru_make_desc_def jfs_mlg_valid_desc_def jfs_mlg_valid_align_def)
  moreover have "lru_valid_fn byte_fn" by (simp add: lru_valid_fn_def byte_fn_def)
  ultimately show ?thesis
    using lru_init_capacity [of 1 1 3 _ byte_fn 4096 byte_lru "[]"] by fastforce
qed

text \<open>\<open>jfs_lru_free\<close> hands every resident slot to the evict callback exactly once, in order
  of recency, threading the eviction context.\<close>

theorem lru_free_evicts_all:
  assumes "lru_ok lru" and "fns_keep_size lru" and "fn_evict (lru_fn lru) = Some evict"
  shows "\<exists>lru' m'. jfs_lru_free lru m = Some (lru', m')
     \<and> lru_evict_ctx lru' = fold (\<lambda>s e. snd (evict s e)) (lru_view lru m) (lru_evict_ctx lru)"
  using free_loop_evicts [of lru evict 0 "unat (lru_count lru)" m] assms
  by (simp add: jfs_lru_free_def lru_view_def lru_ok_def fns_keep_size_def)

theorem lru_free_evicts_all_witness:
  "\<exists>lru' m'. jfs_lru_free (byte_lru\<lparr>lru_count := 2\<rparr>) (\<lambda>a. ucast (a - 4090)) = Some (lru', m')
     \<and> lru_evict_ctx lru' = [6, 7]"
proof -
  let ?l = "byte_lru\<lparr>lru_count := 2\<rparr>"
  have h: "lru_ok ?l" "fns_keep_size ?l" "fn_evict (lru_fn ?l) = Some (\<lambda>s e. (s, e @ s))"
    using byte_lru_ok by (simp_all add: lru_ok_def fns_keep_size_def byte_lru_def byte_fn_def)
  have "[0..<2] = [0, 1::nat]" by (simp add: upt_rec)
  then have "lru_view ?l (\<lambda>a. ucast (a - 4090)) = [[6], [7]]"
    by (simp add: lru_view_def slots_def byte_lru_def jfs_mb_read_def read_bytes_def jfs_mb_index_def)
  moreover have "lru_evict_ctx ?l = []" by (simp add: byte_lru_def)
  ultimately show ?thesis
    using lru_free_evicts_all [OF h, of "\<lambda>a. ucast (a - 4090)"] by simp
qed

end
