(* ===== verification/Jfs_Free_List.thy ===== *)
theory Jfs_Free_List
  imports Jfs_Layout "HOL-Library.Multiset"
begin

text \<open>
  Linked lists threaded through free objects, and the free list module
  (\<open>src/src/modules/free_list.c\<close>, \<open>src/src/include/free_list.h\<close>).

  The \<open>next\<close> pointer is the first word of a free object, so the part of memory the module
  reads and writes is a map \<open>nxt :: addr \<Rightarrow> addr\<close> from an object's address to that word. The
  map has one cell per object, which is what memory provides when an object has room for the word.
  The code does not check that it has (\<open>MIN_OBJ_SIZE\<close> is never used); linking smaller objects, whose links overwrite one
  another and end behind the array, is \<open>None\<close>. \<open>heap_list nxt p xs\<close> says that the list starting at \<open>p\<close> visits the
  objects \<open>xs\<close> in this order and ends in a null pointer; the slab allocator uses it too.
\<close>

section \<open>Lists in the heap\<close>

fun heap_list :: "(addr \<Rightarrow> addr) \<Rightarrow> addr \<Rightarrow> addr list \<Rightarrow> bool" where
  "heap_list nxt p [] \<longleftrightarrow> p = NULL"
| "heap_list nxt p (a # as) \<longleftrightarrow> p = a \<and> a \<noteq> NULL \<and> heap_list nxt (nxt a) as"

lemma heap_list_NULL [simp]: "heap_list nxt 0 xs \<longleftrightarrow> xs = []"
  by (cases xs) auto

lemma heap_list_nonNULL: "p \<noteq> NULL \<Longrightarrow>
   heap_list nxt p xs \<longleftrightarrow> (\<exists>ys. xs = p # ys \<and> heap_list nxt (nxt p) ys)"
  by (cases xs) auto

lemma heap_list_upd [simp]: "a \<notin> set xs \<Longrightarrow> heap_list (nxt(a := q)) p xs = heap_list nxt p xs"
  by (induction xs arbitrary: p) auto

lemma heap_list_cong: "(\<And>a. a \<in> set xs \<Longrightarrow> nxt a = nxt' a) \<Longrightarrow>
   heap_list nxt p xs = heap_list nxt' p xs"
  by (induction xs arbitrary: p) auto

lemma heap_list_unique: "heap_list nxt p xs \<Longrightarrow> heap_list nxt p ys \<Longrightarrow> xs = ys"
  by (induction xs arbitrary: p ys) (auto simp: heap_list_nonNULL)

lemma heap_list_suffix: "heap_list nxt p (xs @ a # ys) \<Longrightarrow> heap_list nxt a (a # ys)"
  by (induction xs arbitrary: p) auto

lemma heap_list_distinct: "heap_list nxt p xs \<Longrightarrow> distinct xs"
proof (induction xs arbitrary: p)
  case (Cons a xs)
  have "a \<notin> set xs"
  proof
    assume "a \<in> set xs"
    then obtain us vs where "xs = us @ a # vs" by (auto simp: in_set_conv_decomp)
    then have "heap_list nxt a (a # vs)" "heap_list nxt a (a # us @ a # vs)"
      using Cons.prems heap_list_suffix [of nxt p "a # us" a vs] by auto
    then show False using heap_list_unique by fastforce
  qed
  then show ?case using Cons by auto
qed simp

lemma heap_list_nonzero: "heap_list nxt p xs \<Longrightarrow> 0 \<notin> set xs"
  by (induction xs arbitrary: p) auto

text \<open>There are fewer than \<open>2 ^ 64\<close> objects, so a count of them never wraps.\<close>

lemma distinct_addr_length:
  assumes "distinct xs" and "(0::addr) \<notin> set xs"
  shows "length xs < 2 ^ 64"
proof -
  have "length xs = card (unat ` set xs)"
    using assms(1) by (metis card_image distinct_card inj_on_subset inj_unsigned subset_UNIV)
  also have "\<dots> \<le> card {1..<(2::nat) ^ 64}"
    using assms(2) by (intro card_mono) (auto simp: Suc_le_eq unat_gt_0)
  finally show ?thesis by simp
qed

lemma heap_list_length: "heap_list nxt p xs \<Longrightarrow> length xs < 2 ^ 64"
  using distinct_addr_length heap_list_distinct heap_list_nonzero by blast

section \<open>Data and operations\<close>

record jfs_fl =
  fl_list :: addr
  fl_count :: size_t

text \<open>
  The loop of \<open>fl_link_memory\<close>: the first argument but two is the number of iterations
  left, \<open>obj_count - i\<close>.
\<close>

fun fl_link_loop ::
  "addr \<Rightarrow> size_t \<Rightarrow> nat \<Rightarrow> size_t \<Rightarrow> addr \<Rightarrow> (addr \<Rightarrow> addr) \<Rightarrow> addr \<times> (addr \<Rightarrow> addr)" where
  "fl_link_loop memory obj_size 0 i list nxt = (list, nxt)"
| "fl_link_loop memory obj_size (Suc n) i list nxt =
     (let obj = memory + i * obj_size
      in fl_link_loop memory obj_size n (i + 1) obj (nxt(obj := list)))"

lemma fl_link_loop_numeral [simp]:
  "fl_link_loop memory obj_size (numeral n) i list nxt =
     (let obj = memory + i * obj_size
      in fl_link_loop memory obj_size (pred_numeral n) (i + 1) obj (nxt(obj := list)))"
  by (simp add: numeral_eq_Suc)

definition MIN_OBJ_SIZE :: size_t where
  "MIN_OBJ_SIZE = 8"

text \<open>The assertion stands for the memory: with smaller objects the links of neighbours share bytes, and the link of the last
  object leaves the array.\<close>

definition fl_link_memory ::
  "addr \<Rightarrow> size_t \<Rightarrow> size_t \<Rightarrow> (addr \<Rightarrow> addr) \<Rightarrow> (addr \<times> (addr \<Rightarrow> addr)) option" where
  "fl_link_memory memory obj_size obj_count nxt = do {
     c_assert (MIN_OBJ_SIZE \<le> obj_size);
     Some (fl_link_loop memory obj_size (unat obj_count) 0 NULL nxt)
   }"

definition jfs_fl_init ::
  "jfs_fl \<Rightarrow> jfs_mlg_component \<Rightarrow> (addr \<Rightarrow> addr) \<Rightarrow> jfs_err_t
     \<Rightarrow> (jfs_fl \<times> (addr \<Rightarrow> addr) \<times> jfs_err_t) option" where
  "jfs_fl_init fl component nxt err =
     (if \<not> jfs_mlg_valid_component component then Some (fl, nxt, JFS_ERR_BAD_CONF)
      else do {
        (list, nxt) \<leftarrow> fl_link_memory (comp_ptr component) (desc_size (comp_desc component)) (desc_count (comp_desc component)) nxt;
        Some (fl\<lparr>fl_list := list, fl_count := desc_count (comp_desc component)\<rparr>, nxt, err)
      })"

definition jfs_fl_alloc :: "jfs_fl \<Rightarrow> (addr \<Rightarrow> addr) \<Rightarrow> addr \<times> jfs_fl" where
  "jfs_fl_alloc fl nxt =
     (if fl_count fl = 0 then (NULL, fl)
      else let obj = fl_list fl
           in (obj, fl\<lparr>fl_list := nxt obj, fl_count := fl_count fl - 1\<rparr>))"

definition jfs_fl_free :: "jfs_fl \<Rightarrow> addr \<Rightarrow> (addr \<Rightarrow> addr) \<Rightarrow> jfs_fl \<times> (addr \<Rightarrow> addr)" where
  "jfs_fl_free fl ptr nxt =
     (if ptr = NULL then (fl, nxt)
      else (fl\<lparr>fl_list := ptr, fl_count := fl_count fl + 1\<rparr>, nxt(ptr := fl_list fl)))"

section \<open>The invariant: the count is the length of the list\<close>

definition fl_inv :: "jfs_fl \<Rightarrow> (addr \<Rightarrow> addr) \<Rightarrow> addr list \<Rightarrow> bool" where
  "fl_inv fl nxt xs \<longleftrightarrow> heap_list nxt (fl_list fl) xs \<and> unat (fl_count fl) = length xs"

lemma fl_alloc_empty: "fl_inv fl nxt [] \<Longrightarrow> jfs_fl_alloc fl nxt = (NULL, fl)"
  by (simp add: fl_inv_def jfs_fl_alloc_def unat_eq_0)

lemma fl_alloc_cons:
  assumes "fl_inv fl nxt (x # xs)"
  shows "fst (jfs_fl_alloc fl nxt) = x" and "fl_inv (snd (jfs_fl_alloc fl nxt)) nxt xs"
  using assms by (auto simp: fl_inv_def jfs_fl_alloc_def Let_def unat_minus_one)

lemma fl_free_cons:
  assumes "fl_inv fl nxt xs" and "x \<noteq> NULL" and "x \<notin> set xs"
    and "jfs_fl_free fl x nxt = (fl', nxt')"
  shows "fl_inv fl' nxt' (x # xs)"
proof -
  have l: "heap_list nxt' x (x # xs)" using assms by (auto simp: jfs_fl_free_def fl_inv_def)
  then have "length (x # xs) < 2 ^ 64" by (rule heap_list_length)
  then show ?thesis
    using l assms by (auto simp: jfs_fl_free_def fl_inv_def unat_word_ariths)
qed

text \<open>The addresses of the objects of a component, in the order of the array.\<close>

definition component_objs :: "jfs_mlg_component \<Rightarrow> addr list" where
  "component_objs c =
     map (\<lambda>i. comp_ptr c + of_nat i * desc_size (comp_desc c)) [0..<unat (desc_count (comp_desc c))]"

lemma link_loop_inv:
  assumes "heap_list nxt list xs"
    and "distinct (map (\<lambda>j. memory + of_nat j * sz) [0..<i + n])"
    and "\<forall>j < i + n. memory + of_nat j * sz \<noteq> NULL"
    and "set xs \<subseteq> (\<lambda>j. memory + of_nat j * sz) ` {0..<i}"
  shows "let (list', nxt') = fl_link_loop memory sz n (of_nat i) list nxt
    in heap_list nxt' list' (rev (map (\<lambda>j. memory + of_nat j * sz) [i..<i + n]) @ xs)"
  using assms
proof (induction n arbitrary: i list nxt xs)
  case (Suc n)
  let ?f = "\<lambda>j. memory + of_nat j * sz"
  have inj: "inj_on ?f {0..<i + Suc n}" using Suc.prems(2) by (simp only: distinct_map set_upt)
  have "?f i \<notin> set xs"
  proof
    assume "?f i \<in> set xs"
    then obtain j where "j < i" "?f i = ?f j" using Suc.prems(4) by auto
    then show False using inj inj_onD [OF inj, of i j] by simp
  qed
  then have h: "heap_list (nxt(?f i := list)) (?f i) (?f i # xs)"
    using Suc.prems(1,3) by simp
  have e: "i + Suc n = Suc i + n" by simp
  have sub: "set (?f i # xs) \<subseteq> ?f ` {0..<Suc i}" using Suc.prems(4) by auto
  have "let (list', nxt') =
      fl_link_loop memory sz n (of_nat (Suc i)) (?f i) (nxt(?f i := list))
    in heap_list nxt' list' (rev (map ?f [Suc i..<Suc i + n]) @ ?f i # xs)"
    by (rule Suc.IH [OF h Suc.prems(2) [unfolded e] Suc.prems(3) [unfolded e] sub])
  moreover have "[i..<i + Suc n] = i # [Suc i..<Suc i + n]" by (simp add: upt_conv_Cons)
  moreover have "fl_link_loop memory sz (Suc n) (of_nat i) list nxt
      = fl_link_loop memory sz n (of_nat (Suc i)) (?f i) (nxt(?f i := list))"
    by (simp add: Let_def add.commute)
  ultimately show ?case by (simp only: list.map rev.simps append_assoc append_Cons append_Nil)
qed simp

text \<open>The array lies in the address space: no object address wraps, and none is null.\<close>

definition comp_fits :: "jfs_mlg_component \<Rightarrow> bool" where
  "comp_fits c \<longleftrightarrow> unat (comp_ptr c) + desc_bytes (comp_desc c) \<le> 2 ^ 64"

lemma component_obj_unat:
  assumes "jfs_mlg_valid_component c" and "comp_fits c" and "i < unat (desc_count (comp_desc c))"
  shows "unat (comp_ptr c + of_nat i * desc_size (comp_desc c))
       = unat (comp_ptr c) + i * unat (desc_size (comp_desc c))"
proof -
  let ?s = "unat (desc_size (comp_desc c))" and ?n = "unat (desc_count (comp_desc c))"
  have s: "0 < ?s" using assms(1) valid_descD(2)
    by (auto simp: jfs_mlg_valid_component_def word_greater_zero_iff unat_gt_0)
  have "i * ?s < ?n * ?s" using assms(3) s by simp
  moreover have "desc_bytes (comp_desc c) = ?n * ?s" by (simp add: desc_bytes_def mult.commute)
  ultimately have b: "unat (comp_ptr c) + i * ?s < 2 ^ 64"
    using assms(2) unfolding comp_fits_def by linarith
  have "i < 2 ^ 64" using assms(3) unat64_less less_trans by blast
  then have i: "unat (of_nat i :: size_t) = i" by (simp add: unat_of_nat)
  then have "unat (of_nat i * desc_size (comp_desc c)) = i * ?s"
    using b by (simp add: unat_word_ariths)
  then show ?thesis using b by (simp add: unat_word_ariths)
qed

lemma component_objs_ok:
  assumes "jfs_mlg_valid_component c" and "comp_fits c"
  shows "distinct (component_objs c)" and "0 \<notin> set (component_objs c)"
    and "length (component_objs c) = unat (desc_count (comp_desc c))"
proof -
  have s: "0 < unat (desc_size (comp_desc c))" and p: "0 < unat (comp_ptr c)"
    using assms(1) valid_descD(2)
    by (auto simp: jfs_mlg_valid_component_def word_greater_zero_iff unat_gt_0)
  show "distinct (component_objs c)"
    unfolding component_objs_def distinct_map
  proof (intro conjI inj_onI)
    fix i j assume ij: "i \<in> set [0..<unat (desc_count (comp_desc c))]"
      "j \<in> set [0..<unat (desc_count (comp_desc c))]"
      "comp_ptr c + of_nat i * desc_size (comp_desc c) = comp_ptr c + of_nat j * desc_size (comp_desc c)"
    then have "i * unat (desc_size (comp_desc c)) = j * unat (desc_size (comp_desc c))"
      using component_obj_unat [OF assms] by (metis add_left_cancel atLeastLessThan_iff set_upt)
    then show "i = j" using s by simp
  qed simp
  show "0 \<notin> set (component_objs c)"
    using component_obj_unat [OF assms] p by (force simp: component_objs_def dest: arg_cong [of _ _ unat])
qed (simp add: component_objs_def)

lemma fl_init_ok:
  assumes "jfs_mlg_valid_component c" and "comp_fits c" and "MIN_OBJ_SIZE \<le> desc_size (comp_desc c)"
  obtains fl' nxt' where "jfs_fl_init fl c nxt err = Some (fl', nxt', err)"
    and "fl_inv fl' nxt' (rev (component_objs c))"
proof -
  let ?f = "\<lambda>j. comp_ptr c + of_nat j * desc_size (comp_desc c)"
  note ok = component_objs_ok [OF assms(1,2)]
  obtain l nxt' where l: "fl_link_loop (comp_ptr c) (desc_size (comp_desc c))
      (unat (desc_count (comp_desc c))) 0 NULL nxt = (l, nxt')" by fastforce
  have "heap_list nxt' l (rev (component_objs c))"
    using link_loop_inv [of nxt 0 "[]" "comp_ptr c" "desc_size (comp_desc c)" 0
        "unat (desc_count (comp_desc c))"] ok l
    by (force simp: component_objs_def)
  then show thesis
    using that [of "fl\<lparr>fl_list := l, fl_count := desc_count (comp_desc c)\<rparr>" nxt'] l assms(1,3) ok(3)
    by (simp add: jfs_fl_init_def fl_inv_def fl_link_memory_def)
qed


section \<open>The interface of an object pool\<close>

text \<open>
  What a client of the free list relies on. \<open>inv p xs\<close> says that the pool \<open>p\<close> is well
  formed and holds exactly the objects \<open>xs\<close>; \<open>poke\<close> is a write of the client to an object it
  owns, which the pool must tolerate for every object it has handed out.
\<close>

locale object_pool =
  fixes alloc :: "'p \<Rightarrow> addr \<times> 'p"
    and release :: "addr \<Rightarrow> 'p \<Rightarrow> 'p"
    and poke :: "addr \<Rightarrow> addr \<Rightarrow> 'p \<Rightarrow> 'p"
    and inv :: "'p \<Rightarrow> addr list \<Rightarrow> bool"
  assumes inv_distinct: "inv p xs \<Longrightarrow> distinct xs"
    and inv_nonnull: "inv p xs \<Longrightarrow> 0 \<notin> set xs"
    and alloc_nil: "inv p [] \<Longrightarrow> alloc p = (0, p)"
    and alloc_cons: "inv p (x # xs) \<Longrightarrow> fst (alloc p) = x"
    and alloc_inv: "inv p (x # xs) \<Longrightarrow> inv (snd (alloc p)) xs"
    and release_inv: "inv p xs \<Longrightarrow> x \<noteq> 0 \<Longrightarrow> x \<notin> set xs \<Longrightarrow> inv (release x p) (x # xs)"
    and poke_inv: "inv p xs \<Longrightarrow> x \<notin> set xs \<Longrightarrow> inv (poke x v p) xs"
begin

text \<open>
  The client's view: \<open>owned p held all\<close> says that the objects \<open>held\<close> by the client and those
  left in the pool are together the objects \<open>all\<close>, each exactly once.
\<close>

definition owned :: "'p \<Rightarrow> addr list \<Rightarrow> addr list \<Rightarrow> bool" where
  "owned p held all \<longleftrightarrow> (\<exists>xs. inv p xs \<and> distinct (held @ xs) \<and> 0 \<notin> set held
     \<and> mset (held @ xs) = mset all)"

lemma owned_start: "inv p xs \<Longrightarrow> owned p [] xs"
  using inv_distinct by (auto simp: owned_def)

lemma owned_alloc:
  assumes "owned p held all" and "alloc p = (x, p')"
  shows "if x = 0 then p' = p \<and> mset held = mset all else owned p' (x # held) all"
proof -
  from assms(1) obtain xs where xs: "inv p xs" "distinct (held @ xs)" "0 \<notin> set held"
    "mset (held @ xs) = mset all" by (auto simp: owned_def)
  show ?thesis
  proof (cases xs)
    case Nil
    then show ?thesis using xs alloc_nil assms(2) by auto
  next
    case (Cons y ys)
    then have "x = y" "inv p' ys" using xs(1) alloc_cons alloc_inv assms(2) by force+
    moreover have "y \<noteq> 0" using xs(1) inv_nonnull Cons by force
    ultimately show ?thesis using xs Cons by (auto simp: owned_def)
  qed
qed

lemma owned_release:
  assumes "owned p held all" and "x \<in> set held"
  shows "owned (release x p) (remove1 x held) all"
proof -
  from assms(1) obtain xs where xs: "inv p xs" "distinct (held @ xs)" "0 \<notin> set held"
    "mset (held @ xs) = mset all" by (auto simp: owned_def)
  have "x \<noteq> 0" "x \<notin> set xs" using xs assms(2) by auto
  then have "inv (release x p) (x # xs)" using release_inv xs(1) by blast
  moreover have "distinct (remove1 x held @ x # xs)" using xs(2) \<open>x \<notin> set xs\<close> by auto
  moreover have "mset (remove1 x held @ x # xs) = mset (held @ xs)" using assms(2) by simp
  moreover have "0 \<notin> set (remove1 x held)" using xs(3) by (meson notin_set_remove1)
  ultimately show ?thesis unfolding owned_def using xs(4) by metis
qed

lemma owned_poke: "owned p held all \<Longrightarrow> x \<in> set held \<Longrightarrow> owned (poke x v p) held all"
  using poke_inv by (fastforce simp: owned_def)

end

interpretation fl_pool: object_pool
  "\<lambda>(fl, nxt). let (x, fl') = jfs_fl_alloc fl nxt in (x, fl', nxt)"
  "\<lambda>x (fl, nxt). jfs_fl_free fl x nxt"
  "\<lambda>x v (fl, nxt). (fl, nxt(x := v))"
  "\<lambda>(fl, nxt) xs. fl_inv fl nxt xs"
proof (unfold_locales, goal_cases)
  case (1 p xs)
  then show ?case using heap_list_distinct by (auto simp: fl_inv_def)
next
  case (2 p xs)
  then show ?case using heap_list_nonzero by (auto simp: fl_inv_def)
next
  case (3 p)
  then show ?case using fl_alloc_empty by auto
next
  case (4 p x xs)
  then show ?case using fl_alloc_cons(1) by (fastforce split: prod.splits)
next
  case (5 p x xs)
  then show ?case using fl_alloc_cons(2) by (fastforce split: prod.splits)
next
  case (6 p xs x)
  then show ?case using fl_free_cons by (auto split: prod.splits)
next
  case (7 p xs x v)
  then show ?case by (auto simp: fl_inv_def)
qed

section \<open>Every run of the free list\<close>

text \<open>
  The states a client can bring the module into: initialise it on a component, allocate,
  free an object it holds, and overwrite the memory of an object it holds.
\<close>

inductive fl_reach ::
  "jfs_mlg_component \<Rightarrow> jfs_fl \<Rightarrow> (addr \<Rightarrow> addr) \<Rightarrow> addr list \<Rightarrow> bool" for c where
  fl_start: "jfs_fl_init fl0 c nxt0 JFS_OK = Some (fl, nxt, JFS_OK) \<Longrightarrow> fl_reach c fl nxt []"
| fl_allocated: "fl_reach c fl nxt held \<Longrightarrow> jfs_fl_alloc fl nxt = (p, fl') \<Longrightarrow> p \<noteq> NULL \<Longrightarrow>
     fl_reach c fl' nxt (p # held)"
| fl_exhausted: "fl_reach c fl nxt held \<Longrightarrow> jfs_fl_alloc fl nxt = (NULL, fl') \<Longrightarrow>
     fl_reach c fl' nxt held"
| fl_freed: "fl_reach c fl nxt held \<Longrightarrow> p \<in> set held \<Longrightarrow> jfs_fl_free fl p nxt = (fl', nxt') \<Longrightarrow>
     fl_reach c fl' nxt' (remove1 p held)"
| fl_written: "fl_reach c fl nxt held \<Longrightarrow> p \<in> set held \<Longrightarrow> fl_reach c fl (nxt(p := v)) held"

lemma fl_reach_owned:
  assumes "fl_reach c fl nxt held" and "comp_fits c"
  shows "fl_pool.owned (fl, nxt) held (rev (component_objs c))"
  using assms(1)
proof (induction rule: fl_reach.induct)
  case (fl_start fl0 nxt0 fl nxt)
  then have "jfs_mlg_valid_component c" "MIN_OBJ_SIZE \<le> desc_size (comp_desc c)"
    by (auto simp: jfs_fl_init_def fl_link_memory_def c_assert_def split: if_splits)
  then obtain fl' nxt' where "jfs_fl_init fl0 c nxt0 JFS_OK = Some (fl', nxt', JFS_OK)"
    "fl_inv fl' nxt' (rev (component_objs c))"
    using fl_init_ok assms(2) by metis
  then show ?case using fl_start fl_pool.owned_start by simp
next
  case (fl_allocated fl nxt held p fl')
  then show ?case using fl_pool.owned_alloc [of "(fl, nxt)" held _ p "(fl', nxt)"] by simp
next
  case (fl_exhausted fl nxt held fl')
  then show ?case using fl_pool.owned_alloc [of "(fl, nxt)" held _ 0 "(fl', nxt)"] by simp
next
  case (fl_freed fl nxt held p fl' nxt')
  then show ?case using fl_pool.owned_release [of "(fl, nxt)" held _ p] by simp
next
  case (fl_written fl nxt held p v)
  then show ?case using fl_pool.owned_poke [of "(fl, nxt)" held _ p v] by (simp only: prod.case)
qed

text \<open>C7. In every state a client can reach, whatever it writes into the objects it holds, the
  objects it holds and those on the free list are together exactly the objects of the
  component, each once: no object is handed out twice or lost. The stored count is the
  number of free objects. The objects have room for a link (\<open>fl_reach\<close> starts with an initialisation
  that has a meaning, for objects of at least eight bytes).\<close>

theorem fl_no_loss_no_duplicates:
  assumes "comp_fits c" and "MIN_OBJ_SIZE \<le> desc_size (comp_desc c)" and "fl_reach c fl nxt held"
  shows "\<exists>free. heap_list nxt (fl_list fl) free \<and> unat (fl_count fl) = length free
     \<and> distinct (held @ free) \<and> mset (held @ free) = mset (component_objs c)"
proof -
  obtain free where "fl_inv fl nxt free" "distinct (held @ free)"
      "mset (held @ free) = mset (component_objs c)"
    using fl_reach_owned [OF assms(3,1)] by (auto simp: fl_pool.owned_def)
  then show ?thesis unfolding fl_inv_def by blast
qed

theorem fl_no_loss_no_duplicates_witness:
  "\<exists>fl nxt p q free. fl_reach \<lparr>comp_ptr = 4096, comp_desc = \<lparr>desc_size = 16, desc_align = 8,
       desc_count = 3\<rparr>\<rparr> fl nxt [p, q] \<and> p \<noteq> q \<and> heap_list nxt (fl_list fl) [free]"
proof -
  let ?c = "\<lparr>comp_ptr = 4096, comp_desc = \<lparr>desc_size = 16, desc_align = 8, desc_count = 3\<rparr>\<rparr>
    :: jfs_mlg_component"
  have fits: "comp_fits ?c" by (simp add: comp_fits_def desc_bytes_def)
  let ?nxt = "(\<lambda>_. 0)(4096 := 0, 4112 := 4096, 4128 := 4112) :: addr \<Rightarrow> addr"
  have "fl_reach ?c \<lparr>fl_list = 4128, fl_count = 3\<rparr> ?nxt []"
    by (rule fl_start [of "\<lparr>fl_list = 0, fl_count = 0\<rparr>" _ "\<lambda>_. 0"])
      (simp add: jfs_fl_init_def fl_link_memory_def MIN_OBJ_SIZE_def jfs_mlg_valid_component_def
        jfs_mlg_valid_desc_def jfs_mlg_valid_align_def Let_def)
  then have "fl_reach ?c \<lparr>fl_list = 4112, fl_count = 2\<rparr> ?nxt [4128]"
    by (rule fl_allocated) (simp_all add: jfs_fl_alloc_def)
  then have r: "fl_reach ?c \<lparr>fl_list = 4096, fl_count = 1\<rparr> ?nxt [4112, 4128]"
    by (rule fl_allocated) (simp_all add: jfs_fl_alloc_def)
  obtain free where free: "heap_list ?nxt 4096 free" "length free = 1" "distinct ([4112, 4128] @ free)"
    using fl_no_loss_no_duplicates [OF fits _ r] by (auto simp: MIN_OBJ_SIZE_def)
  then obtain x where "free = [x]" by (metis One_nat_def length_0_conv length_Suc_conv)
  then show ?thesis using r free by fastforce
qed



end
