(* ===== verification/Jfs_Bst.thy ===== *)
theory Jfs_Bst
  imports Jfs_Free_List
begin

text \<open>
  The binary search tree (\<open>src/src/modules/binary_search_tree.c\<close>,
  \<open>src/src/include/binary_search_tree.h\<close>): a red-black tree whose nodes are the objects of a
  memory component, with a sentinel \<open>nil\<close> node, parent pointers that carry the colour in
  their lowest bit, and a cache of the smallest, the largest and the previous node.

  The state is the struct together with the node fields as maps from addresses. The word
  \<open>parent_color\<close> is the first word of a node and is also the word through which the free list
  threads free nodes, so the free list operates on that map. The value of a node lives at
  \<open>value_offset\<close> behind it; a value is what the \<open>value_size\<close> bytes there hold, of an arbitrary type. The maps keep nodes and values
  apart, as memory does when an object has room for a node and a value; copying a value in a tree whose
  objects have no such room, where \<open>value_size\<close> has wrapped and nodes overlap, is \<open>None\<close>. The loops take fuel; \<open>None\<close> is a
  failed assertion, a call through a null function pointer, or fuel that ran out.

  The code calls \<open>tree->attach\<close> and \<open>tree->detach\<close>, which the struct does not have; they are
  arguments of the model.
\<close>

section \<open>Data\<close>

definition BST_RED :: uintptr where "BST_RED = 0"
definition BST_BLACK :: uintptr where "BST_BLACK = 1"

record ('k, 'v) jfs_bst =
  parent_color :: "addr \<Rightarrow> uintptr"
  bst_right :: "addr \<Rightarrow> addr"
  bst_left :: "addr \<Rightarrow> addr"
  bst_list :: "addr \<Rightarrow> addr"
  value_at :: "addr \<Rightarrow> 'v"
  root :: addr
  nil :: addr
  cache_smallest :: addr
  cache_largest :: addr
  cache_previous :: addr
  bst_cmp :: "('k \<Rightarrow> 'v \<Rightarrow> int) option"
  value_offset :: uintptr
  value_size :: size_t
  free_list :: jfs_fl

record ('k, 'v) jfs_bst_conf =
  conf_component :: jfs_mlg_component
  conf_cmp :: "('k \<Rightarrow> 'v \<Rightarrow> int) option"

record bst_location =
  loc_node :: addr
  loc_parent :: addr
  loc_parent_cmp :: int

text \<open>\<open>attach (base value, attached value)\<close>, and \<open>detach (base value)\<close> with the value it returns.\<close>

type_synonym ('k, 'v) bst_attach_fn = "addr \<Rightarrow> addr \<Rightarrow> ('k, 'v) jfs_bst \<Rightarrow> ('k, 'v) jfs_bst"
type_synonym ('k, 'v) bst_detach_fn = "addr \<Rightarrow> ('k, 'v) jfs_bst \<Rightarrow> addr \<times> ('k, 'v) jfs_bst"

section \<open>Parents and colours\<close>

definition bst_parent :: "('k, 'v) jfs_bst \<Rightarrow> addr \<Rightarrow> addr option" where
  "bst_parent t node = do { c_assert (node \<noteq> NULL); Some (parent_color t node AND NOT 1) }"

definition bst_set_parent :: "('k, 'v) jfs_bst \<Rightarrow> addr \<Rightarrow> addr \<Rightarrow> ('k, 'v) jfs_bst option" where
  "bst_set_parent t node parent = do {
     c_assert (node \<noteq> NULL);
     c_assert (parent \<noteq> NULL);
     Some (t\<lparr>parent_color := (parent_color t)(node := parent OR (parent_color t node AND 1))\<rparr>)
   }"

definition bst_color :: "('k, 'v) jfs_bst \<Rightarrow> addr \<Rightarrow> uintptr option" where
  "bst_color t node = do { c_assert (node \<noteq> NULL); Some (parent_color t node AND 1) }"

definition bst_set_color :: "('k, 'v) jfs_bst \<Rightarrow> addr \<Rightarrow> uintptr \<Rightarrow> ('k, 'v) jfs_bst option" where
  "bst_set_color t node color = do {
     c_assert (node \<noteq> NULL);
     c_assert (color = BST_RED \<or> color = BST_BLACK);
     Some (t\<lparr>parent_color := (parent_color t)(node := (parent_color t node AND NOT 1) OR color)\<rparr>)
   }"

definition bst_set_parent_color :: "('k, 'v) jfs_bst \<Rightarrow> addr \<Rightarrow> addr \<Rightarrow> uintptr \<Rightarrow> ('k, 'v) jfs_bst option" where
  "bst_set_parent_color t node parent color = do {
     c_assert (node \<noteq> NULL);
     c_assert (parent \<noteq> NULL);
     c_assert (color = BST_RED \<or> color = BST_BLACK);
     Some (t\<lparr>parent_color := (parent_color t)(node := parent OR color)\<rparr>)
   }"

definition set_left :: "('k, 'v) jfs_bst \<Rightarrow> addr \<Rightarrow> addr \<Rightarrow> ('k, 'v) jfs_bst" where
  "set_left t node p = t\<lparr>bst_left := (bst_left t)(node := p)\<rparr>"

definition set_right :: "('k, 'v) jfs_bst \<Rightarrow> addr \<Rightarrow> addr \<Rightarrow> ('k, 'v) jfs_bst" where
  "set_right t node p = t\<lparr>bst_right := (bst_right t)(node := p)\<rparr>"

section \<open>Rotations and transplanting\<close>

text \<open>\<open>if (x_parent == nil) root = y; else if (x == x_parent->left) ... else ...\<close>\<close>

definition bst_replace_child ::
  "('k, 'v) jfs_bst \<Rightarrow> addr \<Rightarrow> addr \<Rightarrow> addr \<Rightarrow> ('k, 'v) jfs_bst" where
  "bst_replace_child t x_parent x y =
     (if x_parent = nil t then t\<lparr>root := y\<rparr>
      else if x = bst_left t x_parent then set_left t x_parent y
      else set_right t x_parent y)"

definition bst_rotate_left :: "('k, 'v) jfs_bst \<Rightarrow> addr \<Rightarrow> ('k, 'v) jfs_bst option" where
  "bst_rotate_left t x = do {
     c_assert (x \<noteq> nil t);
     c_assert (bst_right t x \<noteq> nil t);
     let y = bst_right t x;
     x_parent \<leftarrow> bst_parent t x;
     let t = set_right t x (bst_left t y);
     t \<leftarrow> (if bst_left t y \<noteq> nil t then bst_set_parent t (bst_left t y) x else Some t);
     t \<leftarrow> bst_set_parent t y x_parent;
     let t = bst_replace_child t x_parent x y;
     let t = set_left t y x;
     bst_set_parent t x y
   }"

definition bst_rotate_right :: "('k, 'v) jfs_bst \<Rightarrow> addr \<Rightarrow> ('k, 'v) jfs_bst option" where
  "bst_rotate_right t x = do {
     c_assert (x \<noteq> nil t);
     c_assert (bst_left t x \<noteq> nil t);
     let y = bst_left t x;
     x_parent \<leftarrow> bst_parent t x;
     let t = set_left t x (bst_right t y);
     t \<leftarrow> (if bst_right t y \<noteq> nil t then bst_set_parent t (bst_right t y) x else Some t);
     t \<leftarrow> bst_set_parent t y x_parent;
     let t = bst_replace_child t x_parent x y;
     let t = set_right t y x;
     bst_set_parent t x y
   }"

definition bst_transplant :: "('k, 'v) jfs_bst \<Rightarrow> addr \<Rightarrow> addr \<Rightarrow> ('k, 'v) jfs_bst option" where
  "bst_transplant t old new = do {
     c_assert (root t \<noteq> nil t);
     c_assert (old \<noteq> new);
     old_parent \<leftarrow> bst_parent t old;
     let t = bst_replace_child t old_parent old new;
     bst_set_parent t new old_parent
   }"

fun bst_local_minimum :: "nat \<Rightarrow> ('k, 'v) jfs_bst \<Rightarrow> addr \<Rightarrow> addr option" where
  "bst_local_minimum 0 t start = None"
| "bst_local_minimum (Suc n) t start =
     (if bst_left t start \<noteq> nil t then bst_local_minimum n t (bst_left t start) else Some start)"

fun bst_local_maximum :: "nat \<Rightarrow> ('k, 'v) jfs_bst \<Rightarrow> addr \<Rightarrow> addr option" where
  "bst_local_maximum 0 t start = None"
| "bst_local_maximum (Suc n) t start =
     (if bst_right t start \<noteq> nil t then bst_local_maximum n t (bst_right t start) else Some start)"

section \<open>Values\<close>

definition bst_container_value :: "('k, 'v) jfs_bst \<Rightarrow> addr \<Rightarrow> addr option" where
  "bst_container_value t node = jfs_mlg_apply_offset node (value_offset t)"

definition bst_container_node :: "('k, 'v) jfs_bst \<Rightarrow> addr \<Rightarrow> addr" where
  "bst_container_node t v = v - value_offset t"

text \<open>
  \<open>value_offset + value_size\<close> is the size of an object, modulo \<open>2 ^ 64\<close>. A copy of \<open>value_size\<close> bytes at \<open>value_offset\<close> stays in
  its object when the sum does not wrap; and there is a value to copy when it is not empty.
\<close>

definition value_inside :: "('k, 'v) jfs_bst \<Rightarrow> bool" where
  "value_inside t \<longleftrightarrow> value_offset t < value_offset t + value_size t"

definition bst_pack_node :: "('k, 'v) jfs_bst \<Rightarrow> addr \<Rightarrow> 'v \<Rightarrow> (addr \<times> ('k, 'v) jfs_bst) option" where
  "bst_pack_node t node v = do {
     value_ptr \<leftarrow> bst_container_value t node;
     c_assert (value_inside t);
     Some (value_ptr, t\<lparr>value_at := (value_at t)(value_ptr := v)\<rparr>)
   }"

definition bst_unpack_node :: "('k, 'v) jfs_bst \<Rightarrow> addr \<Rightarrow> 'v option" where
  "bst_unpack_node t node = do {
     value_ptr \<leftarrow> bst_container_value t node;
     c_assert (value_inside t);
     Some (value_at t value_ptr)
   }"

definition bst_attach_node :: "('k, 'v) jfs_bst \<Rightarrow> addr \<Rightarrow> addr \<Rightarrow> ('k, 'v) jfs_bst" where
  "bst_attach_node t base_node attach_node =
     (let t = t\<lparr>bst_list := (bst_list t)(attach_node := bst_list t base_node)\<rparr>
      in t\<lparr>bst_list := (bst_list t)(base_node := attach_node)\<rparr>)"

definition bst_detach_node :: "('k, 'v) jfs_bst \<Rightarrow> addr \<Rightarrow> addr \<times> ('k, 'v) jfs_bst" where
  "bst_detach_node t base_node =
     (if bst_list t base_node = NULL then (base_node, t)
      else let ret = bst_list t base_node
           in (ret, t\<lparr>bst_list := (bst_list t)(base_node := bst_list t (bst_list t base_node))\<rparr>))"

text \<open>\<open>tree->cmp (key, value of node)\<close>\<close>

definition bst_compare :: "('k, 'v) jfs_bst \<Rightarrow> 'k \<Rightarrow> addr \<Rightarrow> int option" where
  "bst_compare t key node = do {
     node_value \<leftarrow> bst_container_value t node;
     cmp \<leftarrow> bst_cmp t;
     Some (cmp key (value_at t node_value))
   }"

section \<open>Searching\<close>

definition bst_check_cache :: "('k, 'v) jfs_bst \<Rightarrow> 'k \<Rightarrow> addr option" where
  "bst_check_cache t key = do {
     hit \<leftarrow> (if cache_previous t \<noteq> nil t
             then do { c \<leftarrow> bst_compare t key (cache_previous t); Some (c = 0) } else Some False);
     if hit then Some (cache_previous t)
     else do {
       hit \<leftarrow> (if cache_largest t \<noteq> nil t
               then do { c \<leftarrow> bst_compare t key (cache_largest t); Some (c = 0) } else Some False);
       if hit then Some (cache_largest t)
       else do {
         hit \<leftarrow> (if cache_smallest t \<noteq> nil t
                 then do { c \<leftarrow> bst_compare t key (cache_smallest t); Some (c = 0) } else Some False);
         if hit then Some (cache_smallest t) else Some (nil t)
       }
     }
   }"

fun bst_find_loop :: "nat \<Rightarrow> ('k, 'v) jfs_bst \<Rightarrow> 'k \<Rightarrow> bst_location \<Rightarrow> bst_location option" where
  "bst_find_loop 0 t key location = None"
| "bst_find_loop (Suc n) t key location =
     (if loc_node location = nil t then Some location
      else do {
        cmp_result \<leftarrow> bst_compare t key (loc_node location);
        if cmp_result = 0 then Some location
        else do {
          let location = location\<lparr>loc_parent := loc_node location, loc_parent_cmp := cmp_result\<rparr>;
          if cmp_result < 0
          then bst_find_loop n t key (location\<lparr>loc_node := bst_left t (loc_node location)\<rparr>)
          else bst_find_loop n t key (location\<lparr>loc_node := bst_right t (loc_node location)\<rparr>)
        }
      })"

definition bst_find :: "nat \<Rightarrow> ('k, 'v) jfs_bst \<Rightarrow> 'k \<Rightarrow> bst_location option" where
  "bst_find fuel t key =
     bst_find_loop fuel t key \<lparr>loc_node = root t, loc_parent = nil t, loc_parent_cmp = 0\<rparr>"

section \<open>Insertion\<close>

fun bst_fixup_insert_loop :: "nat \<Rightarrow> ('k, 'v) jfs_bst \<Rightarrow> addr \<Rightarrow> ('k, 'v) jfs_bst option" where
  "bst_fixup_insert_loop 0 t node = None"
| "bst_fixup_insert_loop (Suc n) t node = do {
     parent \<leftarrow> bst_parent t node;
     parent_col \<leftarrow> bst_color t parent;
     if parent_col \<noteq> BST_RED then Some t
     else do {
       grandparent \<leftarrow> bst_parent t parent;
       c_assert (grandparent \<noteq> nil t);
       if parent = bst_left t grandparent then do {
         let uncle = bst_right t grandparent;
         uncle_col \<leftarrow> bst_color t uncle;
         if uncle_col = BST_RED then do {
           t \<leftarrow> bst_set_color t parent BST_BLACK;
           t \<leftarrow> bst_set_color t uncle BST_BLACK;
           t \<leftarrow> bst_set_color t grandparent BST_RED;
           bst_fixup_insert_loop n t grandparent
         } else do {
           (t, parent) \<leftarrow>
             (if node = bst_right t parent then do {
                let node = parent;
                t \<leftarrow> bst_rotate_left t parent;
                parent \<leftarrow> bst_parent t node;
                Some (t, parent)
              } else Some (t, parent));
           t \<leftarrow> bst_set_color t parent BST_BLACK;
           t \<leftarrow> bst_set_color t grandparent BST_RED;
           bst_rotate_right t grandparent
         }
       } else do {
         let uncle = bst_left t grandparent;
         uncle_col \<leftarrow> bst_color t uncle;
         if uncle_col = BST_RED then do {
           t \<leftarrow> bst_set_color t parent BST_BLACK;
           t \<leftarrow> bst_set_color t uncle BST_BLACK;
           t \<leftarrow> bst_set_color t grandparent BST_RED;
           bst_fixup_insert_loop n t grandparent
         } else do {
           (t, parent) \<leftarrow>
             (if node = bst_left t parent then do {
                let node = parent;
                t \<leftarrow> bst_rotate_right t parent;
                parent \<leftarrow> bst_parent t node;
                Some (t, parent)
              } else Some (t, parent));
           t \<leftarrow> bst_set_color t parent BST_BLACK;
           t \<leftarrow> bst_set_color t grandparent BST_RED;
           bst_rotate_left t grandparent
         }
       }
     }
   }"

definition bst_fixup_insert :: "nat \<Rightarrow> ('k, 'v) jfs_bst \<Rightarrow> addr \<Rightarrow> ('k, 'v) jfs_bst option" where
  "bst_fixup_insert fuel t node = do {
     c_assert (node \<noteq> nil t);
     c_assert (root t \<noteq> nil t);
     col \<leftarrow> bst_color t node;
     c_assert (col = BST_RED);
     t \<leftarrow> bst_fixup_insert_loop fuel t node;
     bst_set_color t (root t) BST_BLACK
   }"

definition bst_insert :: "nat \<Rightarrow> ('k, 'v) jfs_bst \<Rightarrow> addr \<Rightarrow> bst_location \<Rightarrow> ('k, 'v) jfs_bst option" where
  "bst_insert fuel t node location = do {
     c_assert (loc_node location = nil t);
     let t = set_left t node (nil t);
     let t = set_right t node (nil t);
     t \<leftarrow> bst_set_parent_color t node (loc_parent location) BST_RED;
     t \<leftarrow> (if loc_parent location = nil t then do {
              c_assert (root t = nil t);
              Some (t\<lparr>root := node\<rparr>)
            } else do {
              c_assert (loc_parent_cmp location \<noteq> 0);
              if loc_parent_cmp location = -1 then Some (set_left t (loc_parent location) node)
              else Some (set_right t (loc_parent location) node)
            });
     bst_fixup_insert fuel t node
   }"

definition bst_update_cache_insert :: "('k, 'v) jfs_bst \<Rightarrow> bst_location \<Rightarrow> ('k, 'v) jfs_bst" where
  "bst_update_cache_insert t location =
     (if loc_parent_cmp location = -1 \<and> loc_parent location = cache_smallest t
      then t\<lparr>cache_smallest := bst_left t (loc_parent location)\<rparr>
      else if loc_parent_cmp location = 1 \<and> loc_parent location = cache_largest t
      then t\<lparr>cache_largest := bst_right t (loc_parent location)\<rparr>
      else if cache_largest t = nil t then t\<lparr>cache_largest := root t, cache_smallest := root t\<rparr>
      else t)"

section \<open>Deletion\<close>

fun bst_fixup_delete_loop :: "nat \<Rightarrow> ('k, 'v) jfs_bst \<Rightarrow> addr \<Rightarrow> (addr \<times> ('k, 'v) jfs_bst) option" where
  "bst_fixup_delete_loop 0 t node = None"
| "bst_fixup_delete_loop (Suc n) t node = do {
     stop \<leftarrow> (if node = root t then Some True else do { c \<leftarrow> bst_color t node; Some (c \<noteq> BST_BLACK) });
     if stop then Some (node, t)
     else do {
       parent \<leftarrow> bst_parent t node;
       if node = bst_left t parent then do {
         let sibling = bst_right t parent;
         c \<leftarrow> bst_color t sibling;
         (t, sibling) \<leftarrow>
           (if c = BST_RED then do {
              t \<leftarrow> bst_set_color t sibling BST_BLACK;
              t \<leftarrow> bst_set_color t parent BST_RED;
              t \<leftarrow> bst_rotate_left t parent;
              Some (t, bst_right t parent)
            } else Some (t, sibling));
         near \<leftarrow> bst_color t (bst_left t sibling);
         both_black \<leftarrow> (if near = BST_BLACK
           then do { far \<leftarrow> bst_color t (bst_right t sibling); Some (far = BST_BLACK) } else Some False);
         if both_black then do {
           t \<leftarrow> bst_set_color t sibling BST_RED;
           bst_fixup_delete_loop n t parent
         } else do {
           far \<leftarrow> bst_color t (bst_right t sibling);
           (t, sibling) \<leftarrow>
             (if far = BST_BLACK then do {
                t \<leftarrow> bst_set_color t (bst_left t sibling) BST_BLACK;
                t \<leftarrow> bst_set_color t sibling BST_RED;
                t \<leftarrow> bst_rotate_right t sibling;
                Some (t, bst_right t parent)
              } else Some (t, sibling));
           parent_col \<leftarrow> bst_color t parent;
           t \<leftarrow> bst_set_color t sibling parent_col;
           t \<leftarrow> bst_set_color t parent BST_BLACK;
           t \<leftarrow> bst_set_color t (bst_right t sibling) BST_BLACK;
           t \<leftarrow> bst_rotate_left t parent;
           bst_fixup_delete_loop n t (root t)
         }
       } else do {
         let sibling = bst_left t parent;
         c \<leftarrow> bst_color t sibling;
         (t, sibling) \<leftarrow>
           (if c = BST_RED then do {
              t \<leftarrow> bst_set_color t sibling BST_BLACK;
              t \<leftarrow> bst_set_color t parent BST_RED;
              t \<leftarrow> bst_rotate_right t parent;
              Some (t, bst_left t parent)
            } else Some (t, sibling));
         far \<leftarrow> bst_color t (bst_left t sibling);
         both_black \<leftarrow> (if far = BST_BLACK
           then do { near \<leftarrow> bst_color t (bst_right t sibling); Some (near = BST_BLACK) } else Some False);
         if both_black then do {
           t \<leftarrow> bst_set_color t sibling BST_RED;
           bst_fixup_delete_loop n t parent
         } else do {
           far \<leftarrow> bst_color t (bst_left t sibling);
           (t, sibling) \<leftarrow>
             (if far = BST_BLACK then do {
                t \<leftarrow> bst_set_color t (bst_right t sibling) BST_BLACK;
                t \<leftarrow> bst_set_color t sibling BST_RED;
                t \<leftarrow> bst_rotate_left t sibling;
                Some (t, bst_left t parent)
              } else Some (t, sibling));
           parent_col \<leftarrow> bst_color t parent;
           t \<leftarrow> bst_set_color t sibling parent_col;
           t \<leftarrow> bst_set_color t parent BST_BLACK;
           t \<leftarrow> bst_set_color t (bst_left t sibling) BST_BLACK;
           t \<leftarrow> bst_rotate_right t parent;
           bst_fixup_delete_loop n t (root t)
         }
       }
     }
   }"

definition bst_fixup_delete :: "nat \<Rightarrow> ('k, 'v) jfs_bst \<Rightarrow> addr \<Rightarrow> ('k, 'v) jfs_bst option" where
  "bst_fixup_delete fuel t node = do {
     (node, t) \<leftarrow> bst_fixup_delete_loop fuel t node;
     bst_set_color t node BST_BLACK
   }"

definition bst_delete :: "nat \<Rightarrow> ('k, 'v) jfs_bst \<Rightarrow> addr \<Rightarrow> ('k, 'v) jfs_bst option" where
  "bst_delete fuel t node = do {
     c_assert (node \<noteq> nil t);
     deleted_color \<leftarrow> bst_color t node;
     (t, replacement, deleted_color) \<leftarrow>
       (if bst_left t node = nil t then do {
          let replacement = bst_right t node;
          t \<leftarrow> bst_transplant t node (bst_right t node);
          Some (t, replacement, deleted_color)
        } else if bst_right t node = nil t then do {
          let replacement = bst_left t node;
          t \<leftarrow> bst_transplant t node (bst_left t node);
          Some (t, replacement, deleted_color)
        } else do {
          next_largest \<leftarrow> bst_local_minimum fuel t (bst_right t node);
          deleted_color \<leftarrow> bst_color t next_largest;
          let replacement = bst_right t next_largest;
          t \<leftarrow> (if next_largest \<noteq> bst_right t node then do {
                   t \<leftarrow> bst_transplant t next_largest (bst_right t next_largest);
                   let t = set_right t next_largest (bst_right t node);
                   bst_set_parent t (bst_right t next_largest) next_largest
                 } else bst_set_parent t replacement next_largest);
          t \<leftarrow> bst_transplant t node next_largest;
          let t = set_left t next_largest (bst_left t node);
          t \<leftarrow> bst_set_parent t (bst_left t next_largest) next_largest;
          node_col \<leftarrow> bst_color t node;
          t \<leftarrow> bst_set_color t next_largest node_col;
          Some (t, replacement, deleted_color)
        });
     if deleted_color = BST_BLACK then bst_fixup_delete fuel t replacement else Some t
   }"

definition bst_update_cache_delete :: "nat \<Rightarrow> ('k, 'v) jfs_bst \<Rightarrow> addr \<Rightarrow> ('k, 'v) jfs_bst option" where
  "bst_update_cache_delete fuel t node =
     (if cache_smallest t = cache_largest t then do {
        c_assert (node = root t);
        Some (t\<lparr>cache_smallest := nil t, cache_largest := nil t\<rparr>)
      } else if node = cache_smallest t then do {
        c_assert (bst_left t (cache_smallest t) = nil t);
        if bst_right t (cache_smallest t) \<noteq> nil t then do {
          m \<leftarrow> bst_local_minimum fuel t (bst_right t (cache_smallest t));
          Some (t\<lparr>cache_smallest := m\<rparr>)
        } else do {
          p \<leftarrow> bst_parent t (cache_smallest t);
          Some (t\<lparr>cache_smallest := p\<rparr>)
        }
      } else if node = cache_largest t then do {
        c_assert (bst_right t (cache_largest t) = nil t);
        if bst_left t (cache_largest t) \<noteq> nil t then do {
          m \<leftarrow> bst_local_maximum fuel t (bst_left t (cache_largest t));
          Some (t\<lparr>cache_largest := m\<rparr>)
        } else do {
          p \<leftarrow> bst_parent t (cache_largest t);
          Some (t\<lparr>cache_largest := p\<rparr>)
        }
      } else Some t)"

definition bst_free_node :: "('k, 'v) jfs_bst \<Rightarrow> addr \<Rightarrow> ('k, 'v) jfs_bst" where
  "bst_free_node t node =
     (let (fl, pc) = jfs_fl_free (free_list t) node (parent_color t)
      in t\<lparr>free_list := fl, parent_color := pc\<rparr>)"

definition bst_detach_and_delete ::
  "nat \<Rightarrow> ('k, 'v) bst_detach_fn \<Rightarrow> ('k, 'v) jfs_bst \<Rightarrow> addr \<Rightarrow> ('v \<times> ('k, 'v) jfs_bst) option" where
  "bst_detach_and_delete fuel detach t node = do {
     c_assert (root t \<noteq> nil t);
     node_value \<leftarrow> bst_container_value t node;
     let (detach_value, t) = detach node_value t;
     c_assert (value_inside t);
     let value_out = value_at t detach_value;
     if detach_value = node_value then do {
       t \<leftarrow> bst_delete fuel t node;
       t \<leftarrow> bst_update_cache_delete fuel t node;
       Some (value_out, bst_free_node t node)
     } else do {
       let detach_node = bst_container_node t detach_value;
       Some (value_out, bst_free_node t detach_node)
     }
   }"

section \<open>The public operations\<close>

text \<open>\<open>sizeof\<close> and \<open>alignof\<close> of \<open>jfs_bst_node_t\<close> on a 64-bit target.\<close>

definition bst_node_desc :: jfs_mlg_desc where
  "bst_node_desc = \<lparr>desc_size = 32, desc_align = 8, desc_count = 1\<rparr>"

definition jfs_bst_make_desc ::
  "size_t \<Rightarrow> size_t \<Rightarrow> size_t \<Rightarrow> jfs_err_t \<Rightarrow> (jfs_mlg_desc \<times> jfs_err_t) option" where
  "jfs_bst_make_desc obj_size obj_align obj_count err = do {
     c_assert (jfs_mlg_valid_desc bst_node_desc);
     let obj_desc = \<lparr>desc_size = obj_size, desc_align = obj_align, desc_count = obj_count\<rparr>;
     if \<not> jfs_mlg_valid_desc obj_desc
     then Some (\<lparr>desc_size = 0, desc_align = 0, desc_count = 0\<rparr>, JFS_ERR_ARG)
     else do {
       (_, node_desc) \<leftarrow> jfs_mlg_append bst_node_desc obj_desc;
       Some (node_desc, err)
     }
   }"

text \<open>\<open>nil_storage\<close> is the address of the member of that name.\<close>

definition jfs_bst_init ::
  "addr \<Rightarrow> ('k, 'v) jfs_bst \<Rightarrow> ('k, 'v) jfs_bst_conf \<Rightarrow> jfs_err_t \<Rightarrow> (('k, 'v) jfs_bst \<times> jfs_err_t) option" where
  "jfs_bst_init nil_storage t conf err =
     do {
       (fl, pc, err) \<leftarrow> jfs_fl_init (free_list t) (conf_component conf) (parent_color t) err;
       let t = t\<lparr>free_list := fl, parent_color := pc\<rparr>;
       if err \<noteq> JFS_OK then Some (t, err)
       else do {
        let t = t\<lparr>nil := nil_storage\<rparr>;
        let t = set_left t (nil t) (nil t);
        let t = set_right t (nil t) (nil t);
        t \<leftarrow> bst_set_parent_color t (nil t) (nil t) BST_BLACK;
        let t = t\<lparr>cache_largest := nil t, cache_smallest := nil t, cache_previous := nil t, root := nil t\<rparr>;
        off \<leftarrow> jfs_mlg_align_size 32 (desc_align (comp_desc (conf_component conf)));
        let t = t\<lparr>value_offset := off, value_size := desc_size (comp_desc (conf_component conf)) - off,
                  bst_cmp := conf_cmp conf\<rparr>;
        if bst_cmp t = None then Some (t, JFS_ERR_BAD_CONF) else Some (t, err)
       }
     }"

definition jfs_bst_puts ::
  "nat \<Rightarrow> ('k, 'v) bst_attach_fn \<Rightarrow> ('k, 'v) jfs_bst \<Rightarrow> 'v \<Rightarrow> 'k \<Rightarrow> jfs_err_t
     \<Rightarrow> (('k, 'v) jfs_bst \<times> jfs_err_t) option" where
  "jfs_bst_puts fuel attach t v key err =
     (if fl_count (free_list t) = 0 then Some (t, JFS_ERR_FULL)
      else do {
        let (node, fl) = jfs_fl_alloc (free_list t) (parent_color t);
        let t = t\<lparr>free_list := fl\<rparr>;
        (packed_value, t) \<leftarrow> bst_pack_node t node v;
        cached_node \<leftarrow> bst_check_cache t key;
        if cached_node \<noteq> nil t then do {
          cached_value \<leftarrow> bst_container_value t cached_node;
          let t = attach cached_value packed_value t;
          Some (t\<lparr>cache_previous := cached_node\<rparr>, err)
        } else do {
          location \<leftarrow> bst_find fuel t key;
          t \<leftarrow> (if loc_node location \<noteq> nil t then do {
                   node_value \<leftarrow> bst_container_value t (loc_node location);
                   Some (attach node_value packed_value t)
                 } else do {
                   t \<leftarrow> bst_insert fuel t node location;
                   Some (bst_update_cache_insert t location)
                 });
          Some (t\<lparr>cache_previous := node\<rparr>, err)
        }
      })"

text \<open>The value written to \<open>value_out\<close> is \<open>None\<close> when nothing is written.\<close>

definition jfs_bst_takes ::
  "nat \<Rightarrow> ('k, 'v) bst_detach_fn \<Rightarrow> ('k, 'v) jfs_bst \<Rightarrow> 'k \<Rightarrow> jfs_err_t
     \<Rightarrow> ('v option \<times> ('k, 'v) jfs_bst \<times> jfs_err_t) option" where
  "jfs_bst_takes fuel detach t key err =
     (if root t = nil t then Some (None, t, JFS_ERR_EMPTY)
      else do {
        cached_node \<leftarrow> bst_check_cache t key;
        if cached_node \<noteq> nil t then do {
          v \<leftarrow> bst_unpack_node t cached_node;
          Some (Some v, t, err)
        } else do {
          location \<leftarrow> bst_find fuel t key;
          if loc_node location = nil t then Some (None, t, JFS_ERR_BST_BAD_KEY)
          else do {
            (v, t) \<leftarrow> bst_detach_and_delete fuel detach t (loc_node location);
            Some (Some v, t, err)
          }
        }
      })"

definition jfs_bst_get_largest ::
  "nat \<Rightarrow> ('k, 'v) bst_detach_fn \<Rightarrow> ('k, 'v) jfs_bst \<Rightarrow> jfs_err_t
     \<Rightarrow> ('v option \<times> ('k, 'v) jfs_bst \<times> jfs_err_t) option" where
  "jfs_bst_get_largest fuel detach t err =
     (if cache_largest t = nil t then Some (None, t, JFS_ERR_EMPTY)
      else do {
        (v, t) \<leftarrow> bst_detach_and_delete fuel detach t (cache_largest t);
        Some (Some v, t, err)
      })"

definition jfs_bst_get_smallest ::
  "nat \<Rightarrow> ('k, 'v) bst_detach_fn \<Rightarrow> ('k, 'v) jfs_bst \<Rightarrow> jfs_err_t
     \<Rightarrow> ('v option \<times> ('k, 'v) jfs_bst \<times> jfs_err_t) option" where
  "jfs_bst_get_smallest fuel detach t err =
     (if cache_smallest t = nil t then Some (None, t, JFS_ERR_EMPTY)
      else do {
        (v, t) \<leftarrow> bst_detach_and_delete fuel detach t (cache_smallest t);
        Some (Some v, t, err)
      })"

end
