(* ===== verification/Jfs_Bst_Shape.thy ===== *)
theory Jfs_Bst_Shape
  imports Jfs_Bst
begin

text \<open>
  Red-black trees in the heap. \<open>tree_rep t p q T\<close> says that from the pointer \<open>p\<close>, whose parent is
  \<open>q\<close>, the node fields of \<open>t\<close> form the tree \<open>T\<close>; \<open>ctx_rep\<close> says the same of the path from a subtree to
  the root, with the siblings on the way, and \<open>zip_rep\<close> of both. The rotations are described on
  this zipper, and the loop of the insertion fix-up refines a function \<open>fix_ins\<close> on trees and paths.
\<close>

section \<open>Words that carry a parent and a colour\<close>

datatype color = Red | Black

fun cw :: "color \<Rightarrow> uintptr" where
  "cw Red = BST_RED"
| "cw Black = BST_BLACK"

definition good :: "addr \<Rightarrow> bool" where
  "good a \<longleftrightarrow> a \<noteq> NULL \<and> a AND 1 = 0"

definition par :: "('k, 'v) jfs_bst \<Rightarrow> addr \<Rightarrow> addr" where
  "par t a = parent_color t a AND NOT 1"

definition col :: "('k, 'v) jfs_bst \<Rightarrow> addr \<Rightarrow> uintptr" where
  "col t a = parent_color t a AND 1"

lemma cw_inj [simp]: "cw c = cw d \<longleftrightarrow> c = d"
  by (cases c; cases d) (simp_all add: BST_RED_def BST_BLACK_def)

lemma cw_color [simp]: "cw c = BST_RED \<longleftrightarrow> c = Red" "cw c = BST_BLACK \<longleftrightarrow> c = Black"
  "BST_RED = cw c \<longleftrightarrow> c = Red" "BST_BLACK = cw c \<longleftrightarrow> c = Black"
  by (cases c; simp add: BST_RED_def BST_BLACK_def)+

lemma color_neq [simp]: "c \<noteq> Red \<longleftrightarrow> c = Black" "c \<noteq> Black \<longleftrightarrow> c = Red"
  by (cases c; simp)+

lemma bit1_word: "bit (1 :: 64 word) n \<longleftrightarrow> n = 0"
  by (simp add: bit_1_iff)

lemma join_parent: "good p \<Longrightarrow> (p OR (x AND 1)) AND NOT 1 = p"
  by (rule bit_word_eqI) (auto simp: good_def bit_simps bit1_word intro!: gr0I dest!: arg_cong [where f = "\<lambda>w. bit w 0"])

lemma join_color: "good p \<Longrightarrow> (p OR (x AND 1)) AND 1 = x AND 1"
  by (rule bit_word_eqI) (auto simp: good_def bit_simps bit1_word dest!: arg_cong [where f = "\<lambda>w. bit w 0"])

lemma join_cw: "p OR cw c = p OR (cw c AND 1)" "cw c AND 1 = cw c"
  by (cases c; simp add: BST_RED_def BST_BLACK_def)+

lemma paint_parent: "((x AND NOT 1) OR cw c) AND NOT 1 = x AND NOT (1 :: 64 word)"
  by (cases c; rule bit_word_eqI) (auto simp: bit_simps bit1_word BST_RED_def BST_BLACK_def)

lemma paint_color: "((x AND NOT 1) OR cw c) AND 1 = (cw c :: 64 word)"
  by (cases c; rule bit_word_eqI) (auto simp: bit_simps bit1_word BST_RED_def BST_BLACK_def)

lemma good_nonnull [simp]: "good a \<Longrightarrow> a \<noteq> 0"
  by (simp add: good_def)

text \<open>The accessors and the setters as total functions, on addresses of nodes.\<close>

definition upd_par :: "addr \<Rightarrow> addr \<Rightarrow> ('k, 'v) jfs_bst \<Rightarrow> ('k, 'v) jfs_bst" where
  "upd_par a p t = t\<lparr>parent_color := (parent_color t)(a := p OR (parent_color t a AND 1))\<rparr>"

definition upd_col :: "addr \<Rightarrow> color \<Rightarrow> ('k, 'v) jfs_bst \<Rightarrow> ('k, 'v) jfs_bst" where
  "upd_col a c t = t\<lparr>parent_color := (parent_color t)(a := (parent_color t a AND NOT 1) OR cw c)\<rparr>"

lemma bst_parent_eq [simp]: "good a \<Longrightarrow> bst_parent t a = Some (par t a)"
  by (simp add: bst_parent_def par_def)

lemma bst_color_eq [simp]: "good a \<Longrightarrow> bst_color t a = Some (col t a)"
  by (simp add: bst_color_def col_def)

lemma bst_set_parent_eq [simp]: "good a \<Longrightarrow> good p \<Longrightarrow> bst_set_parent t a p = Some (upd_par a p t)"
  by (simp add: bst_set_parent_def upd_par_def)

lemma bst_set_color_eq [simp]: "good a \<Longrightarrow> bst_set_color t a (cw c) = Some (upd_col a c t)"
  by (cases c) (simp_all add: bst_set_color_def upd_col_def)

lemma bst_set_red [simp]: "good a \<Longrightarrow> bst_set_color t a BST_RED = Some (upd_col a Red t)"
  using bst_set_color_eq [of a t Red] by simp

lemma bst_set_black [simp]: "good a \<Longrightarrow> bst_set_color t a BST_BLACK = Some (upd_col a Black t)"
  using bst_set_color_eq [of a t Black] by simp

lemma par_upd_par [simp]: "good p \<Longrightarrow> par (upd_par a p t) = (par t)(a := p)"
  using join_parent [of p "parent_color t a"] by (auto simp: fun_eq_iff par_def upd_par_def)

lemma par_upd_col [simp]: "par (upd_col a c t) = par t"
  using paint_parent [of "parent_color t a" c] by (auto simp: fun_eq_iff par_def upd_col_def)

lemma col_upd_par [simp]: "good p \<Longrightarrow> col (upd_par a p t) = col t"
  using join_color [of p "parent_color t a"] by (auto simp: fun_eq_iff col_def upd_par_def)

lemma col_upd_col [simp]: "col (upd_col a c t) = (col t)(a := cw c)"
  using paint_color [of "parent_color t a" c] by (auto simp: fun_eq_iff col_def upd_col_def)

lemma par_col_other [simp]:
  "par (set_left t a p) = par t" "par (set_right t a p) = par t" "par (t\<lparr>root := p\<rparr>) = par t"
  "col (set_left t a p) = col t" "col (set_right t a p) = col t" "col (t\<lparr>root := p\<rparr>) = col t"
  by (auto simp: fun_eq_iff par_def col_def set_left_def set_right_def)

lemma left_upd [simp]:
  "bst_left (upd_par a p t) = bst_left t" "bst_left (upd_col a c t) = bst_left t"
  "bst_left (set_left t a p) = (bst_left t)(a := p)" "bst_left (set_right t a p) = bst_left t"
  by (auto simp: upd_par_def upd_col_def set_left_def set_right_def)

lemma right_upd [simp]:
  "bst_right (upd_par a p t) = bst_right t" "bst_right (upd_col a c t) = bst_right t"
  "bst_right (set_left t a p) = bst_right t" "bst_right (set_right t a p) = (bst_right t)(a := p)"
  by (auto simp: upd_par_def upd_col_def set_left_def set_right_def)

lemma root_upd [simp]:
  "root (upd_par a p t) = root t" "root (upd_col a c t) = root t"
  "root (set_left t a p) = root t" "root (set_right t a p) = root t"
  by (auto simp: upd_par_def upd_col_def set_left_def set_right_def)

lemma nil_upd [simp]:
  "nil (upd_par a p t) = nil t" "nil (upd_col a c t) = nil t"
  "nil (set_left t a p) = nil t" "nil (set_right t a p) = nil t"
  by (auto simp: upd_par_def upd_col_def set_left_def set_right_def)

section \<open>Trees in the heap\<close>

datatype rbt = Lf | Nd rbt addr color rbt

fun inorder :: "rbt \<Rightarrow> addr list" where
  "inorder Lf = []"
| "inorder (Nd l a c r) = inorder l @ a # inorder r"

fun tree_rep :: "('k, 'v) jfs_bst \<Rightarrow> addr \<Rightarrow> addr \<Rightarrow> rbt \<Rightarrow> bool" where
  "tree_rep t p q Lf \<longleftrightarrow> p = nil t"
| "tree_rep t p q (Nd l a c r) \<longleftrightarrow> p = a \<and> a \<noteq> nil t \<and> good a \<and> par t a = q \<and> col t a = cw c \<and>
     tree_rep t (bst_left t a) a l \<and> tree_rep t (bst_right t a) a r"

lemma tree_rep_cong:
  assumes "nil t' = nil t"
    and "\<And>a. a \<in> set (inorder T) \<Longrightarrow> par t' a = par t a \<and> col t' a = col t a \<and>
      bst_left t' a = bst_left t a \<and> bst_right t' a = bst_right t a"
  shows "tree_rep t' p q T = tree_rep t p q T"
  using assms(2)
proof (induction T arbitrary: p q)
  case Lf
  then show ?case using assms(1) by simp
next
  case (Nd l a c r)
  have "tree_rep t' x y l = tree_rep t x y l" "tree_rep t' x y r = tree_rep t x y r" for x y
    using Nd by simp_all
  then show ?case using Nd.prems [of a] assms(1) by simp
qed

lemma tree_rep_root: "tree_rep t p q T \<Longrightarrow> p = (case T of Lf \<Rightarrow> nil t | Nd l a c r \<Rightarrow> a)"
  by (cases T) auto

lemma tree_rep_nonnil: "tree_rep t p q T \<Longrightarrow> a \<in> set (inorder T) \<Longrightarrow> a \<noteq> nil t \<and> good a"
  by (induction T arbitrary: p q) auto

lemma tree_rep_parent: "tree_rep t p q T \<Longrightarrow> T \<noteq> Lf \<Longrightarrow> par t p = q"
  by (cases T) auto

lemma tree_rep_in: "tree_rep t p q T \<Longrightarrow> p = nil t \<or> p \<in> set (inorder T)"
  by (cases T) auto

text \<open>The path from a node to the root: \<open>LF\<close> when the hole is the left child.\<close>

datatype frame = LF addr color rbt | RF rbt addr color

fun ctx_addrs :: "frame list \<Rightarrow> addr list" where
  "ctx_addrs [] = []"
| "ctx_addrs (LF a c r # C) = a # inorder r @ ctx_addrs C"
| "ctx_addrs (RF l a c # C) = a # inorder l @ ctx_addrs C"

fun plug :: "rbt \<Rightarrow> frame list \<Rightarrow> rbt" where
  "plug T [] = T"
| "plug T (LF a c r # C) = plug (Nd T a c r) C"
| "plug T (RF l a c # C) = plug (Nd l a c T) C"

fun ctx_rep :: "('k, 'v) jfs_bst \<Rightarrow> addr \<Rightarrow> addr \<Rightarrow> frame list \<Rightarrow> bool" where
  "ctx_rep t p q [] \<longleftrightarrow> root t = p \<and> q = nil t"
| "ctx_rep t p q (LF a c r # C) \<longleftrightarrow> q = a \<and> a \<noteq> nil t \<and> good a \<and> bst_left t a = p \<and> col t a = cw c \<and>
     tree_rep t (bst_right t a) a r \<and> ctx_rep t a (par t a) C"
| "ctx_rep t p q (RF l a c # C) \<longleftrightarrow> q = a \<and> a \<noteq> nil t \<and> good a \<and> bst_right t a = p \<and> col t a = cw c \<and>
     tree_rep t (bst_left t a) a l \<and> ctx_rep t a (par t a) C"

lemma ctx_rep_cong:
  assumes "nil t' = nil t" and "root t' = root t"
    and "\<And>a. a \<in> set (ctx_addrs C) \<Longrightarrow> par t' a = par t a \<and> col t' a = col t a \<and>
      bst_left t' a = bst_left t a \<and> bst_right t' a = bst_right t a"
  shows "ctx_rep t' p q C = ctx_rep t p q C"
  using assms(3)
proof (induction C arbitrary: p q)
  case Nil
  then show ?case using assms(1,2) by simp
next
  case (Cons f C)
  show ?case
  proof (cases f)
    case (LF a c r)
    have "tree_rep t' x y r = tree_rep t x y r" for x y using Cons.prems LF by (intro tree_rep_cong [OF assms(1)]) simp
    moreover have "ctx_rep t' x y C = ctx_rep t x y C" for x y using Cons LF by simp
    ultimately show ?thesis using Cons.prems [of a] LF assms(1) by simp
  next
    case (RF l a c)
    have "tree_rep t' x y l = tree_rep t x y l" for x y using Cons.prems RF by (intro tree_rep_cong [OF assms(1)]) simp
    moreover have "ctx_rep t' x y C = ctx_rep t x y C" for x y using Cons RF by simp
    ultimately show ?thesis using Cons.prems [of a] RF assms(1) by simp
  qed
qed

definition zip_rep :: "('k, 'v) jfs_bst \<Rightarrow> addr \<Rightarrow> addr \<Rightarrow> rbt \<Rightarrow> frame list \<Rightarrow> bool" where
  "zip_rep t p q T C \<longleftrightarrow> tree_rep t p q T \<and> ctx_rep t p q C \<and> distinct (inorder T @ ctx_addrs C) \<and> good (nil t)"

lemma inorder_plug_set: "set (inorder (plug T C)) = set (inorder T) \<union> set (ctx_addrs C)"
  by (induction T C rule: plug.induct) auto

lemma zip_plug: "tree_rep t p q T \<Longrightarrow> ctx_rep t p q C \<Longrightarrow> tree_rep t (root t) (nil t) (plug T C)"
proof (induction T C arbitrary: p q rule: plug.induct)
  case (2 T a c r C)
  from 2(2,3) have "tree_rep t a (par t a) (Nd T a c r)" "ctx_rep t a (par t a) C" by auto
  then show ?case using 2(1) by simp
next
  case (3 T l a c C)
  from 3(2,3) have "tree_rep t a (par t a) (Nd l a c T)" "ctx_rep t a (par t a) C" by auto
  then show ?case using 3(1) by simp
qed auto


text \<open>\<open>frame_of A t t'\<close>: only node fields of addresses in \<open>A\<close> and the root may differ.\<close>

definition frame_of :: "addr set \<Rightarrow> ('k, 'v) jfs_bst \<Rightarrow> ('k, 'v) jfs_bst \<Rightarrow> bool" where
  "frame_of A t t' \<longleftrightarrow> nil t' = nil t \<and> bst_list t' = bst_list t \<and> value_at t' = value_at t \<and>
     cache_smallest t' = cache_smallest t \<and> cache_largest t' = cache_largest t \<and>
     cache_previous t' = cache_previous t \<and> bst_cmp t' = bst_cmp t \<and> value_offset t' = value_offset t \<and>
     value_size t' = value_size t \<and> free_list t' = free_list t \<and>
     (\<forall>a. a \<notin> A \<longrightarrow> parent_color t' a = parent_color t a \<and> bst_left t' a = bst_left t a \<and> bst_right t' a = bst_right t a)"

lemma frame_refl [simp]: "frame_of A t t"
  by (simp add: frame_of_def)

lemma frame_trans: "frame_of A t t' \<Longrightarrow> frame_of A t' t'' \<Longrightarrow> frame_of A t t''"
  by (simp add: frame_of_def)

lemma frame_mono: "frame_of A t t' \<Longrightarrow> A \<subseteq> B \<Longrightarrow> frame_of B t t'"
  by (auto simp: frame_of_def)

lemma frame_setters [simp]:
  "a \<in> A \<Longrightarrow> frame_of A t (upd_par a p t)" "a \<in> A \<Longrightarrow> frame_of A t (upd_col a c t)"
  "a \<in> A \<Longrightarrow> frame_of A t (set_left t a p)" "a \<in> A \<Longrightarrow> frame_of A t (set_right t a p)"
  "frame_of A t (t\<lparr>root := p\<rparr>)"
  by (auto simp: frame_of_def upd_par_def upd_col_def set_left_def set_right_def)

lemma frame_replace: "q = nil t \<or> q \<in> A \<Longrightarrow> frame_of A t (bst_replace_child t q x y)"
  by (auto simp: bst_replace_child_def)

lemma frame_unch: "frame_of A t t' \<Longrightarrow> a \<notin> A \<Longrightarrow> par t' a = par t a \<and> col t' a = col t a \<and>
    bst_left t' a = bst_left t a \<and> bst_right t' a = bst_right t a"
  by (simp add: frame_of_def par_def col_def)

lemma frame_nil: "frame_of A t t' \<Longrightarrow> nil t' = nil t"
  by (simp add: frame_of_def)

lemma tree_rep_frame:
  "frame_of A t t' \<Longrightarrow> A \<inter> set (inorder T) = {} \<Longrightarrow> tree_rep t' p q T = tree_rep t p q T"
  by (rule tree_rep_cong) (auto simp: frame_nil dest: frame_unch)

lemma ctx_rep_frame:
  "frame_of A t t' \<Longrightarrow> A \<inter> set (ctx_addrs C) = {} \<Longrightarrow> root t' = root t \<Longrightarrow> ctx_rep t' p q C = ctx_rep t p q C"
  by (rule ctx_rep_cong) (auto simp: frame_nil dest: frame_unch)

lemma ctx_parent: "ctx_rep t p q C \<Longrightarrow> good (nil t) \<Longrightarrow> good q \<and> (q = nil t \<or> q \<in> set (ctx_addrs C))"
  by (cases "(t, p, q, C)" rule: ctx_rep.cases) auto

text \<open>Replacing the child of a context.\<close>

lemma replace_child_fields [simp]:
  "par (bst_replace_child t q x y) = par t" "col (bst_replace_child t q x y) = col t"
  "nil (bst_replace_child t q x y) = nil t"
  by (simp_all add: bst_replace_child_def)

lemma replace_child_unch:
  "a \<noteq> q \<Longrightarrow> bst_left (bst_replace_child t q x y) a = bst_left t a \<and> bst_right (bst_replace_child t q x y) a = bst_right t a"
  by (simp add: bst_replace_child_def)

lemma ctx_replace:
  assumes "ctx_rep t p q C" and "p \<noteq> nil t" and "p \<notin> set (ctx_addrs C)" and "distinct (ctx_addrs C)"
  shows "ctx_rep (bst_replace_child t q p p') p' q C"
proof (cases "(t, p, q, C)" rule: ctx_rep.cases)
  case 1
  then show ?thesis using assms by (simp add: bst_replace_child_def)
next
  case (2 t0 p0 q0 a c r D)
  then have q: "q = a" "a \<noteq> nil t" "bst_left t a = p" and C: "C = LF a c r # D" using assms(1) by auto
  then have t': "bst_replace_child t q p p' = set_left t a p'" by (simp add: bst_replace_child_def)
  have f: "frame_of {a} t (set_left t a p')" by simp
  have "tree_rep (set_left t a p') x y r = tree_rep t x y r" for x y
    using assms(4) C by (intro tree_rep_frame [OF f]) auto
  moreover have "ctx_rep (set_left t a p') x y D = ctx_rep t x y D" for x y
    using assms(4) C by (intro ctx_rep_frame [OF f]) auto
  ultimately show ?thesis unfolding t' using assms(1) C by simp
next
  case (3 t0 p0 q0 l a c D)
  then have q: "q = a" "a \<noteq> nil t" "bst_right t a = p" and C: "C = RF l a c # D"
    and l: "tree_rep t (bst_left t a) a l" using assms(1) by auto
  have "bst_left t a \<noteq> p" using tree_rep_in [OF l] assms(2,3) C by auto
  then have t': "bst_replace_child t q p p' = set_right t a p'" using q by (simp add: bst_replace_child_def)
  have f: "frame_of {a} t (set_right t a p')" by simp
  have "tree_rep (set_right t a p') x y l = tree_rep t x y l" for x y
    using assms(4) C by (intro tree_rep_frame [OF f]) auto
  moreover have "ctx_rep (set_right t a p') x y D = ctx_rep t x y D" for x y
    using assms(4) C by (intro ctx_rep_frame [OF f]) auto
  ultimately show ?thesis unfolding t' using assms(1) C by simp
qed

text \<open>Giving a subtree another parent.\<close>

lemma tree_reparent:
  assumes "tree_rep t p q T" and "distinct (inorder T)" and "good x"
  shows "tree_rep (if p \<noteq> nil t then upd_par p x t else t) p x T"
proof (cases T)
  case Lf
  then show ?thesis using assms(1) by auto
next
  case (Nd l a c r)
  have f: "frame_of {a} t (upd_par a x t)" by simp
  have "tree_rep (upd_par a x t) u v l = tree_rep t u v l" "tree_rep (upd_par a x t) u v r = tree_rep t u v r" for u v
    using assms(2) Nd by (auto intro!: tree_rep_frame [OF f])
  then show ?thesis using assms(1,3) Nd by simp
qed

lemma rotate_left_zip:
  assumes zip: "zip_rep t x q (Nd A x c (Nd B y d E)) C"
  shows "\<exists>t'. bst_rotate_left t x = Some t' \<and> zip_rep t' y q (Nd (Nd A x c B) y d E) C \<and>
    frame_of (set (inorder (Nd A x c (Nd B y d E))) \<union> set (ctx_addrs C)) t t'"
proof -
  let ?N = "set (inorder (Nd A x c (Nd B y d E))) \<union> set (ctx_addrs C)"
  let ?b = "bst_left t y"
  from zip have x: "x \<noteq> nil t" "good x" "par t x = q" "col t x = cw c" "bst_right t x = y"
    and A: "tree_rep t (bst_left t x) x A"
    and y: "y \<noteq> nil t" "good y" "par t y = x" "col t y = cw d"
    and B: "tree_rep t ?b y B" and E: "tree_rep t (bst_right t y) y E"
    and C: "ctx_rep t x q C" and nl: "good (nil t)"
    and dist: "distinct (inorder (Nd A x c (Nd B y d E)) @ ctx_addrs C)"
    by (auto simp: zip_rep_def)
  have q: "good q" "q = nil t \<or> q \<in> set (ctx_addrs C)" using ctx_parent [OF C nl] by auto
  have xy: "x \<noteq> y" "q \<noteq> x" "q \<noteq> y" using dist q(2) x(1) y(1) by auto
  have b: "?b = nil t \<or> ?b \<in> set (inorder B)" by (rule tree_rep_in [OF B])
  then have bx: "?b \<noteq> x" "?b \<noteq> y" "?b \<noteq> q \<or> ?b = nil t" using dist q(2) x(1) y(1) by auto
  have bgood: "?b \<noteq> nil t \<Longrightarrow> good ?b" using b tree_rep_nonnil [OF B] by blast
  define t1 where "t1 = set_right t x ?b"
  define t2 where "t2 = (if ?b \<noteq> nil t then upd_par ?b x t1 else t1)"
  define t3 where "t3 = upd_par y q t2"
  define t4 where "t4 = bst_replace_child t3 q x y"
  define t5 where "t5 = set_left t4 y x"
  define t6 where "t6 = upd_par x y t5"
  have run: "bst_rotate_left t x = Some t6"
    using x y xy q(1) bgood bx
    by (auto simp: bst_rotate_left_def t1_def t2_def t3_def t4_def t5_def t6_def Let_def)
  have nils: "nil t1 = nil t" "nil t2 = nil t" "nil t3 = nil t" "nil t4 = nil t" "nil t5 = nil t" "nil t6 = nil t"
    by (simp_all add: t1_def t2_def t3_def t4_def t5_def t6_def)
  define Bs where "Bs = (if ?b = nil t then {} else {?b})"
  define Qs where "Qs = (if q = nil t then {} else {q})"
  have sets: "Bs \<subseteq> set (inorder B)" "Qs \<subseteq> set (ctx_addrs C)" using b q(2) by (auto simp: Bs_def Qs_def)
  have f1: "frame_of {x} t t1" by (simp add: t1_def)
  have f2: "frame_of Bs t1 t2" by (simp add: t2_def Bs_def)
  have f23: "frame_of {y} t2 t3" by (simp add: t3_def)
  have f4: "frame_of Qs t3 t4" unfolding t4_def using nils by (intro frame_replace) (simp add: Qs_def)
  have f5: "frame_of {y} t4 t5" and f56: "frame_of {x} t5 t6" by (simp_all add: t5_def t6_def)
  have f3: "frame_of ({x, y} \<union> Bs) t t3"
    using f1 f2 f23 by (meson frame_trans frame_mono Un_upper1 Un_upper2 insert_subset subset_insertI subset_trans empty_subsetI Un_iff insertCI)
  have f6: "frame_of {x, y} t4 t6"
    using f5 f56 by (meson frame_trans frame_mono insert_subset insertCI empty_subsetI)
  have f26: "frame_of ({x, y} \<union> Qs) t2 t6"
    by (intro frame_trans [OF frame_mono [OF f23] frame_trans [OF frame_mono [OF f4] frame_mono [OF f6]]]) auto
  have f: "frame_of ({x, y} \<union> Bs \<union> Qs) t t6"
    by (intro frame_trans [OF frame_mono [OF f3] frame_trans [OF frame_mono [OF f4] frame_mono [OF f6]]]) auto
  have root3: "root t3 = root t" by (simp add: t3_def t2_def t1_def)
  have "ctx_rep t3 x q C" using C dist sets by (subst ctx_rep_frame [OF f3 _ root3]) auto
  then have "ctx_rep t4 y q C" unfolding t4_def using x(1) nils dist by (intro ctx_replace) auto
  moreover have "root t6 = root t4" by (simp add: t6_def t5_def)
  ultimately have C6: "ctx_rep t6 y q C" using dist by (subst ctx_rep_frame [OF f6]) auto
  have A6: "tree_rep t6 (bst_left t x) x A" using A dist sets by (subst tree_rep_frame [OF f]) auto
  have E6: "tree_rep t6 (bst_right t y) y E" using E dist sets by (subst tree_rep_frame [OF f]) auto
  have "tree_rep t1 ?b y B" using B dist by (subst tree_rep_frame [OF f1]) auto
  then have "tree_rep t2 ?b x B" unfolding t2_def using tree_reparent [of t1 ?b y B x] dist x(2) nils by auto
  then have B6: "tree_rep t6 ?b x B" using dist sets by (subst tree_rep_frame [OF f26]) auto
  have fields: "par t6 y = q" "par t6 x = y" "col t6 x = cw c" "col t6 y = cw d"
    using x y xy q(1) bx bgood by (auto simp: t6_def t5_def t4_def t3_def t2_def t1_def)
  have ptrs: "bst_left t6 y = x" "bst_right t6 x = ?b" "bst_left t6 x = bst_left t x" "bst_right t6 y = bst_right t y"
    using xy replace_child_unch [of x q t3 x y] replace_child_unch [of y q t3 x y]
    by (auto simp: t6_def t5_def t4_def t3_def t2_def t1_def)
  have "zip_rep t6 y q (Nd (Nd A x c B) y d E) C"
    using A6 B6 E6 C6 fields ptrs x y nils nl dist by (auto simp: zip_rep_def)
  moreover have "frame_of ?N t t6" using f by (rule frame_mono) (use sets in auto)
  ultimately show ?thesis using run by blast
qed


text \<open>Exchanging left and right, to get the facts about right rotations from those about left ones.\<close>

definition mirror :: "('k, 'v) jfs_bst \<Rightarrow> ('k, 'v) jfs_bst" where
  "mirror t = t\<lparr>bst_left := bst_right t, bst_right := bst_left t\<rparr>"

fun mir :: "rbt \<Rightarrow> rbt" where
  "mir Lf = Lf"
| "mir (Nd l a c r) = Nd (mir r) a c (mir l)"

fun mirf :: "frame \<Rightarrow> frame" where
  "mirf (LF a c r) = RF (mir r) a c"
| "mirf (RF l a c) = LF a c (mir l)"

lemma mirror_fields [simp]:
  "par (mirror t) = par t" "col (mirror t) = col t" "nil (mirror t) = nil t" "root (mirror t) = root t"
  "bst_left (mirror t) = bst_right t" "bst_right (mirror t) = bst_left t" "mirror (mirror t) = t"
  by (simp_all add: mirror_def par_def col_def fun_eq_iff)

lemma mirror_setters:
  "upd_par a p (mirror t) = mirror (upd_par a p t)" "upd_col a c (mirror t) = mirror (upd_col a c t)"
  "set_left (mirror t) a p = mirror (set_right t a p)" "set_right (mirror t) a p = mirror (set_left t a p)"
  "(mirror t)\<lparr>root := p\<rparr> = mirror (t\<lparr>root := p\<rparr>)"
  by (simp_all add: mirror_def upd_par_def upd_col_def set_left_def set_right_def)

lemma mir_mir [simp]: "mir (mir T) = T"
  by (induction T) auto

lemma mirf_mirf [simp]: "mirf (mirf f) = f"
  by (cases f) auto

lemma set_inorder_mir [simp]: "set (inorder (mir T)) = set (inorder T)"
  by (induction T) auto

lemma distinct_inorder_mir [simp]: "distinct (inorder (mir T)) = distinct (inorder T)"
  by (induction T) auto

lemma set_ctx_addrs_mir [simp]: "set (ctx_addrs (map mirf C)) = set (ctx_addrs C)"
  by (induction C rule: ctx_addrs.induct) auto

lemma distinct_ctx_addrs_mir [simp]: "distinct (ctx_addrs (map mirf C)) = distinct (ctx_addrs C)"
  by (induction C rule: ctx_addrs.induct) auto

lemma tree_rep_mirror [simp]: "tree_rep (mirror t) p q (mir T) = tree_rep t p q T"
  by (induction T arbitrary: p q) auto

lemma ctx_rep_mirror [simp]: "ctx_rep (mirror t) p q (map mirf C) = ctx_rep t p q C"
proof (induction C arbitrary: p q)
  case (Cons f C)
  then show ?case by (cases f) auto
qed simp

lemma zip_rep_mirror [simp]: "zip_rep (mirror t) p q (mir T) (map mirf C) = zip_rep t p q T C"
  by (auto simp: zip_rep_def)

lemma frame_mirror [simp]: "frame_of A (mirror t) (mirror t') = frame_of A t t'"
  by (auto simp: frame_of_def mirror_def)

text \<open>A node is one child of its parent, not both.\<close>

lemma ctx_one_child:
  assumes "ctx_rep t p q C" and "p \<noteq> nil t" and "p \<notin> set (ctx_addrs C)"
  shows "q = nil t \<or> (p = bst_left t q) \<noteq> (p = bst_right t q)"
  using assms by (cases "(t, p, q, C)" rule: ctx_rep.cases) (auto dest: tree_rep_in)

lemma replace_child_mirror:
  "q = nil t \<or> (x = bst_left t q) \<noteq> (x = bst_right t q) \<Longrightarrow>
     bst_replace_child (mirror t) q x y = mirror (bst_replace_child t q x y)"
  by (auto simp: bst_replace_child_def mirror_setters)

lemma rotate_right_mirror:
  assumes "zip_rep t x q (Nd (Nd A y d B) x c E) C"
  shows "bst_rotate_right t x = map_option mirror (bst_rotate_left (mirror t) x)"
proof -
  from assms have x: "x \<noteq> nil t" "good x" "par t x = q" "bst_left t x = y"
    and y: "y \<noteq> nil t" "good y" and B: "tree_rep t (bst_right t y) y B"
    and C: "ctx_rep t x q C" and nl: "good (nil t)"
    and dist: "distinct (inorder (Nd (Nd A y d B) x c E) @ ctx_addrs C)"
    by (auto simp: zip_rep_def)
  have q: "good q" "q = nil t \<or> q \<in> set (ctx_addrs C)" using ctx_parent [OF C nl] by auto
  have xy: "x \<noteq> y" "q \<noteq> x" "q \<noteq> y" using dist q(2) x(1) y(1) by auto
  have one: "q = nil t \<or> (x = bst_left t q) \<noteq> (x = bst_right t q)"
    using ctx_one_child [OF C x(1)] dist by auto
  have b: "bst_right t y \<noteq> nil t \<Longrightarrow> good (bst_right t y)"
    using tree_rep_in [OF B] tree_rep_nonnil [OF B] by blast
  define t3 where "t3 = upd_par y q (if bst_right t y \<noteq> nil t then upd_par (bst_right t y) x (set_left t x (bst_right t y))
      else set_left t x (bst_right t y))"
  have "bst_replace_child (mirror t3) q x y = mirror (bst_replace_child t3 q x y)"
    using one xy by (intro replace_child_mirror) (auto simp: t3_def)
  moreover have "bst_rotate_right t x = Some (upd_par x y (set_right (bst_replace_child t3 q x y) y x))"
    using x y xy q(1) b by (auto simp: bst_rotate_right_def t3_def Let_def)
  moreover have "bst_rotate_left (mirror t) x = Some (upd_par x y (set_left (bst_replace_child (mirror t3) q x y) y x))"
    using x y xy q(1) b by (auto simp: bst_rotate_left_def t3_def Let_def mirror_setters)
  ultimately show ?thesis by (simp add: mirror_setters)
qed

lemma rotate_right_zip:
  assumes "zip_rep t x q (Nd (Nd A y d B) x c E) C"
  shows "\<exists>t'. bst_rotate_right t x = Some t' \<and> zip_rep t' y q (Nd A y d (Nd B x c E)) C \<and>
    frame_of (set (inorder (Nd (Nd A y d B) x c E)) \<union> set (ctx_addrs C)) t t'"
proof -
  from assms have "zip_rep (mirror t) x q (mir (Nd (Nd A y d B) x c E)) (map mirf C)"
    by (simp only: zip_rep_mirror)
  from rotate_left_zip [OF this [simplified]] obtain t'
    where t': "bst_rotate_left (mirror t) x = Some t'"
      "zip_rep t' y q (mir (Nd A y d (Nd B x c E))) (map mirf C)"
      "frame_of (set (inorder (mir (Nd (Nd A y d B) x c E))) \<union> set (ctx_addrs (map mirf C))) (mirror t) t'"
    by auto
  have "zip_rep (mirror (mirror t')) y q (mir (Nd A y d (Nd B x c E))) (map mirf C)"
    "frame_of (set (inorder (mir (Nd (Nd A y d B) x c E))) \<union> set (ctx_addrs (map mirf C))) (mirror t) (mirror (mirror t'))"
    using t'(2,3) by (simp_all only: mirror_fields)
  then have "zip_rep (mirror t') y q (Nd A y d (Nd B x c E)) C"
    "frame_of (set (inorder (Nd (Nd A y d B) x c E)) \<union> set (ctx_addrs C)) t (mirror t')"
    by (simp_all only: zip_rep_mirror frame_mirror set_inorder_mir set_ctx_addrs_mir)
  then show ?thesis using rotate_right_mirror [OF assms] t'(1) by simp
qed


section \<open>Moving the focus and recolouring\<close>

lemma zip_up_left: "zip_rep t p q T (LF a c r # C) \<Longrightarrow> q = a \<and> zip_rep t a (par t a) (Nd T a c r) C"
  by (auto simp: zip_rep_def)

lemma zip_up_right: "zip_rep t p q T (RF l a c # C) \<Longrightarrow> q = a \<and> zip_rep t a (par t a) (Nd l a c T) C"
  by (auto simp: zip_rep_def)

lemma zip_down_left: "zip_rep t a q (Nd l a c r) C \<Longrightarrow> zip_rep t (bst_left t a) a l (LF a c r # C)"
  by (auto simp: zip_rep_def)

lemma zip_down_right: "zip_rep t a q (Nd l a c r) C \<Longrightarrow> zip_rep t (bst_right t a) a r (RF l a c # C)"
  by (auto simp: zip_rep_def)

lemma zip_focus: "zip_rep t p q (Nd l a c r) C \<Longrightarrow> p = a \<and> good a \<and> a \<noteq> nil t \<and> par t a = q \<and> col t a = cw c"
  by (auto simp: zip_rep_def)

lemma distinct_plug: "distinct (inorder (plug T C)) = distinct (inorder T @ ctx_addrs C)"
  by (induction T C rule: plug.induct) auto

lemma zip_tree:
  "zip_rep t p q T C \<Longrightarrow> tree_rep t (root t) (nil t) (plug T C) \<and> distinct (inorder (plug T C)) \<and> good (nil t)"
  by (auto simp: zip_rep_def distinct_plug intro: zip_plug)

fun recol :: "addr \<Rightarrow> color \<Rightarrow> rbt \<Rightarrow> rbt" where
  "recol a c Lf = Lf"
| "recol a c (Nd l b d r) = Nd (recol a c l) b (if a = b then c else d) (recol a c r)"

lemma inorder_recol [simp]: "inorder (recol a c T) = inorder T"
  by (induction T) auto

lemma recol_notin [simp]: "a \<notin> set (inorder T) \<Longrightarrow> recol a c T = T"
  by (induction T) auto

lemma tree_recol: "tree_rep t p q T \<Longrightarrow> tree_rep (upd_col a c t) p q (recol a c T)"
  by (induction T arbitrary: p q) auto

lemma zip_recol:
  assumes "zip_rep t p q T C" and "a \<notin> set (ctx_addrs C)"
  shows "zip_rep (upd_col a c t) p q (recol a c T) C"
proof -
  have f: "frame_of {a} t (upd_col a c t)" by simp
  have "ctx_rep (upd_col a c t) p q C = ctx_rep t p q C"
    using assms(2) by (intro ctx_rep_frame [OF f]) auto
  then show ?thesis using assms(1) by (auto simp: zip_rep_def tree_recol)
qed

fun is_red :: "rbt \<Rightarrow> bool" where
  "is_red Lf = False"
| "is_red (Nd l a c r) = (c = Red)"

fun blacken :: "rbt \<Rightarrow> rbt" where
  "blacken Lf = Lf"
| "blacken (Nd l a c r) = Nd l a Black r"

fun fcol :: "frame \<Rightarrow> color" where
  "fcol (LF a c r) = c"
| "fcol (RF l a c) = c"

lemma tree_rep_color:
  "tree_rep t p q T \<Longrightarrow> col t (nil t) = BST_BLACK \<Longrightarrow> good (nil t) \<Longrightarrow> bst_color t p = Some (if is_red T then BST_RED else BST_BLACK)"
  by (cases T) auto

section \<open>The insertion fix-up\<close>

text \<open>What the loop does, on a tree and the path from it to the root.\<close>

fun fix_ins :: "rbt \<Rightarrow> frame list \<Rightarrow> rbt" where
  "fix_ins T (LF p Red s # LF g c u # C) =
     (if is_red u then fix_ins (Nd (Nd T p Black s) g Red (blacken u)) C
      else plug (Nd T p Black (Nd s g Red u)) C)"
| "fix_ins T (RF s p Red # LF g c u # C) =
     (if is_red u then fix_ins (Nd (Nd s p Black T) g Red (blacken u)) C
      else case T of Nd l n d r \<Rightarrow> plug (Nd (Nd s p Red l) n Black (Nd r g Red u)) C
                   | Lf \<Rightarrow> plug T (RF s p Red # LF g c u # C))"
| "fix_ins T (LF p Red s # RF u g c # C) =
     (if is_red u then fix_ins (Nd (blacken u) g Red (Nd T p Black s)) C
      else case T of Nd l n d r \<Rightarrow> plug (Nd (Nd u g Red l) n Black (Nd r p Red s)) C
                   | Lf \<Rightarrow> plug T (LF p Red s # RF u g c # C))"
| "fix_ins T (RF s p Red # RF u g c # C) =
     (if is_red u then fix_ins (Nd (blacken u) g Red (Nd s p Black T)) C
      else plug (Nd (Nd u g Red s) p Black T) C)"
| "fix_ins T C = plug T C"

lemma inorder_plug_cong: "inorder T = inorder T' \<Longrightarrow> inorder (plug T C) = inorder (plug T' C)"
proof (induction C arbitrary: T T')
  case (Cons f C)
  then show ?case by (cases f) simp_all
qed simp

lemma inorder_blacken [simp]: "inorder (blacken T) = inorder T"
  by (cases T) auto

lemma inorder_fix_ins: "inorder (fix_ins T C) = inorder (plug T C)"
  by (induction T C rule: fix_ins.induct)
    (auto split: rbt.splits intro!: inorder_plug_cong trans [OF _ inorder_plug_cong])


abbreviation nodes :: "rbt \<Rightarrow> frame list \<Rightarrow> addr set" where
  "nodes T C \<equiv> set (inorder T) \<union> set (ctx_addrs C)"

fun ctx_q :: "addr \<Rightarrow> frame list \<Rightarrow> addr" where
  "ctx_q z [] = z"
| "ctx_q z (LF a c r # C) = a"
| "ctx_q z (RF l a c # C) = a"

lemma zip_q: "zip_rep t p q T C \<Longrightarrow> q = ctx_q (nil t) C"
  by (cases "(t, p, q, C)" rule: ctx_rep.cases) (auto simp: zip_rep_def)

lemma zip_rot_left_in_left:
  assumes "zip_rep t g q (Nd (Nd s p x (Nd l n d r)) g c u) C"
  shows "\<exists>t'. bst_rotate_left t p = Some t' \<and> zip_rep t' g q (Nd (Nd (Nd s p x l) n d r) g c u) C \<and>
    par t' p = n \<and> frame_of (nodes (Nd (Nd s p x (Nd l n d r)) g c u) C) t t'"
proof -
  from zip_down_left [OF assms] have "zip_rep t p g (Nd s p x (Nd l n d r)) (LF g c u # C)"
    using assms by (auto simp: zip_rep_def)
  from rotate_left_zip [OF this] obtain t' where t': "bst_rotate_left t p = Some t'"
    "zip_rep t' n g (Nd (Nd s p x l) n d r) (LF g c u # C)"
    "frame_of (nodes (Nd s p x (Nd l n d r)) (LF g c u # C)) t t'" by blast
  have "zip_rep t' g q (Nd (Nd (Nd s p x l) n d r) g c u) C"
    using zip_up_left [OF t'(2)] zip_q [OF assms] zip_q frame_nil [OF t'(3)] by metis
  moreover have "par t' p = n" using t'(2) by (auto simp: zip_rep_def)
  moreover have "frame_of (nodes (Nd (Nd s p x (Nd l n d r)) g c u) C) t t'"
    using t'(3) by (rule frame_mono) auto
  ultimately show ?thesis using t'(1) by blast
qed

lemma zip_rot_right_in_right:
  assumes "zip_rep t g q (Nd u g c (Nd (Nd l n d r) p x s)) C"
  shows "\<exists>t'. bst_rotate_right t p = Some t' \<and> zip_rep t' g q (Nd u g c (Nd l n d (Nd r p x s))) C \<and>
    par t' p = n \<and> frame_of (nodes (Nd u g c (Nd (Nd l n d r) p x s)) C) t t'"
proof -
  from zip_down_right [OF assms] have "zip_rep t p g (Nd (Nd l n d r) p x s) (RF u g c # C)"
    using assms by (auto simp: zip_rep_def)
  from rotate_right_zip [OF this] obtain t' where t': "bst_rotate_right t p = Some t'"
    "zip_rep t' n g (Nd l n d (Nd r p x s)) (RF u g c # C)"
    "frame_of (nodes (Nd (Nd l n d r) p x s) (RF u g c # C)) t t'" by blast
  have "zip_rep t' g q (Nd u g c (Nd l n d (Nd r p x s))) C"
    using zip_up_right [OF t'(2)] zip_q [OF assms] zip_q frame_nil [OF t'(3)] by metis
  moreover have "par t' p = n" using t'(2) by (auto simp: zip_rep_def)
  moreover have "frame_of (nodes (Nd u g c (Nd (Nd l n d r) p x s)) C) t t'"
    using t'(3) by (rule frame_mono) auto
  ultimately show ?thesis using t'(1) by blast
qed

lemma zip_recol2:
  assumes "zip_rep t p q T C" and "a \<notin> set (ctx_addrs C)" and "b \<notin> set (ctx_addrs C)"
  shows "zip_rep (upd_col b d (upd_col a c t)) p q (recol b d (recol a c T)) C"
  using zip_recol [OF zip_recol [OF assms(1,2)] assms(3)] .

lemma frame_upd_col2: "a \<in> A \<Longrightarrow> b \<in> A \<Longrightarrow> frame_of A t (upd_col b d (upd_col a c t))"
  using frame_trans [OF frame_setters(2) frame_setters(2)] .

lemma frame_upd_col3:
  "a \<in> A \<Longrightarrow> b \<in> A \<Longrightarrow> e \<in> A \<Longrightarrow> frame_of A t (upd_col e x (upd_col b d (upd_col a c t)))"
  using frame_trans [OF frame_upd_col2 frame_setters(2)] .

lemma fix_left_black:
  assumes zip: "zip_rep t g q (Nd (Nd T p x s) g c u) C"
  shows "\<exists>t'. bst_rotate_right (upd_col g Red (upd_col p Black t)) g = Some t' \<and>
    zip_rep t' p q (Nd T p Black (Nd s g Red u)) C \<and> frame_of (nodes (Nd (Nd T p x s) g c u) C) t t'"
proof -
  have "distinct (inorder (Nd (Nd T p x s) g c u) @ ctx_addrs C)" using zip by (simp add: zip_rep_def)
  then have "zip_rep (upd_col g Red (upd_col p Black t)) g q (Nd (Nd T p Black s) g Red u) C"
    using zip_recol2 [OF zip, of p g Red Black] by auto
  from rotate_right_zip [OF this] obtain t'
    where t': "bst_rotate_right (upd_col g Red (upd_col p Black t)) g = Some t'"
      "zip_rep t' p q (Nd T p Black (Nd s g Red u)) C"
      "frame_of (nodes (Nd (Nd T p x s) g c u) C) (upd_col g Red (upd_col p Black t)) t'" by auto
  have "frame_of (nodes (Nd (Nd T p x s) g c u) C) t t'"
    by (rule frame_trans [OF frame_upd_col2 t'(3)]) auto
  with t'(1,2) show ?thesis by blast
qed

lemma fix_right_black:
  assumes zip: "zip_rep t g q (Nd u g c (Nd s p x T)) C"
  shows "\<exists>t'. bst_rotate_left (upd_col g Red (upd_col p Black t)) g = Some t' \<and>
    zip_rep t' p q (Nd (Nd u g Red s) p Black T) C \<and> frame_of (nodes (Nd u g c (Nd s p x T)) C) t t'"
proof -
  have "distinct (inorder (Nd u g c (Nd s p x T)) @ ctx_addrs C)" using zip by (simp add: zip_rep_def)
  then have "zip_rep (upd_col g Red (upd_col p Black t)) g q (Nd u g Red (Nd s p Black T)) C"
    using zip_recol2 [OF zip, of p g Red Black] by auto
  from rotate_left_zip [OF this] obtain t'
    where t': "bst_rotate_left (upd_col g Red (upd_col p Black t)) g = Some t'"
      "zip_rep t' p q (Nd (Nd u g Red s) p Black T) C"
      "frame_of (nodes (Nd u g c (Nd s p x T)) C) (upd_col g Red (upd_col p Black t)) t'" by auto
  have "frame_of (nodes (Nd u g c (Nd s p x T)) C) t t'"
    by (rule frame_trans [OF frame_upd_col2 t'(3)]) auto
  with t'(1,2) show ?thesis by blast
qed

lemma fix_red_uncle:
  assumes zip: "zip_rep t g q (Nd (Nd A a x B) g c (Nd D b y E)) C"
  shows "zip_rep (upd_col g Red (upd_col b Black (upd_col a Black t))) g q (Nd (Nd A a Black B) g Red (Nd D b Black E)) C"
    and "zip_rep (upd_col g Red (upd_col a Black (upd_col b Black t))) g q (Nd (Nd A a Black B) g Red (Nd D b Black E)) C"
    and "frame_of (nodes (Nd (Nd A a x B) g c (Nd D b y E)) C) t (upd_col g Red (upd_col b Black (upd_col a Black t)))"
    and "frame_of (nodes (Nd (Nd A a x B) g c (Nd D b y E)) C) t (upd_col g Red (upd_col a Black (upd_col b Black t)))"
proof -
  have d: "distinct (inorder (Nd (Nd A a x B) g c (Nd D b y E)) @ ctx_addrs C)" using zip by (simp add: zip_rep_def)
  then show "zip_rep (upd_col g Red (upd_col b Black (upd_col a Black t))) g q (Nd (Nd A a Black B) g Red (Nd D b Black E)) C"
    using zip_recol [OF zip_recol2 [OF zip, of a b Black Black], of g Red] by auto
  show "zip_rep (upd_col g Red (upd_col a Black (upd_col b Black t))) g q (Nd (Nd A a Black B) g Red (Nd D b Black E)) C"
    using d zip_recol [OF zip_recol2 [OF zip, of b a Black Black], of g Red] by auto
qed (rule frame_upd_col3; simp)+


text \<open>One iteration of the loop, by the colour of the uncle and the side of the parent.\<close>

lemma loop_left_red:
  assumes zip: "zip_rep t g q (Nd (Nd A p Red B) g c (Nd D b Red E)) C" and n: "good n" "par t n = p"
  shows "bst_fixup_insert_loop (Suc k) t n =
    bst_fixup_insert_loop k (upd_col g Red (upd_col b Black (upd_col p Black t))) g"
proof -
  have "good p" "par t p = g" "col t p = BST_RED" "g \<noteq> nil t" "good g" "bst_left t g = p" "bst_right t g = b"
    "good b" "col t b = BST_RED" using zip by (auto simp: zip_rep_def)
  then show ?thesis using n by simp
qed

lemma loop_right_red:
  assumes zip: "zip_rep t g q (Nd (Nd D b Red E) g c (Nd A p Red B)) C" and n: "good n" "par t n = p"
  shows "bst_fixup_insert_loop (Suc k) t n =
    bst_fixup_insert_loop k (upd_col g Red (upd_col b Black (upd_col p Black t))) g"
proof -
  have "good p" "par t p = g" "col t p = BST_RED" "g \<noteq> nil t" "good g" "bst_left t g = b" "p \<noteq> b"
    "good b" "col t b = BST_RED" using zip by (auto simp: zip_rep_def)
  then show ?thesis using n by simp
qed

lemma loop_left_black:
  assumes zip: "zip_rep t g q (Nd (Nd A p Red B) g c U) C" and n: "good n" "par t n = p"
    and u: "\<not> is_red U" "col t (nil t) = BST_BLACK"
  shows "n \<noteq> bst_right t p \<Longrightarrow> bst_fixup_insert_loop (Suc k) t n =
      bst_rotate_right (upd_col g Red (upd_col p Black t)) g"
    and "n = bst_right t p \<Longrightarrow> bst_rotate_left t p = Some t1 \<Longrightarrow> par t1 p = m \<Longrightarrow> good m \<Longrightarrow>
      bst_fixup_insert_loop (Suc k) t n = bst_rotate_right (upd_col g Red (upd_col m Black t1)) g"
proof -
  have "good p" "par t p = g" "col t p = BST_RED" "g \<noteq> nil t" "good g" "bst_left t g = p" "good (nil t)"
    and U: "tree_rep t (bst_right t g) g U" using zip by (auto simp: zip_rep_def)
  moreover have "bst_color t (bst_right t g) = Some BST_BLACK"
    using tree_rep_color [OF U u(2)] u(1) \<open>good (nil t)\<close> by simp
  moreover have "BST_BLACK \<noteq> BST_RED" by (simp add: BST_BLACK_def BST_RED_def)
  ultimately show "n \<noteq> bst_right t p \<Longrightarrow> bst_fixup_insert_loop (Suc k) t n =
      bst_rotate_right (upd_col g Red (upd_col p Black t)) g"
    and "n = bst_right t p \<Longrightarrow> bst_rotate_left t p = Some t1 \<Longrightarrow> par t1 p = m \<Longrightarrow> good m \<Longrightarrow>
      bst_fixup_insert_loop (Suc k) t n = bst_rotate_right (upd_col g Red (upd_col m Black t1)) g"
    using n by simp_all
qed

lemma loop_right_black:
  assumes zip: "zip_rep t g q (Nd U g c (Nd A p Red B)) C" and n: "good n" "par t n = p"
    and u: "\<not> is_red U" "col t (nil t) = BST_BLACK"
  shows "n \<noteq> bst_left t p \<Longrightarrow> bst_fixup_insert_loop (Suc k) t n =
      bst_rotate_left (upd_col g Red (upd_col p Black t)) g"
    and "n = bst_left t p \<Longrightarrow> bst_rotate_right t p = Some t1 \<Longrightarrow> par t1 p = m \<Longrightarrow> good m \<Longrightarrow>
      bst_fixup_insert_loop (Suc k) t n = bst_rotate_left (upd_col g Red (upd_col m Black t1)) g"
proof -
  have "good p" "par t p = g" "col t p = BST_RED" "g \<noteq> nil t" "good g" "good (nil t)" "p \<noteq> nil t"
    and U: "tree_rep t (bst_left t g) g U" and "p \<notin> set (inorder U)" using zip by (auto simp: zip_rep_def)
  moreover have "p \<noteq> bst_left t g" using tree_rep_in [OF U] \<open>p \<notin> set (inorder U)\<close> \<open>p \<noteq> nil t\<close> by auto
  moreover have "bst_color t (bst_left t g) = Some BST_BLACK"
    using tree_rep_color [OF U u(2)] u(1) \<open>good (nil t)\<close> by simp
  moreover have "BST_BLACK \<noteq> BST_RED" by (simp add: BST_BLACK_def BST_RED_def)
  ultimately show "n \<noteq> bst_left t p \<Longrightarrow> bst_fixup_insert_loop (Suc k) t n =
      bst_rotate_left (upd_col g Red (upd_col p Black t)) g"
    and "n = bst_left t p \<Longrightarrow> bst_rotate_right t p = Some t1 \<Longrightarrow> par t1 p = m \<Longrightarrow> good m \<Longrightarrow>
      bst_fixup_insert_loop (Suc k) t n = bst_rotate_left (upd_col g Red (upd_col m Black t1)) g"
    using n by simp_all
qed

lemma loop_stop:
  assumes "zip_rep t n q (Nd l n d r) C" and "col t (nil t) = BST_BLACK" and "C = [] \<or> fcol (hd C) = Black"
  shows "bst_fixup_insert_loop (Suc k) t n = Some t"
proof -
  have "good n" "par t n = q" "good q" using assms(1) ctx_parent [of t n q C] by (auto simp: zip_rep_def)
  moreover have "col t q = BST_BLACK"
    using assms by (cases "(t, n, q, C)" rule: ctx_rep.cases) (auto simp: zip_rep_def)
  ultimately show ?thesis by (simp add: BST_BLACK_def BST_RED_def)
qed

text \<open>The outcome of the loop: a zipper over the nodes \<open>N\<close> whose tree is \<open>F\<close>.\<close>

definition loop_post :: "addr set \<Rightarrow> ('k, 'v) jfs_bst \<Rightarrow> rbt \<Rightarrow> ('k, 'v) jfs_bst option \<Rightarrow> bool" where
  "loop_post N t F res \<longleftrightarrow> (\<exists>t' p q T C. res = Some t' \<and> zip_rep t' p q T C \<and> plug T C = F \<and> frame_of N t t')"

lemma loop_postI: "res = Some t' \<Longrightarrow> zip_rep t' p q T C \<Longrightarrow> plug T C = F \<Longrightarrow> frame_of N t t' \<Longrightarrow> loop_post N t F res"
  by (auto simp: loop_post_def)

lemma loop_post_step: "frame_of N t t1 \<Longrightarrow> loop_post N t1 F res \<Longrightarrow> loop_post N t F res"
  by (unfold loop_post_def, elim exE conjE) (intro exI conjI, assumption+, rule frame_trans)

lemma is_red_node: "is_red u \<Longrightarrow> \<exists>l a r. u = Nd l a Red r"
  by (cases u) auto

lemma frame_col_nil: "frame_of N t t' \<Longrightarrow> nil t \<notin> N \<Longrightarrow> col t' (nil t') = col t (nil t)"
  by (simp add: frame_of_def col_def)

lemma zip_nil_notin: "zip_rep t p q T C \<Longrightarrow> nil t \<notin> nodes T C"
  using tree_rep_nonnil [of t "root t" "nil t" "plug T C" "nil t"] inorder_plug_set [of T C]
  by (auto dest: zip_tree)



text \<open>
  The four cases of an iteration below a red parent. The hypothesis \<open>IH\<close> says what the
  iterations that follow do on the rest \<open>D\<close> of the path.
\<close>

lemma red_uncle_step:
  fixes t :: "('k, 'v) jfs_bst"
  assumes zip: "zip_rep t1 g q (Nd A g Red B) D" and fr: "frame_of N t t1"
    and N: "N = nodes (Nd A g Red B) D" "nil t \<notin> N" and nilc: "col t (nil t) = BST_BLACK"
    and IH: "\<And>(t1 :: ('k, 'v) jfs_bst) q G. zip_rep t1 g q G D \<Longrightarrow> G \<noteq> Lf \<Longrightarrow> col t1 (nil t1) = BST_BLACK \<Longrightarrow>
      loop_post (nodes G D) t1 (fix_ins G D) (bst_fixup_insert_loop k t1 g)"
  shows "loop_post N t (fix_ins (Nd A g Red B) D) (bst_fixup_insert_loop k t1 g)"
proof -
  have "col t1 (nil t1) = BST_BLACK" using frame_col_nil [OF fr N(2)] nilc by simp
  with IH [OF zip] show ?thesis unfolding N(1) by (intro loop_post_step [OF fr [unfolded N(1)]]) simp
qed

lemma fixup_LL:
  fixes t :: "('k, 'v) jfs_bst"
  assumes zip: "zip_rep t n q (Nd l n d r) (LF p Red s # LF g c u # D)" and nilc: "col t (nil t) = BST_BLACK"
    and IH: "\<And>(t1 :: ('k, 'v) jfs_bst) q G. zip_rep t1 g q G D \<Longrightarrow> G \<noteq> Lf \<Longrightarrow> col t1 (nil t1) = BST_BLACK \<Longrightarrow>
      loop_post (nodes G D) t1 (fix_ins G D) (bst_fixup_insert_loop k t1 g)"
  shows "loop_post (nodes (Nd l n d r) (LF p Red s # LF g c u # D)) t
    (fix_ins (Nd l n d r) (LF p Red s # LF g c u # D)) (bst_fixup_insert_loop (Suc k) t n)"
proof -
  let ?T = "Nd l n d r"
  have n: "good n" "par t n = p" and up: "zip_rep t g (par t g) (Nd (Nd ?T p Red s) g c u) D"
    using zip by (auto simp: zip_rep_def)
  have N: "nodes ?T (LF p Red s # LF g c u # D) = nodes (Nd (Nd ?T p Red s) g c u) D" by auto
  show ?thesis
  proof (cases "is_red u")
    case True
    then obtain ul b ur where u: "u = Nd ul b Red ur" using is_red_node by blast
    have "loop_post (nodes (Nd (Nd ?T p Red s) g c u) D) t (fix_ins (Nd (Nd ?T p Black s) g Red (Nd ul b Black ur)) D)
        (bst_fixup_insert_loop k (upd_col g Red (upd_col b Black (upd_col p Black t))) g)"
      using fix_red_uncle(3) [OF up [unfolded u]] zip_nil_notin [OF up] u
      by (intro red_uncle_step [OF fix_red_uncle(1) [OF up [unfolded u]] _ _ _ nilc IH]) auto
    then show ?thesis unfolding N loop_left_red [OF up [unfolded u] n] using u by simp
  next
    case False
    have "n \<noteq> bst_right t p" using up tree_rep_in [of t "bst_right t p" p s] by (auto simp: zip_rep_def)
    from fix_left_black [OF up] loop_left_black(1) [OF up n False nilc this, of k]
    show ?thesis unfolding N using False by (auto intro!: loop_postI)
  qed
qed

lemma fixup_RR:
  fixes t :: "('k, 'v) jfs_bst"
  assumes zip: "zip_rep t n q (Nd l n d r) (RF s p Red # RF u g c # D)" and nilc: "col t (nil t) = BST_BLACK"
    and IH: "\<And>(t1 :: ('k, 'v) jfs_bst) q G. zip_rep t1 g q G D \<Longrightarrow> G \<noteq> Lf \<Longrightarrow> col t1 (nil t1) = BST_BLACK \<Longrightarrow>
      loop_post (nodes G D) t1 (fix_ins G D) (bst_fixup_insert_loop k t1 g)"
  shows "loop_post (nodes (Nd l n d r) (RF s p Red # RF u g c # D)) t
    (fix_ins (Nd l n d r) (RF s p Red # RF u g c # D)) (bst_fixup_insert_loop (Suc k) t n)"
proof -
  let ?T = "Nd l n d r"
  have n: "good n" "par t n = p" and up: "zip_rep t g (par t g) (Nd u g c (Nd s p Red ?T)) D"
    using zip by (auto simp: zip_rep_def)
  have N: "nodes ?T (RF s p Red # RF u g c # D) = nodes (Nd u g c (Nd s p Red ?T)) D" by auto
  show ?thesis
  proof (cases "is_red u")
    case True
    then obtain ul b ur where u: "u = Nd ul b Red ur" using is_red_node by blast
    have "loop_post (nodes (Nd u g c (Nd s p Red ?T)) D) t (fix_ins (Nd (Nd ul b Black ur) g Red (Nd s p Black ?T)) D)
        (bst_fixup_insert_loop k (upd_col g Red (upd_col b Black (upd_col p Black t))) g)"
      using fix_red_uncle(4) [OF up [unfolded u]] zip_nil_notin [OF up] u
      by (intro red_uncle_step [OF fix_red_uncle(2) [OF up [unfolded u]] _ _ _ nilc IH]) auto
    then show ?thesis unfolding N loop_right_red [OF up [unfolded u] n] using u by simp
  next
    case False
    have "n \<noteq> bst_left t p" using up tree_rep_in [of t "bst_left t p" p s] by (auto simp: zip_rep_def)
    from fix_right_black [OF up] loop_right_black(1) [OF up n False nilc this, of k]
    show ?thesis unfolding N using False by (auto intro!: loop_postI)
  qed
qed

lemma fixup_RL:
  fixes t :: "('k, 'v) jfs_bst"
  assumes zip: "zip_rep t n q (Nd l n d r) (RF s p Red # LF g c u # D)" and nilc: "col t (nil t) = BST_BLACK"
    and IH: "\<And>(t1 :: ('k, 'v) jfs_bst) q G. zip_rep t1 g q G D \<Longrightarrow> G \<noteq> Lf \<Longrightarrow> col t1 (nil t1) = BST_BLACK \<Longrightarrow>
      loop_post (nodes G D) t1 (fix_ins G D) (bst_fixup_insert_loop k t1 g)"
  shows "loop_post (nodes (Nd l n d r) (RF s p Red # LF g c u # D)) t
    (fix_ins (Nd l n d r) (RF s p Red # LF g c u # D)) (bst_fixup_insert_loop (Suc k) t n)"
proof -
  let ?T = "Nd l n d r"
  have n: "good n" "par t n = p" and up: "zip_rep t g (par t g) (Nd (Nd s p Red ?T) g c u) D" and nr: "n = bst_right t p"
    using zip by (auto simp: zip_rep_def)
  have N: "nodes ?T (RF s p Red # LF g c u # D) = nodes (Nd (Nd s p Red ?T) g c u) D" by auto
  show ?thesis
  proof (cases "is_red u")
    case True
    then obtain ul b ur where u: "u = Nd ul b Red ur" using is_red_node by blast
    have "loop_post (nodes (Nd (Nd s p Red ?T) g c u) D) t (fix_ins (Nd (Nd s p Black ?T) g Red (Nd ul b Black ur)) D)
        (bst_fixup_insert_loop k (upd_col g Red (upd_col b Black (upd_col p Black t))) g)"
      using fix_red_uncle(3) [OF up [unfolded u]] zip_nil_notin [OF up] u
      by (intro red_uncle_step [OF fix_red_uncle(1) [OF up [unfolded u]] _ _ _ nilc IH]) auto
    then show ?thesis unfolding N loop_left_red [OF up [unfolded u] n] using u by simp
  next
    case False
    from zip_rot_left_in_left [OF up] obtain t1
      where t1: "bst_rotate_left t p = Some t1" "zip_rep t1 g (par t g) (Nd (Nd (Nd s p Red l) n d r) g c u) D"
        "par t1 p = n" "frame_of (nodes (Nd (Nd s p Red ?T) g c u) D) t t1" by blast
    from fix_left_black [OF t1(2)] obtain t2
      where t2: "bst_rotate_right (upd_col g Red (upd_col n Black t1)) g = Some t2"
        "zip_rep t2 n (par t g) (Nd (Nd s p Red l) n Black (Nd r g Red u)) D"
        "frame_of (nodes (Nd (Nd (Nd s p Red l) n d r) g c u) D) t1 t2" by blast
    have "frame_of (nodes (Nd (Nd s p Red ?T) g c u) D) t t2"
      by (rule frame_trans [OF t1(4) frame_mono [OF t2(3)]]) auto
    with loop_left_black(2) [OF up n False nilc nr t1(1,3) n(1), of k] t2 False show ?thesis
      unfolding N by (intro loop_postI [OF _ t2(2)]) simp_all
  qed
qed

lemma fixup_LR:
  fixes t :: "('k, 'v) jfs_bst"
  assumes zip: "zip_rep t n q (Nd l n d r) (LF p Red s # RF u g c # D)" and nilc: "col t (nil t) = BST_BLACK"
    and IH: "\<And>(t1 :: ('k, 'v) jfs_bst) q G. zip_rep t1 g q G D \<Longrightarrow> G \<noteq> Lf \<Longrightarrow> col t1 (nil t1) = BST_BLACK \<Longrightarrow>
      loop_post (nodes G D) t1 (fix_ins G D) (bst_fixup_insert_loop k t1 g)"
  shows "loop_post (nodes (Nd l n d r) (LF p Red s # RF u g c # D)) t
    (fix_ins (Nd l n d r) (LF p Red s # RF u g c # D)) (bst_fixup_insert_loop (Suc k) t n)"
proof -
  let ?T = "Nd l n d r"
  have n: "good n" "par t n = p" and up: "zip_rep t g (par t g) (Nd u g c (Nd ?T p Red s)) D" and nl: "n = bst_left t p"
    using zip by (auto simp: zip_rep_def)
  have N: "nodes ?T (LF p Red s # RF u g c # D) = nodes (Nd u g c (Nd ?T p Red s)) D" by auto
  show ?thesis
  proof (cases "is_red u")
    case True
    then obtain ul b ur where u: "u = Nd ul b Red ur" using is_red_node by blast
    have "loop_post (nodes (Nd u g c (Nd ?T p Red s)) D) t (fix_ins (Nd (Nd ul b Black ur) g Red (Nd ?T p Black s)) D)
        (bst_fixup_insert_loop k (upd_col g Red (upd_col b Black (upd_col p Black t))) g)"
      using fix_red_uncle(4) [OF up [unfolded u]] zip_nil_notin [OF up] u
      by (intro red_uncle_step [OF fix_red_uncle(2) [OF up [unfolded u]] _ _ _ nilc IH]) auto
    then show ?thesis unfolding N loop_right_red [OF up [unfolded u] n] using u by simp
  next
    case False
    from zip_rot_right_in_right [OF up] obtain t1
      where t1: "bst_rotate_right t p = Some t1" "zip_rep t1 g (par t g) (Nd u g c (Nd l n d (Nd r p Red s))) D"
        "par t1 p = n" "frame_of (nodes (Nd u g c (Nd ?T p Red s)) D) t t1" by blast
    from fix_right_black [OF t1(2)] obtain t2
      where t2: "bst_rotate_left (upd_col g Red (upd_col n Black t1)) g = Some t2"
        "zip_rep t2 n (par t g) (Nd (Nd u g Red l) n Black (Nd r p Red s)) D"
        "frame_of (nodes (Nd u g c (Nd l n d (Nd r p Red s))) D) t1 t2" by blast
    have "frame_of (nodes (Nd u g c (Nd ?T p Red s)) D) t t2"
      by (rule frame_trans [OF t1(4) frame_mono [OF t2(3)]]) auto
    with loop_right_black(2) [OF up n False nilc nl t1(1,3) n(1), of k] t2 False show ?thesis
      unfolding N by (intro loop_postI [OF _ t2(2)]) simp_all
  qed
qed

lemma fixup_insert_loop:
  fixes t :: "('k, 'v) jfs_bst"
  assumes "zip_rep t n q T C" and "T \<noteq> Lf" and "col t (nil t) = BST_BLACK"
    and "C \<noteq> [] \<Longrightarrow> fcol (last C) = Black" and "length C < fuel"
  shows "loop_post (nodes T C) t (fix_ins T C) (bst_fixup_insert_loop fuel t n)"
  using assms
proof (induction fuel arbitrary: t n q T C rule: less_induct)
  case (less fuel)
  note zip = less.prems(1) and nilc = less.prems(3)
  obtain k where k: "fuel = Suc k" using less.prems(5) by (cases fuel) auto
  obtain l d r where T: "T = Nd l n d r" using zip less.prems(2) by (cases T) (auto simp: zip_rep_def)
  show ?case
  proof (cases "C = [] \<or> fcol (hd C) = Black")
    case True
    then have "fix_ins T C = plug T C" by (cases "(T, C)" rule: fix_ins.cases) auto
    then show ?thesis using loop_stop [OF zip [unfolded T] nilc True, of k] zip k T
      by (intro loop_postI [of _ t n q T C]) auto
  next
    case False
    then obtain f h D where C: "C = f # h # D" and f: "fcol f = Red"
      using less.prems(4) by (cases C rule: remdups_adj.cases) auto
    have last: "D \<noteq> [] \<Longrightarrow> fcol (last D) = Black" and len: "length D < k"
      using less.prems(4,5) C k by auto
    have IH: "loop_post (nodes G D) t1 (fix_ins G D) (bst_fixup_insert_loop k t1 g)"
      if "zip_rep t1 g q G D" "G \<noteq> Lf" "col t1 (nil t1) = BST_BLACK" for t1 :: "('k, 'v) jfs_bst" and g q G
      by (rule less.IH [OF _ that last len]) (use k in simp)
    note zip = zip [unfolded C T]
    consider p s g c u where "f = LF p Red s" "h = LF g c u" | p s g c u where "f = RF s p Red" "h = LF g c u"
      | p s g c u where "f = LF p Red s" "h = RF u g c" | p s g c u where "f = RF s p Red" "h = RF u g c"
      using f by (cases f; cases h) auto
    then show ?thesis
    proof cases
      case 1
      show ?thesis using zip unfolding C T k 1 by (rule fixup_LL [OF _ nilc IH])
    next
      case 2
      show ?thesis using zip unfolding C T k 2 by (rule fixup_RL [OF _ nilc IH])
    next
      case 3
      show ?thesis using zip unfolding C T k 3 by (rule fixup_LR [OF _ nilc IH])
    next
      case 4
      show ?thesis using zip unfolding C T k 4 by (rule fixup_RR [OF _ nilc IH])
    qed
  qed
qed

end
