(* ===== verification/Jfs_Bst_Insert.thy ===== *)
theory Jfs_Bst_Insert
  imports Jfs_Bst_Shape
begin

text \<open>
  Correctness of insertion in the binary search tree. The abstract tree of \<open>Jfs_Bst_Shape\<close>
  gets the red-black invariants, the balance they imply (the height is at most twice the
  logarithm of the size), and the order of the keys. The invariant \<open>bst_inv\<close> says that the
  pointers represent such a tree, that the free nodes are apart from it and that the cache holds its
  ends. \<open>jfs_bst_init\<close> establishes it, \<open>bst_find\<close> searches under it and \<open>jfs_bst_puts\<close> keeps it.
  The locale \<open>ordered_store\<close> is the contract the tree meets towards its clients.
\<close>

section \<open>Red-black invariants\<close>

fun bh :: "rbt \<Rightarrow> nat" where
  "bh Lf = 0"
| "bh (Nd l a c r) = bh l + (if c = Black then 1 else 0)"

fun invh :: "rbt \<Rightarrow> bool" where
  "invh Lf = True"
| "invh (Nd l a c r) \<longleftrightarrow> bh l = bh r \<and> invh l \<and> invh r"

fun invc :: "rbt \<Rightarrow> bool" where
  "invc Lf = True"
| "invc (Nd l a c r) \<longleftrightarrow> invc l \<and> invc r \<and> (c = Red \<longrightarrow> \<not> is_red l \<and> \<not> is_red r)"

definition rb :: "rbt \<Rightarrow> bool" where
  "rb T \<longleftrightarrow> invc T \<and> invh T \<and> \<not> is_red T"

text \<open>A path into which a tree of black height \<open>h\<close> fits, its root perhaps red below a red parent.\<close>

fun ctx_ok :: "nat \<Rightarrow> frame list \<Rightarrow> bool" where
  "ctx_ok h [] = True"
| "ctx_ok h (LF a c r # C) \<longleftrightarrow> invc r \<and> invh r \<and> bh r = h \<and>
     (c = Red \<longrightarrow> \<not> is_red r \<and> C \<noteq> [] \<and> fcol (hd C) = Black) \<and> ctx_ok (h + (if c = Black then 1 else 0)) C"
| "ctx_ok h (RF l a c # C) \<longleftrightarrow> invc l \<and> invh l \<and> bh l = h \<and>
     (c = Red \<longrightarrow> \<not> is_red l \<and> C \<noteq> [] \<and> fcol (hd C) = Black) \<and> ctx_ok (h + (if c = Black then 1 else 0)) C"

lemma plug_inv:
  "invc T \<Longrightarrow> invh T \<Longrightarrow> ctx_ok (bh T) C \<Longrightarrow> (C \<noteq> [] \<Longrightarrow> fcol (hd C) = Red \<Longrightarrow> \<not> is_red T) \<Longrightarrow>
     invc (plug T C) \<and> invh (plug T C)"
  by (induction T C rule: plug.induct) auto

lemma plug_black:
  assumes "invc T" and "invh T" and "\<not> is_red T" and "ctx_ok (bh T) C"
  shows "invc (plug T C)" and "invh (plug T C)"
  using plug_inv [OF assms(1,2,4)] assms(3) by auto

lemma bh_blacken: "is_red T \<Longrightarrow> bh (blacken T) = Suc (bh T)"
  by (cases T) auto

lemma inv_blacken: "invc T \<Longrightarrow> invc (blacken T)" "invh T \<Longrightarrow> invh (blacken T)" "\<not> is_red (blacken T)"
  by (cases T; simp)+

lemma plug_stop:
  assumes "invc T" and "invh T" and "ctx_ok (bh T) C" and "C = [] \<or> fcol (hd C) = Black \<or> length C = 1"
  shows "invc (plug T C) \<and> invh (plug T C)"
proof (rule plug_inv [OF assms(1-3)])
  assume "C \<noteq> []" and red: "fcol (hd C) = Red"
  with assms(4) obtain f where "C = [f]" by (cases C) auto
  with assms(3) red show "\<not> is_red T" by (cases f) auto
qed

lemma fix_ins_inv:
  "invc T \<Longrightarrow> invh T \<Longrightarrow> is_red T \<Longrightarrow> ctx_ok (bh T) C \<Longrightarrow> invc (fix_ins T C) \<and> invh (fix_ins T C)"
proof (induction T C rule: fix_ins.induct)
  case (1 T p s g c u C)
  then show ?case by (auto simp: bh_blacken inv_blacken intro!: plug_black)
next
  case (2 T s p g c u C)
  then show ?case by (cases T) (auto simp: bh_blacken inv_blacken intro!: plug_black)
next
  case (3 T p s u g c C)
  then show ?case by (cases T) (auto simp: bh_blacken inv_blacken intro!: plug_black)
next
  case (4 T s p u g c C)
  then show ?case by (auto simp: bh_blacken inv_blacken intro!: plug_black)
qed (simp only: fix_ins.simps, rule plug_stop, assumption+, simp)+


lemma ctx_ok_of_tree:
  "invc (plug T C) \<Longrightarrow> invh (plug T C) \<Longrightarrow> \<not> is_red (plug T C) \<Longrightarrow>
     invc T \<and> invh T \<and> ctx_ok (bh T) C \<and> (C \<noteq> [] \<and> fcol (hd C) = Red \<longrightarrow> \<not> is_red T) \<and>
     (C = [] \<longrightarrow> \<not> is_red T) \<and> (C \<noteq> [] \<longrightarrow> fcol (last C) = Black)"
proof (induction T C rule: plug.induct)
  case (2 T a c r C)
  then show ?case by (cases "C = []") auto
next
  case (3 T l a c C)
  then show ?case by (cases "C = []") auto
qed auto

text \<open>What lies left and right of the hole of a path.\<close>

fun lefts :: "frame list \<Rightarrow> addr list" where
  "lefts [] = []"
| "lefts (LF a c r # C) = lefts C"
| "lefts (RF l a c # C) = lefts C @ inorder l @ [a]"

fun rights :: "frame list \<Rightarrow> addr list" where
  "rights [] = []"
| "rights (LF a c r # C) = a # inorder r @ rights C"
| "rights (RF l a c # C) = rights C"

lemma inorder_plug: "inorder (plug T C) = lefts C @ inorder T @ rights C"
  by (induction T C rule: plug.induct) auto

section \<open>Finding\<close>

text \<open>The key of a node, and a comparison function that is three-way; values have their place in the objects.\<close>

definition node_value :: "('k, 'v) jfs_bst \<Rightarrow> addr \<Rightarrow> 'v" where
  "node_value t a = value_at t (a + value_offset t)"

definition cmp_ok :: "('v \<Rightarrow> 'k::linorder) \<Rightarrow> ('k, 'v) jfs_bst \<Rightarrow> bool" where
  "cmp_ok kf t \<longleftrightarrow> value_offset t > 0 \<and> value_inside t \<and>
     (\<exists>cmp. bst_cmp t = Some cmp \<and> (\<forall>k v. cmp k v = (if k < kf v then -1 else if k = kf v then 0 else 1)))"

abbreviation key_of :: "('v \<Rightarrow> 'k::linorder) \<Rightarrow> ('k, 'v) jfs_bst \<Rightarrow> addr \<Rightarrow> 'k" where
  "key_of kf t a \<equiv> kf (node_value t a)"

lemma compare_ok:
  "cmp_ok kf t \<Longrightarrow> bst_compare t k a = Some (if k < key_of kf t a then -1 else if k = key_of kf t a then 0 else 1)"
  by (auto simp: bst_compare_def bst_container_value_def jfs_mlg_apply_offset_def
      cmp_ok_def node_value_def)

text \<open>
  The loop follows the key down. It ends at the node with the key, or at a hole whose
  path separates the smaller keys from the larger ones.
\<close>

definition find_post ::
  "('v \<Rightarrow> 'k::linorder) \<Rightarrow> ('k, 'v) jfs_bst \<Rightarrow> rbt \<Rightarrow> 'k \<Rightarrow> bst_location option \<Rightarrow> bool" where
  "find_post kf t T k res \<longleftrightarrow> (\<exists>loc. res = Some loc \<and>
     (if \<exists>a\<in>set (inorder T). key_of kf t a = k
      then loc_node loc \<in> set (inorder T) \<and> key_of kf t (loc_node loc) = k
      else loc_node loc = nil t \<and> (\<exists>C. zip_rep t (nil t) (loc_parent loc) Lf C \<and> plug Lf C = T \<and>
        (\<forall>a\<in>set (lefts C). key_of kf t a < k) \<and> (\<forall>a\<in>set (rights C). k < key_of kf t a) \<and>
        loc_parent_cmp loc = (case C of [] \<Rightarrow> 0 | LF _ _ _ # _ \<Rightarrow> -1 | RF _ _ _ # _ \<Rightarrow> 1))))"

lemma sorted_keys_split:
  assumes "sorted_wrt (<) (map f (inorder (plug (Nd l a c r) C)))"
  shows "\<forall>x\<in>set (lefts C) \<union> set (inorder l). f x < f a" and "\<forall>x\<in>set (rights C) \<union> set (inorder r). f a < f x"
  using assms by (auto simp: inorder_plug sorted_wrt_append)

fun tsize :: "rbt \<Rightarrow> nat" where
  "tsize Lf = 0"
| "tsize (Nd l a c r) = tsize l + 1 + tsize r"

lemma length_inorder: "length (inorder T) = tsize T"
  by (induction T) auto

fun theight :: "rbt \<Rightarrow> nat" where
  "theight Lf = 0"
| "theight (Nd l a c r) = Suc (max (theight l) (theight r))"

lemma ctx_height: "theight T + length C \<le> theight (plug T C)"
  by (induction T C rule: plug.induct) auto

text \<open>Red-black trees are balanced.\<close>

lemma height_bh: "invc T \<Longrightarrow> invh T \<Longrightarrow> theight T \<le> 2 * bh T + (if is_red T then 1 else 0)"
proof (induction T)
  case (Nd l a c r)
  then show ?case by (cases c) (auto split: if_splits)
qed simp

lemma bh_size: "invh T \<Longrightarrow> 2 ^ bh T \<le> tsize T + 1"
proof (induction T)
  case (Nd l a c r)
  then show ?case by (cases c) auto
qed simp

lemma rb_height: "rb T \<Longrightarrow> tsize T + 1 \<le> 2 ^ k \<Longrightarrow> theight T \<le> 2 * k"
proof -
  assume rb: "rb T" and "tsize T + 1 \<le> 2 ^ k"
  moreover have "2 ^ bh T \<le> tsize T + 1" using bh_size [of T] rb by (simp add: rb_def)
  ultimately have "(2::nat) ^ bh T \<le> 2 ^ k" by linarith
  then have "bh T \<le> k" by (rule power_le_imp_le_exp [rotated]) simp
  then show "theight T \<le> 2 * k" using height_bh [of T] rb by (simp add: rb_def)
qed

lemma find_loop:
  fixes t :: "('k::linorder, 'v) jfs_bst"
  assumes "zip_rep t p q T C" and "cmp_ok kf t" and "sorted_wrt (<) (map (key_of kf t) (inorder (plug T C)))"
    and "\<forall>a\<in>set (lefts C). key_of kf t a < k" and "\<forall>a\<in>set (rights C). k < key_of kf t a"
    and "m = (case C of [] \<Rightarrow> 0 | LF _ _ _ # _ \<Rightarrow> -1 | RF _ _ _ # _ \<Rightarrow> 1)" and "theight T < fuel"
  shows "find_post kf t (plug T C) k (bst_find_loop fuel t k \<lparr>loc_node = p, loc_parent = q, loc_parent_cmp = m\<rparr>)"
  using assms
proof (induction T arbitrary: p q C m fuel)
  case Lf
  obtain n where n: "fuel = Suc n" using Lf.prems(7) by (cases fuel) auto
  have p: "p = nil t" using Lf.prems(1) by (simp add: zip_rep_def)
  have "\<not> (\<exists>a\<in>set (inorder (plug Lf C)). key_of kf t a = k)"
    using Lf.prems(4,5) by (auto simp: inorder_plug)
  then show ?case using Lf.prems p n unfolding find_post_def by auto
next
  case (Nd l a c r)
  obtain n where n: "fuel = Suc n" using Nd.prems(7) by (cases fuel) auto
  have p: "p = a" "a \<noteq> nil t" using Nd.prems(1) by (auto simp: zip_rep_def)
  note order = sorted_keys_split [OF Nd.prems(3)]
  show ?case
  proof (cases "k = key_of kf t a")
    case True
    then show ?thesis using p n compare_ok [OF Nd.prems(2), of k a]
      by (auto simp: find_post_def inorder_plug_set)
  next
    case neq: False
    show ?thesis
    proof (cases "k < key_of kf t a")
      case True
      have "find_post kf t (plug l (LF a c r # C)) k (bst_find_loop n t k
          \<lparr>loc_node = bst_left t a, loc_parent = a, loc_parent_cmp = -1\<rparr>)"
      proof (rule Nd.IH(1) [OF zip_down_left [OF Nd.prems(1) [unfolded p]] Nd.prems(2)])
        show "\<forall>x\<in>set (rights (LF a c r # C)). k < key_of kf t x"
          using Nd.prems(5) order(2) True by (auto intro: less_trans)
      qed (use Nd.prems(3,4,7) n in simp_all)
      then show ?thesis using p n True compare_ok [OF Nd.prems(2), of k a] by simp
    next
      case False
      have "find_post kf t (plug r (RF l a c # C)) k (bst_find_loop n t k
          \<lparr>loc_node = bst_right t a, loc_parent = a, loc_parent_cmp = 1\<rparr>)"
      proof (rule Nd.IH(2) [OF zip_down_right [OF Nd.prems(1) [unfolded p]] Nd.prems(2)])
        have "key_of kf t a < k" using False neq by simp
        then show "\<forall>x\<in>set (lefts (RF l a c # C)). key_of kf t x < k"
          using Nd.prems(4) order(1) by (auto intro: less_trans)
      qed (use Nd.prems(3,5,7) n in simp_all)
      then show ?thesis using p n False neq compare_ok [OF Nd.prems(2), of k a] by simp
    qed
  qed
qed


section \<open>Inserting\<close>

lemma recol_root: "distinct (inorder (Nd l a c r)) \<Longrightarrow> recol a Black (Nd l a c r) = blacken (Nd l a c r)"
  by simp

text \<open>Painting the root black.\<close>

lemma blacken_root:
  assumes "tree_rep t (root t) (nil t) T" and "distinct (inorder T)" and "T \<noteq> Lf"
  shows "bst_set_color t (root t) BST_BLACK = Some (upd_col (root t) Black t) \<and>
    tree_rep (upd_col (root t) Black t) (root t) (nil t) (blacken T) \<and> root t \<in> set (inorder T)"
proof -
  obtain l a c r where T: "T = Nd l a c r" using assms(3) by (cases T) auto
  have a: "root t = a" "good a" using assms(1) T by auto
  have "tree_rep (upd_col a Black t) (root t) (nil t) (recol a Black T)" by (rule tree_recol [OF assms(1)])
  then show ?thesis using a assms(2) T by (simp add: recol_root)
qed

definition link_node :: "('k, 'v) jfs_bst \<Rightarrow> addr \<Rightarrow> addr \<Rightarrow> ('k, 'v) jfs_bst" where
  "link_node t node q =
     (let t = set_right (set_left t node (nil t)) node (nil t)
      in t\<lparr>parent_color := (parent_color t)(node := q OR BST_RED)\<rparr>)"

lemma link_node:
  assumes "good q"
  shows "par (link_node t node q) = (par t)(node := q)" and "col (link_node t node q) = (col t)(node := BST_RED)"
    and "bst_left (link_node t node q) = (bst_left t)(node := nil t)"
    and "bst_right (link_node t node q) = (bst_right t)(node := nil t)"
    and "root (link_node t node q) = root t" and "nil (link_node t node q) = nil t"
    and "frame_of {node} t (link_node t node q)"
  using assms join_parent [of q 0] join_color [of q 0]
  by (auto simp: link_node_def set_left_def set_right_def par_def col_def fun_eq_iff BST_RED_def frame_of_def Let_def)

lemma bst_insert_link:
  assumes "good q" and "good node" and "loc_node loc = nil t" and "loc_parent loc = q"
  shows "bst_insert fuel t node loc = do {
      t \<leftarrow> (if q = nil t then do { c_assert (root t = nil t); Some ((link_node t node q)\<lparr>root := node\<rparr>) }
            else do { c_assert (loc_parent_cmp loc \<noteq> 0);
              if loc_parent_cmp loc = -1 then Some (set_left (link_node t node q) q node)
              else Some (set_right (link_node t node q) q node) });
      bst_fixup_insert fuel t node }"
  using assms by (simp add: bst_insert_def bst_set_parent_color_def link_node_def Let_def set_left_def set_right_def cong: if_cong)

lemma attach_leaf:
  assumes zip: "zip_rep t (nil t) q Lf C" and node: "good node" "node \<noteq> nil t" "node \<notin> set (ctx_addrs C)"
    and loc: "loc_node loc = nil t" "loc_parent loc = q"
      "loc_parent_cmp loc = (case C of [] \<Rightarrow> 0 | LF _ _ _ # _ \<Rightarrow> -1 | RF _ _ _ # _ \<Rightarrow> 1)"
  shows "\<exists>t'. bst_insert fuel t node loc = bst_fixup_insert fuel t' node \<and>
    zip_rep t' node q (Nd Lf node Red Lf) C \<and> frame_of (insert node (set (ctx_addrs C))) t t'"
proof -
  let ?t = "link_node t node q"
  have q: "good q" using zip ctx_parent by (auto simp: zip_rep_def)
  note link = link_node [OF q, where node = node and t = t]
  have ctx: "ctx_rep ?t (nil t) q C"
    using zip node by (subst ctx_rep_frame [OF link(7)]) (auto simp: link zip_rep_def)
  note ins = bst_insert_link [OF q node(1) loc(1,2), of fuel]
  show ?thesis
  proof (cases "(t, nil t, q, C)" rule: ctx_rep.cases)
    case 1
    let ?u = "?t\<lparr>root := node\<rparr>"
    have "frame_of (insert node (set (ctx_addrs C))) t ?u"
      by (rule frame_trans [OF frame_mono [OF link(7)]]) auto
    then show ?thesis using 1 zip node ctx ins
      by (intro exI [of _ ?u]) (auto simp: zip_rep_def link_node(1-6))
  next
    case (2 t0 p0 q0 a c r D)
    then have C: "C = LF a c r # D" and a: "q = a" "a \<noteq> nil t" "node \<noteq> a" using ctx node link by auto
    let ?u = "set_left ?t a node"
    have f: "frame_of {a} ?t ?u" by simp
    have dist: "distinct (ctx_addrs C)" using zip by (simp add: zip_rep_def)
    have "tree_rep ?u x y r = tree_rep ?t x y r" "ctx_rep ?u x y D = ctx_rep ?t x y D" for x y
      using dist C by (auto intro!: tree_rep_frame [OF f] ctx_rep_frame [OF f])
    moreover have "frame_of (insert node (set (ctx_addrs C))) t ?u"
      by (rule frame_trans [OF frame_mono [OF link(7)] frame_mono [OF f]]) (use C in auto)
    ultimately show ?thesis using C a zip node ctx ins loc(3)
      by (intro exI [of _ ?u]) (auto simp: zip_rep_def link_node(1-6))
  next
    case (3 t0 p0 q0 l a c D)
    then have C: "C = RF l a c # D" and a: "q = a" "a \<noteq> nil t" "node \<noteq> a" using ctx node link by auto
    let ?u = "set_right ?t a node"
    have f: "frame_of {a} ?t ?u" by simp
    have dist: "distinct (ctx_addrs C)" using zip by (simp add: zip_rep_def)
    have "tree_rep ?u x y l = tree_rep ?t x y l" "ctx_rep ?u x y D = ctx_rep ?t x y D" for x y
      using dist C by (auto intro!: tree_rep_frame [OF f] ctx_rep_frame [OF f])
    moreover have "frame_of (insert node (set (ctx_addrs C))) t ?u"
      by (rule frame_trans [OF frame_mono [OF link(7)] frame_mono [OF f]]) (use C in auto)
    ultimately show ?thesis using C a zip node ctx ins loc(3)
      by (intro exI [of _ ?u]) (auto simp: zip_rep_def link_node(1-6))
  qed
qed

lemma bst_insert_spec:
  fixes t :: "('k, 'v) jfs_bst"
  assumes zip: "zip_rep t (nil t) q Lf C" and nilc: "col t (nil t) = BST_BLACK"
    and node: "good node" "node \<noteq> nil t" "node \<notin> set (ctx_addrs C)"
    and black: "C \<noteq> [] \<Longrightarrow> fcol (last C) = Black"
    and loc: "loc_node loc = nil t" "loc_parent loc = q"
      "loc_parent_cmp loc = (case C of [] \<Rightarrow> 0 | LF _ _ _ # _ \<Rightarrow> -1 | RF _ _ _ # _ \<Rightarrow> 1)"
    and fuel: "length C < fuel"
  shows "\<exists>t'. bst_insert fuel t node loc = Some t' \<and>
    tree_rep t' (root t') (nil t') (blacken (fix_ins (Nd Lf node Red Lf) C)) \<and>
    frame_of (insert node (set (ctx_addrs C))) t t'"
proof -
  let ?T = "Nd Lf node Red Lf" and ?N = "insert node (set (ctx_addrs C))"
  obtain t1 where t1: "bst_insert fuel t node loc = bst_fixup_insert fuel t1 node"
      "zip_rep t1 node q ?T C" "frame_of ?N t t1"
    using attach_leaf [OF zip node loc] by blast
  have N: "nodes ?T C = ?N" by auto
  have "nil t \<notin> ?N" using zip_nil_notin [OF zip] node by simp
  then have nilc1: "col t1 (nil t1) = BST_BLACK" using frame_col_nil [OF t1(3)] nilc by simp
  obtain t2 p2 q2 T2 C2 where t2: "bst_fixup_insert_loop fuel t1 node = Some t2" "zip_rep t2 p2 q2 T2 C2"
      "plug T2 C2 = fix_ins ?T C" "frame_of ?N t1 t2"
    using fixup_insert_loop [OF t1(2) _ nilc1 black fuel] by (auto simp: loop_post_def N)
  let ?F = "fix_ins ?T C"
  have tree: "tree_rep t2 (root t2) (nil t2) ?F" "distinct (inorder ?F)" using zip_tree [OF t2(2)] t2(3) by simp_all
  have in_F: "set (inorder ?F) = ?N" by (simp add: inorder_fix_ins inorder_plug_set)
  then have "?F \<noteq> Lf" by (metis empty_iff inorder.simps(1) insertI1 list.set(1))
  note fin = blacken_root [OF tree this]
  have "root t1 \<noteq> nil t1"
    using zip_tree [OF t1(2)] tree_rep_nonnil inorder_plug_set
    by (metis N in_F insertI1 tree_rep.simps(1) tree_rep_in empty_iff inorder.simps(1) list.set(1) rbt.exhaust tree_rep.simps(2))
  moreover have "bst_color t1 node = Some BST_RED" "node \<noteq> nil t1" using t1(2) by (auto simp: zip_rep_def)
  ultimately have "bst_fixup_insert fuel t1 node = Some (upd_col (root t2) Black t2)"
    using t2(1) fin by (simp add: bst_fixup_insert_def)
  moreover have "frame_of ?N t (upd_col (root t2) Black t2)"
    using fin in_F by (intro frame_trans [OF t1(3) frame_trans [OF t2(4)]]) simp
  ultimately show ?thesis using t1(1) fin by (intro exI [of _ "upd_col (root t2) Black t2"]) simp
qed


section \<open>The new leaf at the ends of the tree\<close>

fun sub :: "rbt \<Rightarrow> rbt \<Rightarrow> bool" where
  "sub S Lf \<longleftrightarrow> S = Lf"
| "sub S (Nd l a c r) \<longleftrightarrow> S = Nd l a c r \<or> sub S l \<or> sub S r"

lemma sub_refl [simp]: "sub S S"
  by (cases S) auto

lemma sub_trans: "sub S T \<Longrightarrow> sub T U \<Longrightarrow> sub S U"
  by (induction U) auto

lemma sub_children: "sub (Nd l a c r) U \<Longrightarrow> sub l U \<and> sub r U"
  using sub_trans [of l "Nd l a c r" U] sub_trans [of r "Nd l a c r" U] by auto

lemma sub_plug: "sub T (plug T C)"
  by (induction T C rule: plug.induct) (auto dest: sub_children)

lemma sub_tree_rep: "tree_rep t p q T \<Longrightarrow> sub (Nd l a c r) T \<Longrightarrow> tree_rep t a (par t a) (Nd l a c r)"
  by (induction T arbitrary: p q) auto

lemma sub_fix_ins: "lefts C = [] \<Longrightarrow> sub T (fix_ins T C)"
proof (induction T C rule: fix_ins.induct)
  case (1 T p s g c u C)
  then show ?case
    using sub_plug [of "Nd T p Black (Nd s g Red u)" C] by (auto dest!: sub_children)
qed (use sub_plug in \<open>force dest: sub_children\<close>)+

lemma sub_blacken: "sub (Nd l a c r) F \<Longrightarrow> \<exists>c. sub (Nd l a c r) (blacken F)"
  by (cases F) auto

lemma min_left_child:
  assumes "lefts (LF q c r # D) = []"
  shows "\<exists>c' r'. sub (Nd T q c' r') (blacken (fix_ins T (LF q c r # D)))"
proof -
  have "\<exists>c' r'. sub (Nd T q c' r') (fix_ins T (LF q c r # D))"
  proof (cases "c = Red \<and> D \<noteq> []")
    case False
    then have "fix_ins T (LF q c r # D) = plug (Nd T q c r) D" by (cases c; cases D) auto
    then show ?thesis using sub_plug by metis
  next
    case True
    then obtain g d u E where D: "D = LF g d u # E" using assms
      by (cases D rule: lefts.cases) auto
    show ?thesis
    proof (cases "is_red u")
      case True
      have "sub (Nd (Nd T q Black r) g Red (blacken u)) (fix_ins (Nd (Nd T q Black r) g Red (blacken u)) E)"
        using assms D by (intro sub_fix_ins) simp
      then have "sub (Nd T q Black r) (fix_ins (Nd (Nd T q Black r) g Red (blacken u)) E)"
        by (rule sub_trans [rotated]) simp
      then show ?thesis using \<open>c = Red \<and> D \<noteq> []\<close> D True by auto
    next
      case False
      then show ?thesis using \<open>c = Red \<and> D \<noteq> []\<close> D sub_plug [of "Nd T q Black (Nd r g Red u)" E] by auto
    qed
  qed
  then show ?thesis using sub_blacken by blast
qed

lemma mir_plug: "mir (plug T C) = plug (mir T) (map mirf C)"
  by (induction T C rule: plug.induct) auto

lemma is_red_mir [simp]: "is_red (mir T) = is_red T"
  by (cases T) auto

lemma mir_blacken: "mir (blacken T) = blacken (mir T)"
  by (cases T) auto

lemma mir_fix_ins: "mir (fix_ins T C) = fix_ins (mir T) (map mirf C)"
  by (induction T C rule: fix_ins.induct) (auto simp: mir_plug mir_blacken split: rbt.splits)

lemma lefts_mir: "lefts (map mirf C) = rev (rights C)"
proof (induction C)
  case (Cons f C)
  have "inorder (mir T) = rev (inorder T)" for T by (induction T) auto
  with Cons show ?case by (cases f) auto
qed simp

lemma mir_inj [simp]: "mir S = mir T \<longleftrightarrow> S = T"
  using mir_mir by metis

lemma sub_mir: "sub (mir S) (mir T) = sub S T"
proof (induction T)
  case Lf
  show ?case using mir_inj [of S Lf] by simp
next
  case (Nd l a c r)
  then show ?case using mir_inj [of S "Nd l a c r"] by auto
qed

lemma max_right_child:
  assumes "rights (RF l q c # D) = []"
  shows "\<exists>c' l'. sub (Nd l' q c' T) (blacken (fix_ins T (RF l q c # D)))"
proof -
  have "lefts (LF q c (mir l) # map mirf D) = []" using assms lefts_mir [of D] by simp
  from min_left_child [OF this, of "mir T"] obtain c' r'
    where "sub (Nd (mir T) q c' r') (mir (blacken (fix_ins T (RF l q c # D))))"
    by (auto simp: mir_blacken mir_fix_ins)
  then have "sub (mir (Nd (mir r') q c' T)) (mir (blacken (fix_ins T (RF l q c # D))))" by simp
  then show ?thesis unfolding sub_mir by blast
qed

section \<open>The invariant of a tree\<close>

definition bst_inv ::
  "('v \<Rightarrow> 'k::linorder) \<Rightarrow> ('k, 'v) jfs_bst \<Rightarrow> rbt \<Rightarrow> addr list \<Rightarrow> bool" where
  "bst_inv kf t T xs \<longleftrightarrow> tree_rep t (root t) (nil t) T \<and> distinct (inorder T) \<and> good (nil t) \<and>
     col t (nil t) = BST_BLACK \<and> rb T \<and> cmp_ok kf t \<and> sorted_wrt (<) (map (key_of kf t) (inorder T)) \<and>
     fl_inv (free_list t) (parent_color t) xs \<and> (\<forall>a\<in>set xs. good a \<and> a \<noteq> nil t \<and> a \<notin> set (inorder T)) \<and>
     (if T = Lf then cache_smallest t = nil t \<and> cache_largest t = nil t \<and> cache_previous t = nil t
      else cache_smallest t = hd (inorder T) \<and> cache_largest t = last (inorder T) \<and>
        (cache_previous t = nil t \<or> cache_previous t \<in> set (inorder T)))"

lemma inorder_Lf [simp]: "inorder T = [] \<longleftrightarrow> T = Lf"
  by (cases T) auto

lemma check_cache_miss:
  assumes inv: "bst_inv kf t T xs" and new: "\<forall>a\<in>set (inorder T). key_of kf t a \<noteq> k"
  shows "bst_check_cache t k = Some (nil t)"
proof -
  have cmp: "cmp_ok kf t" using inv by (simp add: bst_inv_def)
  have "a = nil t \<or> (\<exists>c. bst_compare t k a = Some c \<and> c \<noteq> 0)"
    if "a \<in> {cache_previous t, cache_largest t, cache_smallest t}" for a
  proof -
    have "a = nil t \<or> a \<in> set (inorder T)"
      using inv that by (cases "T = Lf") (auto simp: bst_inv_def)
    then show ?thesis using new compare_ok [OF cmp, of k a] by auto
  qed
  then have "cache_previous t = nil t \<or> (\<exists>c. bst_compare t k (cache_previous t) = Some c \<and> c \<noteq> 0)"
    "cache_largest t = nil t \<or> (\<exists>c. bst_compare t k (cache_largest t) = Some c \<and> c \<noteq> 0)"
    "cache_smallest t = nil t \<or> (\<exists>c. bst_compare t k (cache_smallest t) = Some c \<and> c \<noteq> 0)" by auto
  then show ?thesis by (auto simp: bst_check_cache_def)
qed


text \<open>The cache after an insertion: the ends of the tree again.\<close>

lemma cache_insert:
  fixes t :: "('k, 'v) jfs_bst"
  assumes tree: "tree_rep t (root t) (nil t) (blacken (fix_ins (Nd Lf node Red Lf) C))"
    and zip: "zip_rep t0 (nil t) q Lf C" and node: "node \<noteq> nil t" and nil0: "nil t0 = nil t"
    and cache: "if C = [] then cache_smallest t = nil t \<and> cache_largest t = nil t
      else cache_smallest t = hd (lefts C @ rights C) \<and> cache_largest t = last (lefts C @ rights C)"
    and loc: "loc_parent loc = q"
      "loc_parent_cmp loc = (case C of [] \<Rightarrow> 0 | LF _ _ _ # _ \<Rightarrow> -1 | RF _ _ _ # _ \<Rightarrow> 1)"
  shows "bst_update_cache_insert t loc =
    t\<lparr>cache_smallest := hd (lefts C @ node # rights C), cache_largest := last (lefts C @ node # rights C)\<rparr>"
proof -
  have dist: "distinct (lefts C @ rights C)"
    using zip distinct_plug [of Lf C] inorder_plug [of Lf C] by (simp add: zip_rep_def)
  have nonnil: "nil t \<notin> set (lefts C) \<union> set (rights C)"
    using zip_nil_notin [OF zip] inorder_plug [of Lf C] inorder_plug_set [of Lf C] nil0 by auto
  have big: "cache_largest t \<noteq> nil t" if "C \<noteq> []"
  proof -
    have "lefts C @ rights C \<noteq> []" using that by (cases C rule: lefts.cases) auto
    then show ?thesis using cache that nonnil last_in_set [of "lefts C @ rights C"] by auto
  qed
  show ?thesis
  proof (cases C rule: lefts.cases)
    case 1
    then have "root t = node" using tree by simp
    then show ?thesis using 1 cache loc by (simp add: bst_update_cache_insert_def)
  next
    case (2 a c r D)
    have a: "q = a" using zip 2 by (simp add: zip_rep_def)
    have last: "last (lefts C @ node # rights C) = cache_largest t" using cache 2 by simp
    have "bst_left t a = node" if at_end: "lefts C = []"
    proof -
      obtain c' r' where "sub (Nd (Nd Lf node Red Lf) a c' r') (blacken (fix_ins (Nd Lf node Red Lf) C))"
        using min_left_child [of a c r D "Nd Lf node Red Lf"] at_end 2 by auto
      from sub_tree_rep [OF tree this] show ?thesis by simp
    qed
    moreover have "cache_smallest t = a \<longleftrightarrow> lefts C = []"
      using cache 2 dist by (cases "lefts C") auto
    moreover have "cache_largest t \<noteq> nil t" using big 2 by simp
    ultimately show ?thesis using 2 loc a last cache
      by (cases "lefts C") (auto simp: bst_update_cache_insert_def)
  next
    case (3 l a c D)
    have a: "q = a" using zip 3 by (simp add: zip_rep_def)
    have hd: "hd (lefts C @ node # rights C) = cache_smallest t" using cache 3 by (simp add: hd_append)
    have "bst_right t a = node" if at_end: "rights C = []"
    proof -
      obtain c' l' where "sub (Nd l' a c' (Nd Lf node Red Lf)) (blacken (fix_ins (Nd Lf node Red Lf) C))"
        using max_right_child [of l a c D "Nd Lf node Red Lf"] at_end 3 by auto
      from sub_tree_rep [OF tree this] show ?thesis by simp
    qed
    moreover have "cache_largest t = a \<longleftrightarrow> rights C = []"
    proof (cases "rights C = []")
      case True
      then show ?thesis using cache 3 by simp
    next
      case False
      then have "last (lefts C @ rights C) \<in> set (rights C)" by simp
      then show ?thesis using cache 3 dist False by auto
    qed
    moreover have "cache_largest t \<noteq> nil t" using big 3 by simp
    ultimately show ?thesis using 3 loc a hd cache
      by (cases "rights C = []") (auto simp: bst_update_cache_insert_def)
  qed
qed

lemma tree_rep_same:
  assumes "parent_color t' = parent_color t" "bst_left t' = bst_left t" "bst_right t' = bst_right t" "nil t' = nil t"
  shows "tree_rep t' p q T = tree_rep t p q T"
  using assms by (intro tree_rep_cong) (simp_all add: par_def col_def)


lemma heap_list_frame:
  assumes "fl_inv fl pc xs" and "\<And>a. a \<in> set xs \<Longrightarrow> pc' a = pc a"
  shows "fl_inv fl pc' xs"
  using assms heap_list_cong [of xs pc' pc] by (simp add: fl_inv_def)

text \<open>Storing the value in a node taken from the free list leaves the tree as it is.\<close>

lemma pack_inv:
  assumes inv: "bst_inv kf t T (node # ys)"
  obtains t1 where "bst_pack_node (t\<lparr>free_list := snd (jfs_fl_alloc (free_list t) (parent_color t))\<rparr>) node v =
      Some (node + value_offset t, t1)"
    "bst_inv kf t1 T ys" "node_value t1 node = v" "\<And>a. a \<in> set (inorder T) \<Longrightarrow> node_value t1 a = node_value t a"
    "node \<notin> set (inorder T)" "node \<notin> set ys" "good node" "node \<noteq> nil t1"
proof -
  let ?fl = "snd (jfs_fl_alloc (free_list t) (parent_color t))"
  let ?t = "t\<lparr>free_list := ?fl, value_at := (value_at t)(node + value_offset t := v)\<rparr>"
  have fl: "fl_inv (free_list t) (parent_color t) (node # ys)" and off: "value_offset t > 0" "value_inside t"
    and node: "node \<notin> set (inorder T)" "good node" "node \<noteq> nil t" using inv by (auto simp: bst_inv_def cmp_ok_def)
  have "distinct (node # ys)" using fl heap_list_distinct [of "parent_color t" "fl_list (free_list t)" "node # ys"] by (simp add: fl_inv_def)
  then have "node \<notin> set ys" by simp
  have val: "node_value ?t a = node_value t a" if "a \<in> set (inorder T)" for a
    using that node(1) by (auto simp: node_value_def)
  have keys: "map (key_of kf ?t) (inorder T) = map (key_of kf t) (inorder T)" using val by simp
  have "col ?t = col t" by (simp add: col_def fun_eq_iff)
  moreover have "tree_rep ?t p q T = tree_rep t p q T" for p q by (rule tree_rep_same) simp_all
  moreover have "cmp_ok kf ?t = cmp_ok kf t" by (simp add: cmp_ok_def value_inside_def)
  moreover have "fl_inv ?fl (parent_color t) ys" by (rule fl_alloc_cons(2) [OF fl])
  ultimately have "bst_inv kf ?t T ys" using inv unfolding bst_inv_def keys by simp
  moreover have "bst_pack_node (t\<lparr>free_list := ?fl\<rparr>) node v = Some (node + value_offset t, ?t)"
    using off by (simp add: bst_pack_node_def value_inside_def bst_container_value_def jfs_mlg_apply_offset_def)
  ultimately show thesis using val node \<open>node \<notin> set ys\<close> by (intro that [of ?t]) (auto simp: node_value_def)
qed

lemma sorted_insert:
  assumes "sorted_wrt (<) (map f (ls @ rs))" and "\<forall>a\<in>set ls. f a < k" and "\<forall>a\<in>set rs. (k::'k::linorder) < f a"
    and "f n = k"
  shows "sorted_wrt (<) (map f (ls @ n # rs))"
  using assms by (fastforce simp: sorted_wrt_append)

lemma filter_split:
  assumes "\<forall>a\<in>set ls. f a < k" and "\<forall>a\<in>set rs. (k::'k::linorder) < f a"
  shows "filter (\<lambda>a. f a < k) ls = ls" and "filter (\<lambda>a. f a < k) rs = []"
    and "filter (\<lambda>a. k < f a) ls = []" and "filter (\<lambda>a. k < f a) rs = rs"
  using assms by (auto simp: filter_id_conv filter_empty_conv)

text \<open>Linking the node at the place the search found.\<close>

lemma insert_inv:
  fixes t :: "('k::linorder, 'v) jfs_bst"
  assumes inv: "bst_inv kf t T ys" and node: "node \<notin> set (inorder T)" "node \<notin> set ys" "good node" "node \<noteq> nil t"
    and C: "zip_rep t (nil t) (loc_parent loc) Lf C" "plug Lf C = T"
      "\<forall>a\<in>set (lefts C). key_of kf t a < key_of kf t node" "\<forall>a\<in>set (rights C). key_of kf t node < key_of kf t a"
      "loc_parent_cmp loc = (case C of [] \<Rightarrow> 0 | LF _ _ _ # _ \<Rightarrow> -1 | RF _ _ _ # _ \<Rightarrow> 1)"
    and loc: "loc_node loc = nil t" and fuel: "theight T < fuel"
  shows "\<exists>t2 T'. bst_insert fuel t node loc = Some t2 \<and>
    bst_inv kf ((bst_update_cache_insert t2 loc)\<lparr>cache_previous := node\<rparr>) T' ys \<and>
    inorder T' = lefts C @ node # rights C \<and>
    node_value ((bst_update_cache_insert t2 loc)\<lparr>cache_previous := node\<rparr>) = node_value t"
proof -
  let ?F = "fix_ins (Nd Lf node Red Lf) C" and ?N = "insert node (set (ctx_addrs C))"
  have in_T: "inorder T = lefts C @ rights C" using C(2) inorder_plug [of Lf C] by simp
  have set_T: "set (inorder T) = set (ctx_addrs C)" using C(2) inorder_plug_set [of Lf C] by simp
  have rbT: "rb T" and nilc: "col t (nil t) = BST_BLACK" and cmp: "cmp_ok kf t" and nl: "good (nil t)"
    and sorted: "sorted_wrt (<) (map (key_of kf t) (inorder T))" and fl: "fl_inv (free_list t) (parent_color t) ys"
    using inv by (auto simp: bst_inv_def)
  note ok = ctx_ok_of_tree [of Lf C] rbT [unfolded rb_def]
  have black: "C \<noteq> [] \<Longrightarrow> fcol (last C) = Black" and cok: "ctx_ok 0 C" using ok C(2) by auto
  have "length C < fuel" using ctx_height [of Lf C] C(2) fuel by simp
  with bst_insert_spec [OF C(1) nilc node(3,4) _ black loc refl C(5)] node(1) obtain t2
    where t2: "bst_insert fuel t node loc = Some t2" "tree_rep t2 (root t2) (nil t2) (blacken ?F)"
      "frame_of ?N t t2" unfolding set_T by blast
  let ?t = "(bst_update_cache_insert t2 loc)\<lparr>cache_previous := node\<rparr>"
  have same: "nil t2 = nil t" "value_at t2 = value_at t" "value_offset t2 = value_offset t" "value_size t2 = value_size t" "free_list t2 = free_list t"
    "bst_cmp t2 = bst_cmp t" "cache_smallest t2 = cache_smallest t" "cache_largest t2 = cache_largest t"
    using t2(3) by (simp_all add: frame_of_def)
  have "C = [] \<longleftrightarrow> T = Lf" using C(2) in_T by (cases C rule: lefts.cases) auto
  then have cache: "if C = [] then cache_smallest t2 = nil t2 \<and> cache_largest t2 = nil t2
      else cache_smallest t2 = hd (lefts C @ rights C) \<and> cache_largest t2 = last (lefts C @ rights C)"
    using inv in_T same by (auto simp: bst_inv_def)
  have upd: "bst_update_cache_insert t2 loc = t2\<lparr>cache_smallest := hd (lefts C @ node # rights C),
      cache_largest := last (lefts C @ node # rights C)\<rparr>"
    using C(1) node(4) same by (intro cache_insert [OF t2(2) _ _ _ cache refl C(5)]) simp_all
  have in_F: "inorder (blacken ?F) = lefts C @ node # rights C" by (simp add: inorder_fix_ins inorder_plug)
  have val: "node_value ?t = node_value t" by (simp add: upd node_value_def fun_eq_iff same)
  have "tree_rep ?t (root ?t) (nil ?t) (blacken ?F)"
    using t2(2) by (subst tree_rep_same [of _ t2]) (simp_all add: upd)
  moreover have "distinct (inorder (blacken ?F))"
    unfolding in_F using inv node(1) in_T by (auto simp: bst_inv_def)
  moreover have "col ?t (nil ?t) = BST_BLACK"
    using frame_col_nil [OF t2(3)] nilc zip_nil_notin [OF C(1)] node(4) by (simp add: upd col_def)
  moreover have "rb (blacken ?F)"
    using fix_ins_inv [of "Nd Lf node Red Lf" C] cok by (simp add: rb_def inv_blacken)
  moreover have "cmp_ok kf ?t" using cmp by (simp add: cmp_ok_def value_inside_def upd same)
  moreover have "sorted_wrt (<) (map (key_of kf ?t) (inorder (blacken ?F)))"
    unfolding in_F val using sorted [unfolded in_T] C(3,4) by (intro sorted_insert) simp_all
  moreover have "fl_inv (free_list ?t) (parent_color ?t) ys"
  proof (rule heap_list_frame [of _ "parent_color t"])
    show "fl_inv (free_list ?t) (parent_color t) ys" using fl same by (simp add: upd)
    show "parent_color ?t a = parent_color t a" if "a \<in> set ys" for a
      using t2(3) that node(2) inv set_T by (auto simp: upd frame_of_def bst_inv_def)
  qed
  moreover have "\<forall>a\<in>set ys. good a \<and> a \<noteq> nil ?t \<and> a \<notin> set (inorder (blacken ?F))"
    using inv node(2) in_T same unfolding in_F by (auto simp: bst_inv_def upd)
  moreover have "blacken ?F \<noteq> Lf" using in_F by (metis append_is_Nil_conv inorder_Lf list.distinct(1))
  ultimately have "bst_inv kf ?t (blacken ?F) ys"
    using nl same in_F by (simp add: bst_inv_def upd)
  then show ?thesis using t2(1) in_F val by blast
qed


section \<open>Putting values\<close>

abbreviation entries :: "('k, 'v) jfs_bst \<Rightarrow> rbt \<Rightarrow> 'v list" where
  "entries t T \<equiv> map (node_value t) (inorder T)"

definition put_in :: "('v \<Rightarrow> 'k::linorder) \<Rightarrow> 'v \<Rightarrow> 'v list \<Rightarrow> 'v list" where
  "put_in kf v vs = filter (\<lambda>x. kf x < kf v) vs @ v # filter (\<lambda>x. kf v < kf x) vs"

lemma find_spec:
  assumes inv: "bst_inv kf t T xs" and fuel: "theight T < fuel"
  shows "find_post kf t T k (bst_find fuel t k)"
proof -
  have zip: "zip_rep t (root t) (nil t) T []" using inv by (simp add: bst_inv_def zip_rep_def)
  show ?thesis
    unfolding bst_find_def using find_loop [OF zip, of kf k 0 fuel] inv fuel by (simp add: bst_inv_def)
qed

lemma puts_new:
  fixes t :: "('k::linorder, 'v) jfs_bst"
  assumes inv: "bst_inv kf t T (node # ys)" and new: "kf v \<notin> kf ` set (entries t T)" and fuel: "theight T < fuel"
  shows "\<exists>t' T'. jfs_bst_puts fuel attach t v (kf v) JFS_OK = Some (t', JFS_OK) \<and> bst_inv kf t' T' ys \<and>
    tsize T' = Suc (tsize T) \<and> entries t' T' = put_in kf v (entries t T)"
proof -
  obtain t1 where t1: "bst_pack_node (t\<lparr>free_list := snd (jfs_fl_alloc (free_list t) (parent_color t))\<rparr>) node v =
        Some (node + value_offset t, t1)"
      "bst_inv kf t1 T ys" "node_value t1 node = v" "\<And>a. a \<in> set (inorder T) \<Longrightarrow> node_value t1 a = node_value t a"
      "node \<notin> set (inorder T)" "node \<notin> set ys" "good node" "node \<noteq> nil t1"
    using pack_inv [OF inv, of v] by blast
  have fl: "fl_inv (free_list t) (parent_color t) (node # ys)" using inv by (simp add: bst_inv_def)
  then have "fl_count (free_list t) \<noteq> 0" by (auto simp: fl_inv_def)
  moreover have "fst (jfs_fl_alloc (free_list t) (parent_color t)) = node" by (rule fl_alloc_cons(1) [OF fl])
  moreover have new1: "\<forall>a\<in>set (inorder T). key_of kf t1 a \<noteq> kf v" 
  proof
    fix a
    assume "a \<in> set (inorder T)"
    then have "node_value t1 a \<in> set (entries t T)" using t1(4) by simp
    then show "key_of kf t1 a \<noteq> kf v" using new by (metis imageI)
  qed
  moreover note check_cache_miss [OF t1(2) new1]
  ultimately have run: "jfs_bst_puts fuel attach t v (kf v) JFS_OK = do {
      location \<leftarrow> bst_find fuel t1 (kf v);
      t \<leftarrow> (if loc_node location \<noteq> nil t1 then do {
               node_value \<leftarrow> bst_container_value t1 (loc_node location);
               Some (attach node_value (node + value_offset t) t1)
             } else do {
               t \<leftarrow> bst_insert fuel t1 node location;
               Some (bst_update_cache_insert t location)
             });
      Some (t\<lparr>cache_previous := node\<rparr>, JFS_OK) }"
    using t1(1) by (simp add: jfs_bst_puts_def Let_def case_prod_beta cong: if_cong)
  obtain loc C where loc: "bst_find fuel t1 (kf v) = Some loc" "loc_node loc = nil t1"
      "zip_rep t1 (nil t1) (loc_parent loc) Lf C" "plug Lf C = T" "\<forall>a\<in>set (lefts C). key_of kf t1 a < kf v"
      "\<forall>a\<in>set (rights C). kf v < key_of kf t1 a"
      "loc_parent_cmp loc = (case C of [] \<Rightarrow> 0 | LF _ _ _ # _ \<Rightarrow> -1 | RF _ _ _ # _ \<Rightarrow> 1)"
    using find_spec [OF t1(2) fuel, of "kf v"] new1 unfolding find_post_def by auto
  from insert_inv [OF t1(2,5-8) loc(3,4) _ _ loc(7) loc(2) fuel] loc(5,6) t1(3) obtain t2 T'
    where t2: "bst_insert fuel t1 node loc = Some t2" "bst_inv kf ((bst_update_cache_insert t2 loc)\<lparr>cache_previous := node\<rparr>) T' ys"
      "inorder T' = lefts C @ node # rights C"
      "node_value ((bst_update_cache_insert t2 loc)\<lparr>cache_previous := node\<rparr>) = node_value t1" by auto
  let ?t = "(bst_update_cache_insert t2 loc)\<lparr>cache_previous := node\<rparr>"
  have in_T: "inorder T = lefts C @ rights C" using loc(4) inorder_plug [of Lf C] by simp
  have "entries t T = map (node_value t1) (lefts C @ rights C)" using t1(4) in_T by auto
  then have "entries ?t T' = put_in kf v (entries t T)"
    using t2(3,4) t1(3) filter_split [OF loc(5,6)] by (simp add: put_in_def filter_map comp_def)
  moreover have "tsize T' = Suc (tsize T)" using t2(3) in_T by (simp add: length_inorder [symmetric])
  ultimately show ?thesis using run loc(1,2) t2(1,2) by auto
qed

text \<open>
  The contract of a store that keeps its values in the order of distinct keys and has room
  for \<open>n\<close> more; putting values one after the other sorts them.
\<close>

fun put_all :: "('v \<Rightarrow> 's \<Rightarrow> 's option) \<Rightarrow> 'v list \<Rightarrow> 's \<Rightarrow> 's option" where
  "put_all put [] s = Some s"
| "put_all put (v # us) s = put v s \<bind> put_all put us"

locale ordered_store =
  fixes rep :: "'s \<Rightarrow> 'v list \<Rightarrow> nat \<Rightarrow> bool"
    and put :: "'v \<Rightarrow> 's \<Rightarrow> 's option"
    and kf :: "'v \<Rightarrow> 'k::linorder"
  assumes put_new: "rep s vs (Suc n) \<Longrightarrow> kf v \<notin> kf ` set vs \<Longrightarrow>
      \<exists>s'. put v s = Some s' \<and> rep s' (put_in kf v vs) n"
    and rep_sorted: "rep s vs n \<Longrightarrow> sorted_wrt (<) (map kf vs)"
begin

lemma mset_put_in: "kf v \<notin> kf ` set vs \<Longrightarrow> mset (put_in kf v vs) = add_mset v (mset vs)"
proof -
  assume "kf v \<notin> kf ` set vs"
  then have "filter (\<lambda>x. kf v < kf x) vs = filter (\<lambda>x. \<not> kf x < kf v) vs"
    by (intro filter_cong) (auto simp: not_less le_less)
  then show ?thesis by (simp add: put_in_def multiset_partition [symmetric])
qed

lemma put_all_sorts:
  "rep s vs (n + length us) \<Longrightarrow> distinct (map kf (vs @ us)) \<Longrightarrow>
     \<exists>s' ws. put_all put us s = Some s' \<and> rep s' ws n \<and> mset ws = mset (vs @ us)"
proof (induction us arbitrary: s vs)
  case (Cons u us)
  have new: "kf u \<notin> kf ` set vs" using Cons.prems(2) by auto
  from put_new [of s vs "n + length us" u] Cons.prems(1) new obtain s1
    where s1: "put u s = Some s1" "rep s1 (put_in kf u vs) (n + length us)" by auto
  have m: "mset (put_in kf u vs) = add_mset u (mset vs)" by (rule mset_put_in [OF new])
  then have "mset (map kf (put_in kf u vs @ us)) = mset (map kf (vs @ u # us))" by simp
  then have "distinct (map kf (put_in kf u vs @ us))" using Cons.prems(2) by (metis mset_eq_imp_distinct_iff)
  from Cons.IH [OF s1(2) this] s1(1) m show ?case by auto
qed auto

lemma put_all_sort_key:
  assumes "rep s [] (n + length us)" and "distinct (map kf us)"
  shows "\<exists>s'. put_all put us s = Some s' \<and> rep s' (sort_key kf us) n"
proof -
  from put_all_sorts [OF assms(1)] assms(2) obtain s' ws
    where ws: "put_all put us s = Some s'" "rep s' ws n" "mset ws = mset us" by auto
  have "sorted (map kf ws)" using rep_sorted [OF ws(2)] by (simp add: strict_sorted_iff)
  moreover have "inj_on kf (set us)" using assms(2) by (simp add: distinct_map)
  ultimately have "sort_key kf us = ws" using ws(3) by (intro sort_key_inj_key_eq) auto
  with ws show ?thesis by auto
qed

end

definition bst_store :: "('v \<Rightarrow> 'k::linorder) \<Rightarrow> nat \<Rightarrow> ('k, 'v) jfs_bst \<Rightarrow> 'v list \<Rightarrow> nat \<Rightarrow> bool" where
  "bst_store kf fuel t vs n \<longleftrightarrow> (\<exists>T xs. bst_inv kf t T xs \<and> vs = entries t T \<and> length xs = n \<and> (\<exists>k. tsize T + n + 1 \<le> 2 ^ k \<and> 2 * k < fuel))"

definition bst_put1 ::
  "nat \<Rightarrow> ('k, 'v) bst_attach_fn \<Rightarrow> ('v \<Rightarrow> 'k) \<Rightarrow> 'v \<Rightarrow> ('k, 'v) jfs_bst \<Rightarrow> ('k, 'v) jfs_bst option" where
  "bst_put1 fuel attach kf v t =
     (case jfs_bst_puts fuel attach t v (kf v) JFS_OK of Some (t, JFS_OK) \<Rightarrow> Some t | _ \<Rightarrow> None)"

interpretation bst_os: ordered_store "bst_store kf fuel" "bst_put1 fuel attach kf" kf
  for kf :: "'v \<Rightarrow> 'k::linorder" and fuel attach
proof
  fix s :: "('k, 'v) jfs_bst" and vs n v
  assume "bst_store kf fuel s vs (Suc n)" and new: "kf v \<notin> kf ` set vs"
  then obtain T node ys where T: "bst_inv kf s T (node # ys)" "vs = entries s T" "length ys = n"
      "\<exists>k. tsize T + Suc n + 1 \<le> 2 ^ k \<and> 2 * k < fuel"
    by (auto simp: bst_store_def length_Suc_conv)
  then obtain k where k: "tsize T + Suc n + 1 \<le> 2 ^ k" "2 * k < fuel" by blast
  have "theight T < fuel" using rb_height [of T k] T(1) k by (simp add: bst_inv_def)
  from puts_new [OF T(1) new [unfolded T(2)] this, of attach] obtain t' T'
    where "jfs_bst_puts fuel attach s v (kf v) JFS_OK = Some (t', JFS_OK)" "bst_inv kf t' T' ys"
      "tsize T' = Suc (tsize T)" "entries t' T' = put_in kf v (entries s T)" by blast
  with T k show "\<exists>s'. bst_put1 fuel attach kf v s = Some s' \<and> bst_store kf fuel s' (put_in kf v vs) n"
    by (intro exI [of _ t']) (auto simp: bst_put1_def bst_store_def intro!: exI [of _ T'] exI [of _ ys] exI [of _ k])
next
  fix s :: "('k, 'v) jfs_bst" and vs n
  assume "bst_store kf fuel s vs n"
  then show "sorted_wrt (<) (map kf vs)" by (auto simp: bst_store_def bst_inv_def comp_def)
qed


section \<open>Initialising\<close>

lemma value_offset_pos:
  assumes "jfs_mlg_valid_align a"
  shows "\<exists>off. jfs_mlg_align_size 32 a = Some off \<and> off > 0 \<and> unat off = round_up 32 (unat a) \<and> 32 \<le> unat off"
proof -
  obtain k where k: "k < 64" "unat a = 2 ^ k" using assms by (elim valid_alignE)
  obtain r where r: "jfs_mlg_align_size 32 a = Some r" "unat r = round_up 32 (unat a) mod 2 ^ 64"
    using align_size_unat [OF assms, of 32] by auto
  have "(2::nat) ^ k \<le> 2 ^ 63" using k(1) by (intro power_increasing) auto
  then have "round_up 32 (unat a) < 2 ^ 64" "32 \<le> round_up 32 (unat a)"
    using round_up_less [of "unat a" 32] round_up_ge [of "unat a" 32] k(2) by simp_all
  then have "unat r = round_up 32 (unat a)" "32 \<le> unat r" using r(2) by simp_all
  then show ?thesis using r(1) by (auto simp: unat_gt_0 word_greater_zero_iff)
qed

text \<open>An object has room for a node of 32 bytes, rounded up to the alignment of the component, and for a value behind it. The
  node \<open>nil_storage\<close>, which is part of the tree, does not overlap the array of the component.\<close>

definition node_room :: "jfs_mlg_component \<Rightarrow> bool" where
  "node_room c \<longleftrightarrow> round_up 32 (unat (desc_align (comp_desc c))) < unat (desc_size (comp_desc c))"

definition nil_apart :: "jfs_mlg_component \<Rightarrow> addr \<Rightarrow> bool" where
  "nil_apart c z \<longleftrightarrow> unat z + 32 \<le> unat (comp_ptr c) \<or> unat (comp_ptr c) + desc_bytes (comp_desc c) \<le> unat z"

lemma nil_apart_objs:
  assumes "jfs_mlg_valid_component c" and "comp_fits c" and "nil_apart c z"
  shows "z \<notin> set (component_objs c)"
proof
  assume "z \<in> set (component_objs c)"
  then obtain i where i: "i < unat (desc_count (comp_desc c))" "unat z = unat (comp_ptr c) + i * unat (desc_size (comp_desc c))"
    using component_obj_unat [OF assms(1,2)] by (auto simp: component_objs_def)
  have "0 < unat (desc_size (comp_desc c))"
    using assms(1) valid_descD(2) by (auto simp: jfs_mlg_valid_component_def word_greater_zero_iff unat_gt_0)
  then have "i * unat (desc_size (comp_desc c)) < desc_bytes (comp_desc c)" using i(1) by (simp add: desc_bytes_def mult.commute)
  then show False using assms(3) i(2) by (auto simp: nil_apart_def)
qed

lemma bst_init_inv:
  fixes t :: "('k::linorder, 'v) jfs_bst"
  assumes c: "jfs_mlg_valid_component c" "comp_fits c" and good: "\<forall>a\<in>set (component_objs c). good a"
    and room: "node_room c" and z: "good z" "nil_apart c z"
    and cmp: "\<forall>k v. cmp k v = (if k < kf v then -1 else if k = kf v then 0 else 1)"
  shows "\<exists>t'. jfs_bst_init z t \<lparr>conf_component = c, conf_cmp = Some cmp\<rparr> JFS_OK = Some (t', JFS_OK) \<and>
    bst_inv kf t' Lf (rev (component_objs c))"
proof -
  obtain off where off: "jfs_mlg_align_size 32 (desc_align (comp_desc c)) = Some off" "off > 0" "32 \<le> unat off"
      "unat off < unat (desc_size (comp_desc c))"
    using value_offset_pos [OF valid_descD(1), of "comp_desc c"] c(1) room
    by (auto simp: jfs_mlg_valid_component_def node_room_def)
  then have size: "off < desc_size (comp_desc c)" "MIN_OBJ_SIZE \<le> desc_size (comp_desc c)"
    by (auto simp: word_less_nat_alt word_le_nat_alt MIN_OBJ_SIZE_def)
  obtain fl pc where fl: "jfs_fl_init (free_list t) c (parent_color t) JFS_OK = Some (fl, pc, JFS_OK)"
    "fl_inv fl pc (rev (component_objs c))" by (rule fl_init_ok [OF c size(2)])
  have z_objs: "z \<notin> set (component_objs c)" by (rule nil_apart_objs [OF c z(2)])
  let ?pc = "pc(z := z OR BST_BLACK)"
  have "(z OR BST_BLACK) AND 1 = BST_BLACK"
    using join_color [OF z(1), of 1] by (simp add: BST_BLACK_def)
  moreover have "fl_inv fl ?pc (rev (component_objs c))"
    using z_objs by (intro heap_list_frame [OF fl(2)]) auto
  ultimately show ?thesis
    using fl off(1,2) size(1) z(1) z_objs good cmp
    by (auto simp: jfs_bst_init_def bst_set_parent_color_def set_left_def set_right_def Let_def
        bst_inv_def col_def rb_def cmp_ok_def value_inside_def)
qed

end
