(* ===== verification/Jfs_Bst_Delete.thy ===== *)
theory Jfs_Bst_Delete
  imports Jfs_Bst_Insert
begin

text \<open>
  Correctness of the unlinking of a node from the binary search tree (\<open>bst_transplant\<close>, \<open>bst_fixup_delete\<close> and
  \<open>bst_delete\<close> of \<open>src/src/modules/binary_search_tree.c\<close>). The loop of the fix-up works on a zipper whose subtree is one
  black node short; each of its cases is described on the zipper, left and right, and the induction over the path shows that
  it ends with a red-black tree of the same nodes. \<open>bst_delete\<close> is then described by \<open>del_post\<close>: the tree without the
  node, in which no field of the node itself was written.
\<close>

section \<open>One iteration of the deletion fix-up\<close>

definition sib_left :: "nat \<Rightarrow> ('k, 'v) jfs_bst \<Rightarrow> addr \<Rightarrow> addr \<Rightarrow> (addr \<times> ('k, 'v) jfs_bst) option" where
  "sib_left k t parent sibling = do {
     near \<leftarrow> bst_color t (bst_left t sibling);
     both_black \<leftarrow> (if near = BST_BLACK
       then do { far \<leftarrow> bst_color t (bst_right t sibling); Some (far = BST_BLACK) } else Some False);
     if both_black then do {
       t \<leftarrow> bst_set_color t sibling BST_RED;
       bst_fixup_delete_loop k t parent
     } else do {
       far \<leftarrow> bst_color t (bst_right t sibling);
       (t, sibling) \<leftarrow>
         (if far = BST_BLACK then do {
            t \<leftarrow> bst_set_color t (bst_left t sibling) BST_BLACK;
            t \<leftarrow> bst_set_color t sibling BST_RED;
            t \<leftarrow> bst_rotate_right t sibling;
            Some (t, bst_right t parent)
          } else Some (t, sibling));
       parent_col \<leftarrow> bst_color t parent;
       t \<leftarrow> bst_set_color t sibling parent_col;
       t \<leftarrow> bst_set_color t parent BST_BLACK;
       t \<leftarrow> bst_set_color t (bst_right t sibling) BST_BLACK;
       t \<leftarrow> bst_rotate_left t parent;
       bst_fixup_delete_loop k t (root t)
     }
   }"

definition sib_right :: "nat \<Rightarrow> ('k, 'v) jfs_bst \<Rightarrow> addr \<Rightarrow> addr \<Rightarrow> (addr \<times> ('k, 'v) jfs_bst) option" where
  "sib_right k t parent sibling = do {
     far \<leftarrow> bst_color t (bst_left t sibling);
     both_black \<leftarrow> (if far = BST_BLACK
       then do { near \<leftarrow> bst_color t (bst_right t sibling); Some (near = BST_BLACK) } else Some False);
     if both_black then do {
       t \<leftarrow> bst_set_color t sibling BST_RED;
       bst_fixup_delete_loop k t parent
     } else do {
       far \<leftarrow> bst_color t (bst_left t sibling);
       (t, sibling) \<leftarrow>
         (if far = BST_BLACK then do {
            t \<leftarrow> bst_set_color t (bst_right t sibling) BST_BLACK;
            t \<leftarrow> bst_set_color t sibling BST_RED;
            t \<leftarrow> bst_rotate_left t sibling;
            Some (t, bst_left t parent)
          } else Some (t, sibling));
       parent_col \<leftarrow> bst_color t parent;
       t \<leftarrow> bst_set_color t sibling parent_col;
       t \<leftarrow> bst_set_color t parent BST_BLACK;
       t \<leftarrow> bst_set_color t (bst_left t sibling) BST_BLACK;
       t \<leftarrow> bst_rotate_right t parent;
       bst_fixup_delete_loop k t (root t)
     }
   }"

lemma loop_at_root [simp]: "bst_fixup_delete_loop (Suc k) t (root t) = Some (root t, t)"
  by simp

lemma loop_at_red: "good n \<Longrightarrow> col t n = BST_RED \<Longrightarrow> bst_fixup_delete_loop (Suc k) t n = Some (n, t)"
  by (simp add: BST_RED_def BST_BLACK_def)

lemma loop_left_child:
  assumes "n \<noteq> root t" and "good n" and "col t n = BST_BLACK" and "par t n = p" and "n = bst_left t p"
    and "good (bst_right t p)"
  shows "bst_fixup_delete_loop (Suc k) t n =
    (if col t (bst_right t p) = BST_RED then do {
       t \<leftarrow> bst_set_color t (bst_right t p) BST_BLACK;
       t \<leftarrow> bst_set_color t p BST_RED;
       t \<leftarrow> bst_rotate_left t p;
       sib_left k t p (bst_right t p)
     } else sib_left k t p (bst_right t p))"
  using assms by (cases "col t (bst_right t p) = BST_RED") (simp_all add: sib_left_def Option.bind_assoc Let_def)

lemma loop_right_child:
  assumes "n \<noteq> root t" and "good n" and "col t n = BST_BLACK" and "par t n = p" and "n \<noteq> bst_left t p"
    and "good (bst_left t p)"
  shows "bst_fixup_delete_loop (Suc k) t n =
    (if col t (bst_left t p) = BST_RED then do {
       t \<leftarrow> bst_set_color t (bst_left t p) BST_BLACK;
       t \<leftarrow> bst_set_color t p BST_RED;
       t \<leftarrow> bst_rotate_right t p;
       sib_right k t p (bst_left t p)
     } else sib_right k t p (bst_left t p))"
  using assms by (cases "col t (bst_left t p) = BST_RED") (simp_all add: sib_right_def Option.bind_assoc Let_def)


declare bst_fixup_delete_loop.simps(2) [simp del]

text \<open>A black sibling whose far child is red ends the loop.\<close>

lemma sib_left_tail:
  assumes zip: "zip_rep t p q (Nd T p c (Nd l b x (Nd rl e y rr))) C"
  shows "\<exists>t'. bst_rotate_left (upd_col e Black (upd_col p Black (upd_col b c t))) p = Some t' \<and>
    zip_rep t' b q (Nd (Nd T p Black l) b c (Nd rl e Black rr)) C \<and>
    frame_of (nodes (Nd T p c (Nd l b x (Nd rl e y rr))) C) t t'"
proof -
  let ?t = "upd_col e Black (upd_col p Black (upd_col b c t))"
  have "distinct (inorder (Nd T p c (Nd l b x (Nd rl e y rr))) @ ctx_addrs C)" using zip by (simp add: zip_rep_def)
  then have "zip_rep ?t p q (Nd T p Black (Nd l b c (Nd rl e Black rr))) C"
    using zip_recol [OF zip_recol2 [OF zip, of b p Black c], of e Black] by auto
  from rotate_left_zip [OF this] obtain t' where t': "bst_rotate_left ?t p = Some t'"
      "zip_rep t' b q (Nd (Nd T p Black l) b c (Nd rl e Black rr)) C"
      "frame_of (nodes (Nd T p c (Nd l b x (Nd rl e y rr))) C) ?t t'" by auto
  have "frame_of (nodes (Nd T p c (Nd l b x (Nd rl e y rr))) C) t t'"
    by (rule frame_trans [OF frame_upd_col3 t'(3)]) auto
  with t'(1,2) show ?thesis by blast
qed

lemma sib_right_tail:
  assumes zip: "zip_rep t p q (Nd (Nd (Nd ll e y lr) b x r) p c T) C"
  shows "\<exists>t'. bst_rotate_right (upd_col e Black (upd_col p Black (upd_col b c t))) p = Some t' \<and>
    zip_rep t' b q (Nd (Nd ll e Black lr) b c (Nd r p Black T)) C \<and>
    frame_of (nodes (Nd (Nd (Nd ll e y lr) b x r) p c T) C) t t'"
proof -
  let ?t = "upd_col e Black (upd_col p Black (upd_col b c t))"
  have "distinct (inorder (Nd (Nd (Nd ll e y lr) b x r) p c T) @ ctx_addrs C)" using zip by (simp add: zip_rep_def)
  then have "zip_rep ?t p q (Nd (Nd (Nd ll e Black lr) b c r) p Black T) C"
    using zip_recol [OF zip_recol2 [OF zip, of b p Black c], of e Black] by auto
  from rotate_right_zip [OF this] obtain t' where t': "bst_rotate_right ?t p = Some t'"
      "zip_rep t' b q (Nd (Nd ll e Black lr) b c (Nd r p Black T)) C"
      "frame_of (nodes (Nd (Nd (Nd ll e y lr) b x r) p c T) C) ?t t'" by auto
  have "frame_of (nodes (Nd (Nd (Nd ll e y lr) b x r) p c T) C) t t'"
    by (rule frame_trans [OF frame_upd_col3 t'(3)]) auto
  with t'(1,2) show ?thesis by blast
qed

text \<open>The colours of the subtrees below a node, as the code reads them.\<close>

lemma child_colors:
  assumes "zip_rep t p q T C" and "col t (nil t) = BST_BLACK" and "sub (Nd l a c r) T"
  shows "bst_color t (bst_left t a) = Some (if is_red l then BST_RED else BST_BLACK)"
    and "bst_color t (bst_right t a) = Some (if is_red r then BST_RED else BST_BLACK)"
    and "good a" and "a \<noteq> nil t" and "col t a = cw c"
proof -
  have "tree_rep t a (par t a) (Nd l a c r)" "good (nil t)"
    using assms sub_tree_rep [of t p q T l a c r] by (auto simp: zip_rep_def)
  then show "bst_color t (bst_left t a) = Some (if is_red l then BST_RED else BST_BLACK)"
    "bst_color t (bst_right t a) = Some (if is_red r then BST_RED else BST_BLACK)" "good a" "a \<noteq> nil t" "col t a = cw c"
    using assms(2) tree_rep_color [of t "bst_left t a" a l] tree_rep_color [of t "bst_right t a" a r] by auto
qed

lemma red_black_neq [simp]: "BST_RED \<noteq> BST_BLACK" "BST_BLACK \<noteq> BST_RED"
  by (simp_all add: BST_RED_def BST_BLACK_def)

lemma sib_left_both_black:
  assumes zip: "zip_rep t p q (Nd T p c (Nd l b Black r)) C" and nilc: "col t (nil t) = BST_BLACK"
    and "\<not> is_red l" and "\<not> is_red r"
  shows "sib_left k t p b = bst_fixup_delete_loop k (upd_col b Red t) p \<and>
    zip_rep (upd_col b Red t) p q (Nd T p c (Nd l b Red r)) C \<and>
    frame_of (nodes (Nd T p c (Nd l b Black r)) C) t (upd_col b Red t)"
proof -
  note b = child_colors [OF zip nilc, of l b Black r]
  have "distinct (inorder (Nd T p c (Nd l b Black r)) @ ctx_addrs C)" using zip by (simp add: zip_rep_def)
  then have "zip_rep (upd_col b Red t) p q (Nd T p c (Nd l b Red r)) C" using zip_recol [OF zip, of b Red] by auto
  then show ?thesis using b assms(3,4) by (simp add: sib_left_def)
qed

lemma sib_right_both_black:
  assumes zip: "zip_rep t p q (Nd (Nd l b Black r) p c T) C" and nilc: "col t (nil t) = BST_BLACK"
    and "\<not> is_red l" and "\<not> is_red r"
  shows "sib_right k t p b = bst_fixup_delete_loop k (upd_col b Red t) p \<and>
    zip_rep (upd_col b Red t) p q (Nd (Nd l b Red r) p c T) C \<and>
    frame_of (nodes (Nd (Nd l b Black r) p c T) C) t (upd_col b Red t)"
proof -
  note b = child_colors [OF zip nilc, of l b Black r]
  have "distinct (inorder (Nd (Nd l b Black r) p c T) @ ctx_addrs C)" using zip by (simp add: zip_rep_def)
  then have "zip_rep (upd_col b Red t) p q (Nd (Nd l b Red r) p c T) C" using zip_recol [OF zip, of b Red] by auto
  then show ?thesis using b assms(3,4) by (simp add: sib_right_def)
qed

lemma sib_left_far_red:
  assumes zip: "zip_rep t p q (Nd T p c (Nd l b Black (Nd rl e Red rr))) C" and nilc: "col t (nil t) = BST_BLACK"
  shows "\<exists>t'. sib_left k t p b = bst_fixup_delete_loop k t' (root t') \<and>
    zip_rep t' b q (Nd (Nd T p Black l) b c (Nd rl e Black rr)) C \<and>
    frame_of (nodes (Nd T p c (Nd l b Black (Nd rl e Red rr))) C) t t'"
proof -
  note b = child_colors [OF zip nilc, of l b Black "Nd rl e Red rr"]
  obtain t' where t': "bst_rotate_left (upd_col e Black (upd_col p Black (upd_col b c t))) p = Some t'"
      "zip_rep t' b q (Nd (Nd T p Black l) b c (Nd rl e Black rr)) C"
      "frame_of (nodes (Nd T p c (Nd l b Black (Nd rl e Red rr))) C) t t'" using sib_left_tail [OF zip] by blast
  have "good e" "bst_right t b = e" "good p" "col t p = cw c" using zip by (auto simp: zip_rep_def)
  with b t'(1) have "sib_left k t p b = bst_fixup_delete_loop k t' (root t')" by (simp add: sib_left_def)
  with t'(2,3) show ?thesis by blast
qed

lemma sib_right_far_red:
  assumes zip: "zip_rep t p q (Nd (Nd (Nd ll e Red lr) b Black r) p c T) C" and nilc: "col t (nil t) = BST_BLACK"
  shows "\<exists>t'. sib_right k t p b = bst_fixup_delete_loop k t' (root t') \<and>
    zip_rep t' b q (Nd (Nd ll e Black lr) b c (Nd r p Black T)) C \<and>
    frame_of (nodes (Nd (Nd (Nd ll e Red lr) b Black r) p c T) C) t t'"
proof -
  note b = child_colors [OF zip nilc, of "Nd ll e Red lr" b Black r]
  obtain t' where t': "bst_rotate_right (upd_col e Black (upd_col p Black (upd_col b c t))) p = Some t'"
      "zip_rep t' b q (Nd (Nd ll e Black lr) b c (Nd r p Black T)) C"
      "frame_of (nodes (Nd (Nd (Nd ll e Red lr) b Black r) p c T) C) t t'" using sib_right_tail [OF zip] by blast
  have "good e" "bst_left t b = e" "good p" "col t p = cw c" using zip by (auto simp: zip_rep_def)
  with b t'(1) have "sib_right k t p b = bst_fixup_delete_loop k t' (root t')" by (simp add: sib_right_def)
  with t'(2,3) show ?thesis by blast
qed

text \<open>A red near child is first rotated to the far side.\<close>

lemma sib_left_near_red:
  assumes zip: "zip_rep t p q (Nd T p c (Nd (Nd ll e Red lr) b Black r)) C" and nilc: "col t (nil t) = BST_BLACK"
    and far: "\<not> is_red r"
  shows "\<exists>t'. sib_left k t p b = bst_fixup_delete_loop k t' (root t') \<and>
    zip_rep t' e q (Nd (Nd T p Black ll) e c (Nd lr b Black r)) C \<and>
    frame_of (nodes (Nd T p c (Nd (Nd ll e Red lr) b Black r)) C) t t'"
proof -
  let ?N = "nodes (Nd T p c (Nd (Nd ll e Red lr) b Black r)) C" and ?t = "upd_col b Red (upd_col e Black t)"
  note b = child_colors [OF zip nilc, of "Nd ll e Red lr" b Black r]
  have "distinct (inorder (Nd T p c (Nd (Nd ll e Red lr) b Black r)) @ ctx_addrs C)" using zip by (simp add: zip_rep_def)
  then have "zip_rep ?t p q (Nd T p c (Nd (Nd ll e Black lr) b Red r)) C" using zip_recol2 [OF zip, of e b Red Black] by auto
  from zip_rot_right_in_right [OF this] obtain t1 where t1: "bst_rotate_right ?t b = Some t1"
      "zip_rep t1 p q (Nd T p c (Nd ll e Black (Nd lr b Red r))) C" "frame_of ?N ?t t1" by auto
  obtain t' where t': "bst_rotate_left (upd_col b Black (upd_col p Black (upd_col e c t1))) p = Some t'"
      "zip_rep t' e q (Nd (Nd T p Black ll) e c (Nd lr b Black r)) C"
      "frame_of (nodes (Nd T p c (Nd ll e Black (Nd lr b Red r))) C) t1 t'" using sib_left_tail [OF t1(2)] by blast
  have "good e" "bst_left t b = e" "good p" using zip by (auto simp: zip_rep_def)
  moreover have "col t1 p = cw c" "bst_right t1 p = e" "bst_right t1 e = b" using t1(2) by (auto simp: zip_rep_def)
  ultimately have "sib_left k t p b = bst_fixup_delete_loop k t' (root t')"
    using b far t1(1) t'(1) by (simp add: sib_left_def)
  moreover have "frame_of ?N t t'"
    by (rule frame_trans [OF frame_upd_col2 frame_trans [OF t1(3) frame_mono [OF t'(3)]]]) auto
  ultimately show ?thesis using t'(2) by blast
qed

lemma sib_right_near_red:
  assumes zip: "zip_rep t p q (Nd (Nd l b Black (Nd rl e Red rr)) p c T) C" and nilc: "col t (nil t) = BST_BLACK"
    and far: "\<not> is_red l"
  shows "\<exists>t'. sib_right k t p b = bst_fixup_delete_loop k t' (root t') \<and>
    zip_rep t' e q (Nd (Nd l b Black rl) e c (Nd rr p Black T)) C \<and>
    frame_of (nodes (Nd (Nd l b Black (Nd rl e Red rr)) p c T) C) t t'"
proof -
  let ?N = "nodes (Nd (Nd l b Black (Nd rl e Red rr)) p c T) C" and ?t = "upd_col b Red (upd_col e Black t)"
  note b = child_colors [OF zip nilc, of l b Black "Nd rl e Red rr"]
  have "distinct (inorder (Nd (Nd l b Black (Nd rl e Red rr)) p c T) @ ctx_addrs C)" using zip by (simp add: zip_rep_def)
  then have "zip_rep ?t p q (Nd (Nd l b Red (Nd rl e Black rr)) p c T) C" using zip_recol2 [OF zip, of e b Red Black] by auto
  from zip_rot_left_in_left [OF this] obtain t1 where t1: "bst_rotate_left ?t b = Some t1"
      "zip_rep t1 p q (Nd (Nd (Nd l b Red rl) e Black rr) p c T) C" "frame_of ?N ?t t1" by auto
  obtain t' where t': "bst_rotate_right (upd_col b Black (upd_col p Black (upd_col e c t1))) p = Some t'"
      "zip_rep t' e q (Nd (Nd l b Black rl) e c (Nd rr p Black T)) C"
      "frame_of (nodes (Nd (Nd (Nd l b Red rl) e Black rr) p c T) C) t1 t'" using sib_right_tail [OF t1(2)] by blast
  have "good e" "bst_right t b = e" "good p" using zip by (auto simp: zip_rep_def)
  moreover have "col t1 p = cw c" "bst_left t1 p = e" "bst_left t1 e = b" using t1(2) by (auto simp: zip_rep_def)
  ultimately have "sib_right k t p b = bst_fixup_delete_loop k t' (root t')"
    using b far t1(1) t'(1) by (simp add: sib_right_def)
  moreover have "frame_of ?N t t'"
    by (rule frame_trans [OF frame_upd_col2 frame_trans [OF t1(3) frame_mono [OF t'(3)]]]) auto
  ultimately show ?thesis using t'(2) by blast
qed


section \<open>The loop\<close>

text \<open>
  The outcome of a deletion: a red-black tree with the nodes \<open>xs\<close> in order, in which only fields of the addresses in
  \<open>N\<close> changed.
\<close>

definition del_post :: "addr set \<Rightarrow> ('k, 'v) jfs_bst \<Rightarrow> addr list \<Rightarrow> ('k, 'v) jfs_bst option \<Rightarrow> bool" where
  "del_post N t xs res \<longleftrightarrow> (\<exists>t' F. res = Some t' \<and> tree_rep t' (root t') (nil t') F \<and> rb F \<and> inorder F = xs \<and>
     frame_of N t t' \<and> col t' (nil t') = BST_BLACK)"

lemma del_postI:
  "res = Some t' \<Longrightarrow> tree_rep t' (root t') (nil t') F \<Longrightarrow> rb F \<Longrightarrow> inorder F = xs \<Longrightarrow> frame_of N t t' \<Longrightarrow>
     col t' (nil t') = BST_BLACK \<Longrightarrow> del_post N t xs res"
  by (auto simp: del_post_def)

lemma del_post_step: "frame_of N t t1 \<Longrightarrow> del_post N t1 xs res \<Longrightarrow> del_post N t xs res"
  by (unfold del_post_def, elim exE conjE) (intro exI conjI, assumption+, rule frame_trans)

definition fin :: "(addr \<times> ('k, 'v) jfs_bst) option \<Rightarrow> ('k, 'v) jfs_bst option" where
  "fin res = res \<bind> (\<lambda>(node, t). bst_set_color t node BST_BLACK)"

lemma fixup_delete_fin: "bst_fixup_delete fuel t n = fin (bst_fixup_delete_loop fuel t n)"
  by (simp add: bst_fixup_delete_def fin_def)

lemma frame_col: "frame_of N t t' \<Longrightarrow> nil t \<notin> N \<Longrightarrow> col t (nil t) = BST_BLACK \<Longrightarrow> col t' (nil t') = BST_BLACK"
  using frame_col_nil by metis

lemma is_red_plug: "C \<noteq> [] \<Longrightarrow> is_red (plug T C) \<longleftrightarrow> fcol (last C) = Red"
  by (induction T C rule: plug.induct) auto

lemma ctx_ok_last: "ctx_ok h C \<Longrightarrow> C \<noteq> [] \<Longrightarrow> fcol (last C) = Black"
proof (induction h C rule: ctx_ok.induct)
  case (2 h a c r C)
  then show ?case by (cases c; cases C) auto
next
  case (3 h l a c C)
  then show ?case by (cases c; cases C) auto
qed simp

lemma fin_at_root:
  assumes zip: "zip_rep t p q T C" and nilc: "col t (nil t) = BST_BLACK" and "T \<noteq> Lf"
    and inv: "invc (blacken (plug T C))" "invh (plug T C)"
  shows "del_post (nodes T C) t (inorder (plug T C)) (fin (bst_fixup_delete_loop (Suc k) t (root t)))"
proof -
  have tree: "tree_rep t (root t) (nil t) (plug T C)" "distinct (inorder (plug T C))" using zip_tree [OF zip] by simp_all
  have "inorder (plug T C) \<noteq> []" using assms(3) by (simp add: inorder_plug)
  then have "plug T C \<noteq> Lf" by auto
  note fin = blacken_root [OF tree this]
  then have root: "root t \<in> nodes T C" by (simp add: inorder_plug_set)
  then have f: "frame_of (nodes T C) t (upd_col (root t) Black t)" by (rule frame_setters(2))
  show ?thesis
    using fin inv frame_col [OF f zip_nil_notin [OF zip] nilc] f
    by (intro del_postI [OF _ _ _ _ f, where F = "blacken (plug T C)"]) (simp_all add: fin_def rb_def inv_blacken)
qed

lemma fin_at_red:
  assumes zip: "zip_rep t n q T C" and nilc: "col t (nil t) = BST_BLACK" and red: "is_red T"
    and inv: "invc (blacken T)" "invh T" "ctx_ok (Suc (bh T)) C"
  shows "del_post (nodes T C) t (inorder (plug T C)) (fin (bst_fixup_delete_loop (Suc k) t n))"
proof -
  obtain l r where T: "T = Nd l n Red r" using red zip by (cases T) (auto simp: zip_rep_def)
  have n: "good n" "col t n = BST_RED" using zip T by (auto simp: zip_rep_def)
  have f: "frame_of (nodes T C) t (upd_col n Black t)" using T by simp
  have zip': "zip_rep (upd_col n Black t) n q (blacken T) C"
    using zip_recol [OF zip, of n Black] zip T by (auto simp: zip_rep_def)
  have "rb (plug (blacken T) C)"
  proof (cases "C = []")
    case False
    then show ?thesis using plug_black [of "blacken T" C] inv ctx_ok_last [OF inv(3)] red
      by (simp add: rb_def inv_blacken bh_blacken is_red_plug)
  qed (use inv in \<open>simp add: rb_def inv_blacken\<close>)
  then show ?thesis
    using zip_tree [OF zip'] n loop_at_red [OF n, of k] frame_col [OF f zip_nil_notin [OF zip] nilc]
    by (intro del_postI [OF _ _ _ _ f, where F = "plug (blacken T) C"]) (simp_all add: fin_def inorder_plug)
qed

text \<open>A black sibling. When both its children are black, the iterations that follow are those of \<open>IH\<close>.\<close>

lemma fin_terminal:
  assumes zip: "zip_rep t' b q (Nd L b c R) C" and f: "frame_of N t t'" and N: "N = nodes (Nd L b c R) C"
    and nilc: "col t (nil t) = BST_BLACK" "nil t \<notin> N"
    and inv: "invc L" "invc R" "invh L" "invh R" "bh L = bh R" "\<not> is_red L" "\<not> is_red R"
    and ctx: "ctx_ok (bh L + (if c = Black then 1 else 0)) C" "c = Red \<Longrightarrow> C \<noteq> [] \<and> fcol (hd C) = Black"
    and xs: "xs = inorder (plug (Nd L b c R) C)"
  shows "del_post N t xs (fin (bst_fixup_delete_loop (Suc k) t' (root t')))"
proof -
  have "invc (plug (Nd L b c R) C) \<and> invh (plug (Nd L b c R) C)"
    using inv ctx plug_inv [of "Nd L b c R" C] by (cases c) simp_all
  then have "del_post N t' xs (fin (bst_fixup_delete_loop (Suc k) t' (root t')))"
    unfolding N xs using frame_col [OF f nilc(2,1)] by (intro fin_at_root [OF zip]) (simp_all add: inv_blacken)
  then show ?thesis by (rule del_post_step [OF f])
qed


lemma sib_left_post:
  fixes t :: "('k, 'v) jfs_bst"
  assumes zip: "zip_rep t p q (Nd T p c (Nd l b Black r)) C" and nilc: "col t (nil t) = BST_BLACK"
    and inv: "invc T" "invh T" "\<not> is_red T" "invc l" "invh l" "invc r" "invh r" "bh l = bh r" "bh T = bh l"
    and ctx: "ctx_ok (Suc (bh T) + (if c = Black then 1 else 0)) C" "c = Red \<Longrightarrow> C \<noteq> [] \<and> fcol (hd C) = Black"
    and N: "N = nodes (Nd T p c (Nd l b Black r)) C"
    and IH: "\<And>t1 :: ('k, 'v) jfs_bst. zip_rep t1 p q (Nd T p c (Nd l b Red r)) C \<Longrightarrow> col t1 (nil t1) = BST_BLACK \<Longrightarrow>
      \<not> is_red l \<Longrightarrow> \<not> is_red r \<Longrightarrow>
      del_post N t1 (inorder (plug (Nd T p c (Nd l b Red r)) C)) (fin (bst_fixup_delete_loop (Suc k) t1 p))"
  shows "del_post N t (inorder (plug (Nd T p c (Nd l b Black r)) C)) (fin (sib_left (Suc k) t p b))"
proof -
  have nl: "nil t \<notin> N" unfolding N by (rule zip_nil_notin [OF zip])
  show ?thesis
  proof (cases "is_red r")
    case True
    then obtain rl e rr where r: "r = Nd rl e Red rr" using is_red_node by blast
    obtain t' where t': "sib_left (Suc k) t p b = bst_fixup_delete_loop (Suc k) t' (root t')"
        "zip_rep t' b q (Nd (Nd T p Black l) b c (Nd rl e Black rr)) C" "frame_of N t t'"
      unfolding N r using sib_left_far_red [OF zip [unfolded r] nilc] by blast
    show ?thesis unfolding t'(1)
      by (rule fin_terminal [OF t'(2,3) _ nilc nl]) (use inv ctx r N in \<open>auto simp: inorder_plug\<close>)
  next
    case far: False
    show ?thesis
    proof (cases "is_red l")
      case True
      then obtain ll e lr where l: "l = Nd ll e Red lr" using is_red_node by blast
      obtain t' where t': "sib_left (Suc k) t p b = bst_fixup_delete_loop (Suc k) t' (root t')"
          "zip_rep t' e q (Nd (Nd T p Black ll) e c (Nd lr b Black r)) C" "frame_of N t t'"
        unfolding N l using sib_left_near_red [OF zip [unfolded l] nilc far] by blast
      show ?thesis unfolding t'(1)
        by (rule fin_terminal [OF t'(2,3) _ nilc nl]) (use inv ctx l N in \<open>auto simp: inorder_plug\<close>)
    next
      case False
      note step = sib_left_both_black [OF zip nilc False far, of "Suc k", folded N]
      then have "col (upd_col b Red t) (nil (upd_col b Red t)) = BST_BLACK" using frame_col [OF _ nl nilc] by blast
      with step IH [OF _ _ False far] show ?thesis
        by (intro del_post_step [of N t "upd_col b Red t"]) (simp_all add: inorder_plug)
    qed
  qed
qed

lemma sib_right_post:
  fixes t :: "('k, 'v) jfs_bst"
  assumes zip: "zip_rep t p q (Nd (Nd l b Black r) p c T) C" and nilc: "col t (nil t) = BST_BLACK"
    and inv: "invc T" "invh T" "\<not> is_red T" "invc l" "invh l" "invc r" "invh r" "bh l = bh r" "bh T = bh l"
    and ctx: "ctx_ok (Suc (bh T) + (if c = Black then 1 else 0)) C" "c = Red \<Longrightarrow> C \<noteq> [] \<and> fcol (hd C) = Black"
    and N: "N = nodes (Nd (Nd l b Black r) p c T) C"
    and IH: "\<And>t1 :: ('k, 'v) jfs_bst. zip_rep t1 p q (Nd (Nd l b Red r) p c T) C \<Longrightarrow> col t1 (nil t1) = BST_BLACK \<Longrightarrow>
      \<not> is_red l \<Longrightarrow> \<not> is_red r \<Longrightarrow>
      del_post N t1 (inorder (plug (Nd (Nd l b Red r) p c T) C)) (fin (bst_fixup_delete_loop (Suc k) t1 p))"
  shows "del_post N t (inorder (plug (Nd (Nd l b Black r) p c T) C)) (fin (sib_right (Suc k) t p b))"
proof -
  have nl: "nil t \<notin> N" unfolding N by (rule zip_nil_notin [OF zip])
  show ?thesis
  proof (cases "is_red l")
    case True
    then obtain ll e lr where l: "l = Nd ll e Red lr" using is_red_node by blast
    obtain t' where t': "sib_right (Suc k) t p b = bst_fixup_delete_loop (Suc k) t' (root t')"
        "zip_rep t' b q (Nd (Nd ll e Black lr) b c (Nd r p Black T)) C" "frame_of N t t'"
      unfolding N l using sib_right_far_red [OF zip [unfolded l] nilc] by blast
    show ?thesis unfolding t'(1)
      by (rule fin_terminal [OF t'(2,3) _ nilc nl]) (use inv ctx l N in \<open>auto simp: inorder_plug\<close>)
  next
    case far: False
    show ?thesis
    proof (cases "is_red r")
      case True
      then obtain rl e rr where r: "r = Nd rl e Red rr" using is_red_node by blast
      obtain t' where t': "sib_right (Suc k) t p b = bst_fixup_delete_loop (Suc k) t' (root t')"
          "zip_rep t' e q (Nd (Nd l b Black rl) e c (Nd rr p Black T)) C" "frame_of N t t'"
        unfolding N r using sib_right_near_red [OF zip [unfolded r] nilc far] by blast
      show ?thesis unfolding t'(1)
        by (rule fin_terminal [OF t'(2,3) _ nilc nl]) (use inv ctx r N in \<open>auto simp: inorder_plug\<close>)
    next
      case False
      note step = sib_right_both_black [OF zip nilc far False, of "Suc k", folded N]
      then have "col (upd_col b Red t) (nil (upd_col b Red t)) = BST_BLACK" using frame_col [OF _ nl nilc] by blast
      with step IH [OF _ _ far False] show ?thesis
        by (intro del_post_step [of N t "upd_col b Red t"]) (simp_all add: inorder_plug)
    qed
  qed
qed

lemma bh_node: "bh S = Suc h \<Longrightarrow> \<exists>l a c r. S = Nd l a c r"
  by (cases S) auto

lemma zip_hole:
  assumes zip: "zip_rep t n q T C" and par: "par t n = q" and nilc: "col t (nil t) = BST_BLACK"
    and black: "\<not> is_red T" and C: "C \<noteq> []"
  shows "good n" and "col t n = BST_BLACK" and "n \<noteq> root t" and "n = nil t \<or> n \<in> set (inorder T)"
proof -
  have n: "tree_rep t n q T" "good (nil t)" using zip by (simp_all add: zip_rep_def)
  show mem: "n = nil t \<or> n \<in> set (inorder T)" by (rule tree_rep_in [OF n(1)])
  show "good n" "col t n = BST_BLACK" using n black nilc by (cases T; auto)+
  have "root t \<in> set (ctx_addrs C)"
  proof -
    have "ctx_rep t n q C" using zip by (simp add: zip_rep_def)
    then show ?thesis using C
    proof (induction C arbitrary: n q)
      case (Cons f D)
      then show ?case by (cases f; cases D) auto
    qed simp
  qed
  moreover have "nil t \<notin> nodes T C" by (rule zip_nil_notin [OF zip])
  ultimately show "n \<noteq> root t" using mem zip by (auto simp: zip_rep_def)
qed

lemma fixup_left:
  fixes t :: "('k, 'v) jfs_bst"
  assumes zip: "zip_rep t n q T (LF p c s # D)" and par: "par t n = q" and nilc: "col t (nil t) = BST_BLACK"
    and black: "\<not> is_red T" and inv: "invc T" "invh T" "ctx_ok (Suc (bh T)) (LF p c s # D)"
    and IH: "\<And>(t1 :: ('k, 'v) jfs_bst) q T1. zip_rep t1 p q T1 D \<Longrightarrow> col t1 (nil t1) = BST_BLACK \<Longrightarrow> invc (blacken T1) \<Longrightarrow>
      invh T1 \<Longrightarrow> ctx_ok (Suc (bh T1)) D \<Longrightarrow> T1 \<noteq> Lf \<Longrightarrow>
      del_post (nodes T1 D) t1 (inorder (plug T1 D)) (fin (bst_fixup_delete_loop (Suc k) t1 p))"
  shows "del_post (nodes T (LF p c s # D)) t (inorder (plug T (LF p c s # D))) (fin (bst_fixup_delete_loop (Suc (Suc k)) t n))"
proof -
  let ?N = "nodes T (LF p c s # D)"
  have "bh s = Suc (bh T)" using inv by simp
  then obtain l b x r where s: "s = Nd l b x r" using bh_node by blast
  note n = zip_hole [OF zip par nilc black list.simps(3)]
  have q: "q = p" "n = bst_left t p" "bst_right t p = b" "good b" "col t b = cw x"
    and up: "zip_rep t p (par t p) (Nd T p c (Nd l b x r)) D" using zip s by (auto simp: zip_rep_def)
  have run: "bst_fixup_delete_loop (Suc (Suc k)) t n =
      (if x = Red then bst_rotate_left (upd_col p Red (upd_col b Black t)) p \<bind> (\<lambda>t. sib_left (Suc k) t p (bst_right t p))
       else sib_left (Suc k) t p b)"
    using loop_left_child [of n t p "Suc k"] n par q up by (auto simp: zip_rep_def)
  have N: "?N = nodes (Nd T p c (Nd l b x r)) D" using s by auto
  show ?thesis
  proof (cases x)
    case Black
    have "del_post (nodes (Nd T p c (Nd l b Black r)) D) t (inorder (plug (Nd T p c (Nd l b Black r)) D))
        (fin (sib_left (Suc k) t p b))"
    proof (rule sib_left_post [OF up [unfolded Black] nilc inv(1,2) black _ _ _ _ _ _ _ _ refl], goal_cases)
      case (9 t2)
      show ?case using IH [OF 9(1,2)] 9(3,4) inv black s Black by (cases c) auto
    qed (use inv s Black in auto)
    then show ?thesis unfolding run N using s Black by simp
  next
    case Red
    then have c: "c = Black" using inv s by (cases c) auto
    obtain t1 where t1: "bst_rotate_left (upd_col p Red (upd_col b Black t)) p = Some t1"
        "zip_rep t1 b (par t p) (Nd (Nd T p Red l) b Black r) D" "frame_of ?N t t1"
      unfolding N using fix_right_black [OF up] by blast
    have nilc1: "col t1 (nil t1) = BST_BLACK" using frame_col [OF t1(3) zip_nil_notin [OF zip] nilc] .
    have "bh l = Suc (bh T)" "\<not> is_red l" "invc l" "invh l" using inv s Red by auto
    then obtain ll e lr where l: "l = Nd ll e Black lr" using bh_node by (metis color.exhaust is_red.simps(2))
    have down: "zip_rep t1 p b (Nd T p Red l) (LF b Black r # D)" and right: "bst_right t1 p = e"
      using t1(2) zip_down_left [OF t1(2)] l by (auto simp: zip_rep_def)
    have "del_post (nodes (Nd T p Red l) (LF b Black r # D)) t1 (inorder (plug (Nd T p Red l) (LF b Black r # D)))
        (fin (sib_left (Suc k) t1 p e))"
      unfolding l
    proof (rule sib_left_post [OF down [unfolded l] nilc1 inv(1,2) black _ _ _ _ _ _ _ _ refl], goal_cases)
      case (9 t2)
      show ?case
        using fin_at_red [OF 9(1,2), of k] 9(3,4) inv black s Red c l by auto
    qed (use inv s Red c l in auto)
    then have "del_post ?N t1 (inorder (plug T (LF p c s # D))) (fin (sib_left (Suc k) t1 p e))"
      unfolding N using Red s by (simp add: inorder_plug Un_ac insert_commute)
    from del_post_step [OF t1(3) this] show ?thesis unfolding run using t1(1) right Red by simp
  qed
qed

lemma fixup_right:
  fixes t :: "('k, 'v) jfs_bst"
  assumes zip: "zip_rep t n q T (RF s p c # D)" and par: "par t n = q" and nilc: "col t (nil t) = BST_BLACK"
    and black: "\<not> is_red T" and inv: "invc T" "invh T" "ctx_ok (Suc (bh T)) (RF s p c # D)"
    and IH: "\<And>(t1 :: ('k, 'v) jfs_bst) q T1. zip_rep t1 p q T1 D \<Longrightarrow> col t1 (nil t1) = BST_BLACK \<Longrightarrow> invc (blacken T1) \<Longrightarrow>
      invh T1 \<Longrightarrow> ctx_ok (Suc (bh T1)) D \<Longrightarrow> T1 \<noteq> Lf \<Longrightarrow>
      del_post (nodes T1 D) t1 (inorder (plug T1 D)) (fin (bst_fixup_delete_loop (Suc k) t1 p))"
  shows "del_post (nodes T (RF s p c # D)) t (inorder (plug T (RF s p c # D))) (fin (bst_fixup_delete_loop (Suc (Suc k)) t n))"
proof -
  let ?N = "nodes T (RF s p c # D)"
  have "bh s = Suc (bh T)" using inv by simp
  then obtain l b x r where s: "s = Nd l b x r" using bh_node by blast
  note n = zip_hole [OF zip par nilc black list.simps(3)]
  have q: "q = p" "n = bst_right t p" "bst_left t p = b" "b \<noteq> nil t" "b \<notin> set (inorder T)" "good b" "col t b = cw x"
    and up: "zip_rep t p (par t p) (Nd (Nd l b x r) p c T) D" using zip s by (auto simp: zip_rep_def)
  have nb: "n \<noteq> b" using n(4) q by auto
  have run: "bst_fixup_delete_loop (Suc (Suc k)) t n =
      (if x = Red then bst_rotate_right (upd_col p Red (upd_col b Black t)) p \<bind> (\<lambda>t. sib_right (Suc k) t p (bst_left t p))
       else sib_right (Suc k) t p b)"
    using loop_right_child [of n t p "Suc k"] n(1-3) par q(1-4,6) nb up by (auto simp: zip_rep_def)
  have N: "?N = nodes (Nd (Nd l b x r) p c T) D" using s by auto
  show ?thesis
  proof (cases x)
    case Black
    have "del_post (nodes (Nd (Nd l b Black r) p c T) D) t (inorder (plug (Nd (Nd l b Black r) p c T) D))
        (fin (sib_right (Suc k) t p b))"
    proof (rule sib_right_post [OF up [unfolded Black] nilc inv(1,2) black _ _ _ _ _ _ _ _ refl], goal_cases)
      case (9 t2)
      show ?case using IH [OF 9(1,2)] 9(3,4) inv black s Black by (cases c) auto
    qed (use inv s Black in auto)
    then show ?thesis unfolding run N using s Black by simp
  next
    case Red
    then have c: "c = Black" using inv s by (cases c) auto
    obtain t1 where t1: "bst_rotate_right (upd_col p Red (upd_col b Black t)) p = Some t1"
        "zip_rep t1 b (par t p) (Nd l b Black (Nd r p Red T)) D" "frame_of ?N t t1"
      unfolding N using fix_left_black [OF up] by blast
    have nilc1: "col t1 (nil t1) = BST_BLACK" using frame_col [OF t1(3) zip_nil_notin [OF zip] nilc] .
    have "bh r = Suc (bh T)" "\<not> is_red r" "invc r" "invh r" using inv s Red by auto
    then obtain rl e rr where r: "r = Nd rl e Black rr" using bh_node by (metis color.exhaust is_red.simps(2))
    have down: "zip_rep t1 p b (Nd r p Red T) (RF l b Black # D)" and left: "bst_left t1 p = e"
      using t1(2) zip_down_right [OF t1(2)] r by (auto simp: zip_rep_def)
    have "del_post (nodes (Nd r p Red T) (RF l b Black # D)) t1 (inorder (plug (Nd r p Red T) (RF l b Black # D)))
        (fin (sib_right (Suc k) t1 p e))"
      unfolding r
    proof (rule sib_right_post [OF down [unfolded r] nilc1 inv(1,2) black _ _ _ _ _ _ _ _ refl], goal_cases)
      case (9 t2)
      show ?case
        using fin_at_red [OF 9(1,2), of k] 9(3,4) inv black s Red c r by auto
    qed (use inv s Red c r in auto)
    then have "del_post ?N t1 (inorder (plug T (RF s p c # D))) (fin (sib_right (Suc k) t1 p e))"
      unfolding N using Red s by (simp add: inorder_plug Un_ac insert_commute)
    from del_post_step [OF t1(3) this] show ?thesis unfolding run using t1(1) left Red by simp
  qed
qed


lemma fixup_delete_post:
  fixes t :: "('k, 'v) jfs_bst"
  assumes "zip_rep t n q T C" and "par t n = q" and "col t (nil t) = BST_BLACK" and "invc (blacken T)" and "invh T"
    and "ctx_ok (Suc (bh T)) C" and "T \<noteq> Lf \<or> C \<noteq> []" and "length C + 1 < fuel"
  shows "del_post (nodes T C) t (inorder (plug T C)) (bst_fixup_delete fuel t n)"
  using assms unfolding fixup_delete_fin
proof (induction C arbitrary: t n q T fuel)
  case Nil
  obtain k where k: "fuel = Suc k" using Nil.prems(8) by (cases fuel) auto
  have "n = root t" using Nil.prems(1) by (simp add: zip_rep_def)
  then show ?case using fin_at_root [OF Nil.prems(1,3), of k] Nil.prems k by simp
next
  case (Cons f D)
  obtain k where k: "fuel = Suc (Suc k)" "length D + 1 < Suc k" using Cons.prems(8) by (cases fuel; cases "fuel - 1") auto
  show ?case
  proof (cases "is_red T")
    case True
    show ?thesis unfolding k(1) by (rule fin_at_red [OF Cons.prems(1,3) True Cons.prems(4-6)])
  next
    case False
    then have "invc T" using Cons.prems(4) by (cases T) auto
    have IH: "del_post (nodes T1 D) t1 (inorder (plug T1 D)) (fin (bst_fixup_delete_loop (Suc k) t1 p))"
      if "zip_rep t1 p q T1 D" "col t1 (nil t1) = BST_BLACK" "invc (blacken T1)" "invh T1" "ctx_ok (Suc (bh T1)) D" "T1 \<noteq> Lf"
      for t1 :: "('k, 'v) jfs_bst" and p q T1
    proof (rule Cons.IH [OF that(1) _ that(2-5) _ k(2)])
      show "par t1 p = q" using that(1,6) by (cases T1) (auto simp: zip_rep_def)
    qed (use that(6) in simp)
    show ?thesis
    proof (cases f)
      case (LF p c s)
      show ?thesis unfolding k(1) LF
        by (rule fixup_left [OF Cons.prems(1) [unfolded LF] Cons.prems(2,3) False \<open>invc T\<close> Cons.prems(5) Cons.prems(6) [unfolded LF] IH])
    next
      case (RF s p c)
      show ?thesis unfolding k(1) RF
        by (rule fixup_right [OF Cons.prems(1) [unfolded RF] Cons.prems(2,3) False \<open>invc T\<close> Cons.prems(5) Cons.prems(6) [unfolded RF] IH])
    qed
  qed
qed


section \<open>Unlinking a node\<close>

text \<open>Replacing a node by another in the path to the root.\<close>

lemma ctx_root: "ctx_rep t p q C \<Longrightarrow> p \<noteq> nil t \<Longrightarrow> root t \<noteq> nil t"
proof (induction C arbitrary: p q)
  case (Cons f C)
  then show ?case by (cases f) auto
qed simp

lemma transplant_ctx:
  assumes ctx: "ctx_rep t a q C" "par t a = q" "good a" "a \<noteq> nil t" "a \<notin> set (ctx_addrs C)" "distinct (ctx_addrs C)"
    "good (nil t)" and b: "good b" "a \<noteq> b" "b \<notin> set (ctx_addrs C)"
  obtains t' where "bst_transplant t a b = Some t'" and "ctx_rep t' b q C" and "par t' = (par t)(b := q)" and "col t' = col t"
    and "\<forall>x. x \<notin> set (ctx_addrs C) \<longrightarrow> bst_left t' x = bst_left t x \<and> bst_right t' x = bst_right t x"
    and "frame_of (insert b (set (ctx_addrs C))) t t'" and "frame_of (insert b ({q} - {nil t})) t t'"
proof -
  let ?r = "bst_replace_child t q a b"
  have q: "good q" "q = nil t \<or> q \<in> set (ctx_addrs C)" using ctx_parent [OF ctx(1,7)] by auto
  have one: "(q = nil t \<or> (a = bst_left t q) \<noteq> (a = bst_right t q))" using ctx_one_child [OF ctx(1,4,5)] .
  have run: "bst_transplant t a b = Some (upd_par b q ?r)"
    using ctx b q ctx_root [OF ctx(1,4)] by (simp add: bst_transplant_def)
  have rep: "ctx_rep ?r b q C" by (rule ctx_replace [OF ctx(1,4,5,6)])
  have f: "frame_of {b} ?r (upd_par b q ?r)" by simp
  have "ctx_rep (upd_par b q ?r) b q C" using rep b(3) by (subst ctx_rep_frame [OF f]) auto
  moreover have "bst_left ?r x = bst_left t x \<and> bst_right ?r x = bst_right t x" if "x \<notin> set (ctx_addrs C)" for x
  proof (cases "q = nil t")
    case False
    then show ?thesis using that q(2) replace_child_unch [of x q t a b] by auto
  qed (simp add: bst_replace_child_def)
  moreover have fr: "frame_of (insert b ({q} - {nil t})) t (upd_par b q ?r)"
    by (intro frame_trans [OF frame_replace frame_mono [OF f]]) auto
  moreover have "frame_of (insert b (set (ctx_addrs C))) t (upd_par b q ?r)"
    using fr by (rule frame_mono) (use q(2) in auto)
  ultimately show thesis using run q(1) by (intro that [of "upd_par b q ?r"]) simp_all
qed

text \<open>A subtree whose root is given another parent keeps its shape.\<close>

lemma tree_rep_move:
  assumes "tree_rep t b p S" and "nil t' = nil t" and "distinct (inorder S)" and "S \<noteq> Lf \<Longrightarrow> par t' b = q"
    and "\<And>x. x \<in> set (inorder S) \<Longrightarrow> x \<noteq> b \<Longrightarrow> par t' x = par t x"
    and "\<And>x. x \<in> set (inorder S) \<Longrightarrow> col t' x = col t x \<and> bst_left t' x = bst_left t x \<and> bst_right t' x = bst_right t x"
  shows "tree_rep t' b q S"
proof (cases S)
  case (Nd l a c r)
  have "tree_rep t' x y l = tree_rep t x y l" "tree_rep t' x y r = tree_rep t x y r" for x y
    using assms Nd by (auto intro!: tree_rep_cong)
  then show ?thesis using assms Nd by simp
qed (use assms in simp)

lemma ctx_nil_notin: "ctx_rep t p q C \<Longrightarrow> nil t \<notin> set (ctx_addrs C)"
proof (induction C arbitrary: p q)
  case (Cons f C)
  then show ?case by (cases f) (auto dest: tree_rep_nonnil)
qed simp

lemma transplant_zip:
  assumes ctx: "ctx_rep t a q C" "par t a = q" "good a" "a \<noteq> nil t" "a \<notin> set (ctx_addrs C)"
    "good (nil t)" and S: "tree_rep t b p S" "distinct (inorder S @ ctx_addrs C)" "a \<noteq> b"
  obtains t' where "bst_transplant t a b = Some t'" and "zip_rep t' b q S C" and "par t' b = q" and "col t' = col t"
    and "frame_of (insert b (set (ctx_addrs C))) t t'" and "frame_of (insert b ({q} - {nil t})) t t'"
proof -
  have b: "b = nil t \<or> b \<in> set (inorder S)" "good b" using S(1) ctx(6) by (cases S; auto)+
  have bC: "b \<notin> set (ctx_addrs C)" "distinct (ctx_addrs C)" using b S(2) ctx_nil_notin [OF ctx(1)] by auto
  obtain t' where t': "bst_transplant t a b = Some t'" "ctx_rep t' b q C" "par t' = (par t)(b := q)" "col t' = col t"
      "\<forall>x. x \<notin> set (ctx_addrs C) \<longrightarrow> bst_left t' x = bst_left t x \<and> bst_right t' x = bst_right t x"
      "frame_of (insert b (set (ctx_addrs C))) t t'" "frame_of (insert b ({q} - {nil t})) t t'"
    by (rule transplant_ctx [OF ctx(1-5) bC(2) ctx(6) b(2) S(3) bC(1)])
  have "tree_rep t' b q S"
    using S t' frame_nil [OF t'(6)] by (intro tree_rep_move [OF S(1)]) auto
  then show thesis using t' S ctx(6) frame_nil [OF t'(6)] by (intro that [of t']) (simp_all add: zip_rep_def)
qed

text \<open>The successor takes the place of the deleted node.\<close>

definition take_place :: "('k, 'v) jfs_bst \<Rightarrow> addr \<Rightarrow> addr \<Rightarrow> ('k, 'v) jfs_bst option" where
  "take_place t node next_largest = do {
     t \<leftarrow> bst_transplant t node next_largest;
     let t = set_left t next_largest (bst_left t node);
     t \<leftarrow> bst_set_parent t (bst_left t next_largest) next_largest;
     node_col \<leftarrow> bst_color t node;
     bst_set_color t next_largest node_col
   }"

lemma delete_swap:
  assumes ctx: "ctx_rep t a q C" "par t a = q" "col t a = cw c" "good a" "a \<noteq> nil t" "good (nil t)"
    and m: "good m" "m \<noteq> nil t" "tree_rep t (bst_right t m) m R"
    and l: "tree_rep t (bst_left t a) a l" "l \<noteq> Lf"
    and dist: "distinct (a # m # inorder l @ inorder R @ ctx_addrs C)"
  obtains t' where "take_place t a m = Some t'"
    and "zip_rep t' m q (Nd l m c R) C" and "frame_of (insert m (set (inorder l) \<union> set (ctx_addrs C))) t t'"
proof -
  let ?b = "bst_left t a"
  have d: "a \<notin> set (ctx_addrs C)" "distinct (ctx_addrs C)" "m \<notin> set (ctx_addrs C)" "a \<noteq> m" using dist by auto
  obtain t1 where t1: "bst_transplant t a m = Some t1" "ctx_rep t1 m q C" "par t1 = (par t)(m := q)" "col t1 = col t"
      "\<forall>x. x \<notin> set (ctx_addrs C) \<longrightarrow> bst_left t1 x = bst_left t x \<and> bst_right t1 x = bst_right t x"
      "frame_of (insert m (set (ctx_addrs C))) t t1" "frame_of (insert m ({q} - {nil t})) t t1"
    by (rule transplant_ctx [OF ctx(1,2,4,5) d(1,2) ctx(6) m(1) d(4,3)])
  have b: "?b \<in> set (inorder l)" "good ?b" "?b \<noteq> nil t" using l by (cases l; auto)+
  have bne: "?b \<noteq> m" "?b \<noteq> a" "?b \<notin> set (ctx_addrs C)" using b(1) dist by auto
  let ?t = "upd_col m c (upd_par ?b m (set_left t1 m ?b))"
  have n1: "nil t1 = nil t" by (rule frame_nil [OF t1(6)])
  have run: "take_place t a m = Some ?t"
    using t1 d ctx m b bne by (simp add: take_place_def)
  have f: "frame_of {m, ?b} t1 ?t"
    by (intro frame_trans [OF frame_setters(3) frame_trans [OF frame_setters(1) frame_setters(2)]]) simp_all
  have "ctx_rep ?t m q C" using t1(2) d(3) bne(3) by (subst ctx_rep_frame [OF f]) auto
  moreover have "tree_rep ?t ?b m l"
    using dist t1 m(1) n1 bne by (intro tree_rep_move [OF l(1)]) auto
  moreover have "tree_rep ?t (bst_right t m) m R"
    using m(3) dist t1 n1 m(1) b(1) by (subst tree_rep_cong [of _ t]) auto
  moreover have "par ?t m = q" "col ?t m = cw c" "bst_left ?t m = ?b" "bst_right ?t m = bst_right t m"
    using t1 d m(1) bne by auto
  ultimately have "zip_rep ?t m q (Nd l m c R) C" using m n1 ctx(6) dist by (simp add: zip_rep_def)
  moreover have "frame_of (insert m (set (inorder l) \<union> set (ctx_addrs C))) t ?t"
    using b(1) by (intro frame_trans [OF frame_mono [OF t1(6)] frame_mono [OF f]]) auto
  ultimately show thesis using run by (intro that [of ?t])
qed

section \<open>Deletion\<close>

lemma plug_append: "plug S (D @ C) = plug (plug S D) C"
  by (induction S D rule: plug.induct) auto

lemma path_append [simp]:
  "ctx_addrs (D @ C) = ctx_addrs D @ ctx_addrs C" "lefts (D @ C) = lefts C @ lefts D" "rights (D @ C) = rights D @ rights C"
  by (induction D rule: lefts.induct) auto

lemma zip_descend: "zip_rep t p q (plug S D) C \<Longrightarrow> \<exists>p' q'. zip_rep t p' q' S (D @ C)"
proof (induction S D rule: plug.induct)
  case (2 S a c r D)
  then obtain p' q' where "zip_rep t p' q' (Nd S a c r) (D @ C)" by auto
  with zip_focus [OF this] show ?case using zip_down_left [of t a q' S c r "D @ C"] by auto
next
  case (3 S l a c D)
  then obtain p' q' where "zip_rep t p' q' (Nd l a c S) (D @ C)" by auto
  with zip_focus [OF this] show ?case using zip_down_right [of t a q' l c S "D @ C"] by auto
qed auto

lemma zip_ascend: "zip_rep t p q S (D @ C) \<Longrightarrow> \<exists>p' q'. zip_rep t p' q' (plug S D) C"
proof (induction S D arbitrary: p q rule: plug.induct)
  case (2 S a c r D)
  then show ?case using zip_up_left [of t p q S a c r "D @ C"] by auto
next
  case (3 S l a c D)
  then show ?case using zip_up_right [of t p q S l a c "D @ C"] by auto
qed auto

text \<open>The leftmost node of a subtree and the path to it.\<close>

lemma local_minimum:
  "tree_rep t p q S \<Longrightarrow> S \<noteq> Lf \<Longrightarrow> theight S \<le> fuel \<Longrightarrow>
     \<exists>D m d r. bst_local_minimum fuel t p = Some m \<and> S = plug (Nd Lf m d r) D \<and> lefts D = []"
proof (induction S arbitrary: p q fuel)
  case (Nd l a c r)
  obtain n where n: "fuel = Suc n" using Nd.prems(3) by (cases fuel) auto
  show ?case
  proof (cases "l = Lf")
    case True
    then show ?thesis using Nd.prems n by (intro exI [of _ "[]"]) auto
  next
    case False
    moreover have "bst_left t a \<noteq> nil t" using False Nd.prems(1) by (cases l) auto
    moreover obtain D m d r' where "bst_local_minimum n t (bst_left t a) = Some m" "l = plug (Nd Lf m d r') D" "lefts D = []"
      using Nd.IH(1) [of "bst_left t a" a n] Nd.prems n False by auto
    ultimately show ?thesis using Nd.prems n
      by (intro exI [of _ "D @ [LF a c r]"] exI [of _ m] exI [of _ d] exI [of _ r']) (auto simp: plug_append)
  qed
qed simp

lemma del_post_mono: "del_post M t xs res \<Longrightarrow> M \<subseteq> N \<Longrightarrow> del_post N t xs res"
  by (unfold del_post_def, elim exE conjE) (intro exI conjI, assumption+, rule frame_mono)

text \<open>What follows the unlinking: nothing after a red node, the fix-up after a black one.\<close>

lemma unlink_finish:
  assumes zip: "zip_rep t' n q S C" and par: "par t' n = q" and nilc: "col t' (nil t') = BST_BLACK"
    and f: "frame_of N t t'" "nodes S C \<subseteq> N"
    and inv: "invc S" "invh S" "ctx_ok (bh S + (if d = Black then 1 else 0)) C"
      "d = Red \<Longrightarrow> \<not> is_red S" "C \<noteq> [] \<or> d = Black \<and> S \<noteq> Lf" and fuel: "length C + 1 < fuel"
  shows "del_post N t (inorder (plug S C)) (if d = Black then bst_fixup_delete fuel t' n else Some t')"
proof (cases d)
  case Black
  have "del_post (nodes S C) t' (inorder (plug S C)) (bst_fixup_delete fuel t' n)"
    using inv Black fuel by (intro fixup_delete_post [OF zip par nilc]) (auto simp: inv_blacken)
  from del_post_step [OF f(1) del_post_mono [OF this f(2)]] show ?thesis using Black by simp
next
  case Red
  then have "rb (plug S C)" using plug_black [of S C] inv ctx_ok_last [of _ C] by (auto simp: rb_def is_red_plug)
  then show ?thesis using zip_tree [OF zip] Red nilc f(1) by (auto intro!: del_postI [OF refl])
qed

lemma ctx_ok_addr: "ctx_ok h (D @ RF l a c # C) = ctx_ok h (D @ RF l b c # C)"
  by (induction h D rule: ctx_ok.induct) (simp_all add: hd_append)

lemma rb_zip:
  assumes "rb (plug (Nd l a c r) C)"
  shows "invc l" "invh l" "invc r" "invh r" "bh l = bh r" "ctx_ok (bh l + (if c = Black then 1 else 0)) C"
    "c = Red \<Longrightarrow> \<not> is_red l \<and> \<not> is_red r" "C = [] \<Longrightarrow> c = Black"
  using ctx_ok_of_tree [of "Nd l a c r" C] assms by (auto simp: rb_def)

lemma delete_one_child:
  assumes zip: "zip_rep t a q (Nd l a c r) C" and nilc: "col t (nil t) = BST_BLACK" and rb: "rb (plug (Nd l a c r) C)"
    and S: "l = Lf \<and> S = r \<and> b = bst_right t a \<or> r = Lf \<and> S = l \<and> b = bst_left t a" and two: "C \<noteq> [] \<or> S \<noteq> Lf"
    and fuel: "theight (plug (Nd l a c r) C) < fuel"
  shows "\<exists>t'. bst_transplant t a b = Some t' \<and> del_post (insert (nil t) (nodes S C)) t (inorder (plug S C))
    (if c = Black then bst_fixup_delete fuel t' b else Some t')"
proof -
  have a: "ctx_rep t a q C" "par t a = q" "good a" "a \<noteq> nil t" "a \<notin> set (ctx_addrs C)" "good (nil t)"
    and rep: "tree_rep t b a S" "distinct (inorder S @ ctx_addrs C)" "a \<notin> set (inorder S)"
    using zip S by (auto simp: zip_rep_def)
  have ab: "a \<noteq> b" using tree_rep_in [OF rep(1)] rep(3) a(4) by auto
  obtain t' where t': "bst_transplant t a b = Some t'" "zip_rep t' b q S C" "par t' b = q" "col t' = col t"
      "frame_of (insert b (set (ctx_addrs C))) t t'" "frame_of (insert b ({q} - {nil t})) t t'" by (rule transplant_zip [OF a rep(1,2) ab])
  note inv = rb_zip [OF rb]
  have "frame_of (insert (nil t) (nodes S C)) t t'" using t'(5) by (rule frame_mono) (use tree_rep_in [OF rep(1)] in auto)
  moreover have "length C + 1 < fuel" using ctx_height [of "Nd l a c r" C] fuel by simp
  moreover have "col t' (nil t') = BST_BLACK" using t'(4) frame_nil [OF t'(5)] nilc by simp
  moreover have "C \<noteq> [] \<or> c = Black \<and> S \<noteq> Lf" using two inv(8) by blast
  ultimately have "del_post (insert (nil t) (nodes S C)) t (inorder (plug S C))
    (if c = Black then bst_fixup_delete fuel t' b else Some t')"
    using inv S t'(2,3) by (intro unlink_finish [OF t'(2,3)]) auto
  then show ?thesis using t'(1) by blast
qed

text \<open>The node has two children: its successor \<open>m\<close> is at the end of the path \<open>D\<close> of left children.\<close>

lemma delete_two_finish:
  assumes zip: "zip_rep t' m q (Nd l m c (plug S D)) C" and b: "b = (case S of Lf \<Rightarrow> nil t' | Nd _ e _ _ \<Rightarrow> e)"
    and par: "S = Lf \<Longrightarrow> par t' (nil t') = ctx_q m D" and nilc: "col t' (nil t') = BST_BLACK"
    and f: "frame_of N t t'" "nodes (Nd l m c (plug S D)) C \<subseteq> N"
    and rb: "rb (plug (Nd Lf m d S) (D @ RF l a c # C))" and fuel: "theight (plug (Nd Lf m d S) (D @ RF l a c # C)) < fuel"
  shows "del_post N t (inorder (plug (Nd l m c (plug S D)) C)) (if d = Black then bst_fixup_delete fuel t' b else Some t')"
proof -
  have "zip_rep t' (bst_right t' m) m (plug S D) (RF l m c # C)" using zip_down_right zip zip_focus by metis
  from zip_descend [OF this] obtain b' q' where z: "zip_rep t' b' q' S (D @ RF l m c # C)" by blast
  then have b': "b' = b" using tree_rep_root [of t' b' q' S] b by (simp add: zip_rep_def)
  have "par t' b = q'"
  proof (cases S)
    case Lf
    have "q' = ctx_q m D" using zip_q [OF z] by (cases "(m, D)" rule: ctx_q.cases) auto
    then show ?thesis using par b Lf by simp
  qed (use z b' in \<open>auto simp: zip_rep_def\<close>)
  note inv = rb_zip [OF rb]
  have "length (D @ RF l m c # C) + 1 < fuel" using ctx_height [of "Nd Lf m d S" "D @ RF l a c # C"] fuel by simp
  moreover have "ctx_ok (bh S + (if d = Black then 1 else 0)) (D @ RF l m c # C)" 
    using inv(5,6) ctx_ok_addr [of _ D l a c C m] by simp
  moreover have "inorder (plug S (D @ RF l m c # C)) = inorder (plug (Nd l m c (plug S D)) C)"
    by (simp add: inorder_plug)
  ultimately show ?thesis
    using unlink_finish [OF z [unfolded b'] \<open>par t' b = q'\<close> nilc f(1), of d fuel] inv(3,4,7) f(2)
    by (auto simp: inorder_plug_set)
qed

lemma delete_far_successor:
  assumes zip: "zip_rep t a q (Nd l a c (plug (Nd Lf m d S) D)) C" and nilc: "col t (nil t) = BST_BLACK"
    and l: "l \<noteq> Lf" and D: "D \<noteq> []"
  obtains t1 t' where "do {
       t \<leftarrow> bst_transplant t m (bst_right t m);
       let t = set_right t m (bst_right t a);
       bst_set_parent t (bst_right t m) m
     } = Some t1"
   and "take_place t1 a m = Some t'"
    and "zip_rep t' m q (Nd l m c (plug S D)) C" and "S = Lf \<longrightarrow> par t' (nil t') = ctx_q m D"
    and "col t' (nil t') = BST_BLACK" and "frame_of (insert (nil t) (nodes (Nd l m c (plug S D)) C)) t t'"
proof -
  let ?N = "insert (nil t) (nodes (Nd l m c (plug S D)) C)" and ?C = "D @ RF l a c # C"
  have a: "good a" "a \<noteq> nil t" using zip by (auto simp: zip_rep_def)
  have "zip_rep t (bst_right t a) a (plug (Nd Lf m d S) D) (RF l a c # C)" by (rule zip_down_right [OF zip])
  from zip_descend [OF this] obtain qm where m: "zip_rep t m qm (Nd Lf m d S) ?C" using zip_focus by metis
  let ?b = "bst_right t m"
  have mm: "ctx_rep t m qm ?C" "par t m = qm" "good m" "m \<noteq> nil t" "m \<notin> set (ctx_addrs ?C)" "good (nil t)"
    and S: "tree_rep t ?b m S" "distinct (inorder S @ ctx_addrs ?C)" "m \<notin> set (inorder S)" using m by (auto simp: zip_rep_def)
  have b: "?b = nil t \<or> ?b \<in> set (inorder S)" "m \<noteq> ?b" using tree_rep_in [OF S(1)] S(3) mm(4) by auto
  obtain t0 where t0: "bst_transplant t m ?b = Some t0" "zip_rep t0 ?b qm S ?C" "par t0 ?b = qm" "col t0 = col t"
      "frame_of (insert ?b (set (ctx_addrs ?C))) t t0" "frame_of (insert ?b ({qm} - {nil t})) t t0" by (rule transplant_zip [OF mm S(1,2) b(2)])
  have n0: "nil t0 = nil t" by (rule frame_nil [OF t0(5)])
  have "\<exists>p' q'. zip_rep t0 p' q' (plug S D) (RF l a c # C)" by (rule zip_ascend [OF t0(2)])
  then have up: "zip_rep t0 a (par t0 a) (Nd l a c (plug S D)) C" using zip_up_right by metis
  have qa: "par t0 a = q" using zip_q [OF up] zip_q [OF zip] n0 by simp
  let ?r = "bst_right t0 a"
  have R: "tree_rep t0 ?r a (plug S D)" "tree_rep t0 (bst_left t0 a) a l" "ctx_rep t0 a q C" "col t0 a = cw c"
    "distinct (inorder (Nd l a c (plug S D)) @ ctx_addrs C)" using up qa by (auto simp: zip_rep_def)
  have mN: "m \<notin> set (inorder (Nd l a c (plug S D))) \<union> set (ctx_addrs C)" using mm(5) S(3) by (auto simp: inorder_plug_set)
  have "plug S D \<noteq> Lf" using D by (cases D rule: lefts.cases) (auto simp del: inorder_Lf simp: inorder_Lf [symmetric] inorder_plug)
  then have r: "?r \<in> set (inorder (plug S D))" "good ?r" using R(1) by (cases "plug S D"; auto)+
  let ?t1 = "upd_par ?r m (set_right t0 m ?r)"
  have run1: "do {
       t \<leftarrow> bst_transplant t m (bst_right t m);
       let t = set_right t m (bst_right t a);
       bst_set_parent t (bst_right t m) m
     } = Some ?t1" using t0(1) r(2) mm(3) by simp
  have f1: "frame_of {m, ?r} t0 ?t1" by (intro frame_trans [OF frame_setters(4) frame_setters(1)]) simp_all
  have ne: "a \<noteq> m" "a \<noteq> ?r" "m \<noteq> ?r" "?r \<notin> set (inorder l)" "?r \<notin> set (ctx_addrs C)" using r(1) mN R(5) by auto
  have R1: "tree_rep ?t1 (bst_right ?t1 m) m (plug S D)"
    using R(5) mN mm(3) by (simp, intro tree_rep_move [OF R(1)]) auto
  have L1: "tree_rep ?t1 (bst_left ?t1 a) a l" using R(2) mN ne by (subst tree_rep_frame [OF f1]) auto
  have C1: "ctx_rep ?t1 a q C" using R(3) mN ne by (subst ctx_rep_frame [OF f1]) auto
  have a1: "par ?t1 a = q" "col ?t1 a = cw c" "nil ?t1 = nil t" "a \<noteq> nil ?t1" "good (nil ?t1)" "m \<noteq> nil ?t1"
    using qa R(4) ne mm n0 a by simp_all
  have d1: "distinct (a # m # inorder l @ inorder (plug S D) @ ctx_addrs C)" using R(5) mN by auto
  obtain t' where t': "take_place ?t1 a m = Some t'" "zip_rep t' m q (Nd l m c (plug S D)) C" "frame_of (insert m (set (inorder l) \<union> set (ctx_addrs C))) ?t1 t'"
    by (rule delete_swap [OF C1 a1(1,2) a(1) a1(4,5) mm(3) a1(6) R1 L1 l d1])
  have nl: "nil t \<notin> insert m (set (inorder l) \<union> set (ctx_addrs C))" "nil t \<noteq> ?r"
    using zip_nil_notin [OF up] n0 mm(4) r(1) by auto
  have same: "par t' (nil t') = par t0 (nil t)" "col t' (nil t') = col t0 (nil t)"
    using frame_unch [OF t'(3), of "nil t"] frame_nil [OF t'(3)] nl a1(3) mm by auto
  have qm: "qm = ctx_q m D" "qm \<in> set (ctx_addrs D)" using zip_q [OF m] D by (cases D rule: lefts.cases; auto)+
  show thesis
  proof (rule that [OF run1 t'(1,2)])
    show "S = Lf \<longrightarrow> par t' (nil t') = ctx_q m D" using S(1) same(1) t0(3) qm(1) by auto
    show "col t' (nil t') = BST_BLACK" using same(2) t0(4) nilc by simp
    have "frame_of ?N t t0" by (rule frame_mono [OF t0(6)]) (use b(1) qm(2) in \<open>auto simp: inorder_plug_set\<close>)
    moreover have "frame_of ?N t0 ?t1" by (rule frame_mono [OF f1]) (use r(1) in auto)
    moreover have "frame_of ?N ?t1 t'" by (rule frame_mono [OF t'(3)]) auto
    ultimately show "frame_of ?N t t'" by (meson frame_trans)
  qed
qed

lemma delete_near_successor:
  assumes zip: "zip_rep t a q (Nd l a c (Nd Lf m d S)) C" and nilc: "col t (nil t) = BST_BLACK" and l: "l \<noteq> Lf"
  obtains t1 t' where "bst_set_parent t (bst_right t m) m = Some t1"
   and "take_place t1 a m = Some t'"
    and "zip_rep t' m q (Nd l m c S) C" and "S = Lf \<longrightarrow> par t' (nil t') = m"
    and "col t' (nil t') = BST_BLACK" and "frame_of (insert (nil t) (nodes (Nd l m c S) C)) t t'"
proof -
  let ?b = "bst_right t m" and ?N = "insert (nil t) (nodes (Nd l m c S) C)"
  have a: "good a" "a \<noteq> nil t" "par t a = q" "col t a = cw c" "ctx_rep t a q C" "good (nil t)" "bst_right t a = m"
    and m: "good m" "m \<noteq> nil t" "tree_rep t ?b m S" and L: "tree_rep t (bst_left t a) a l"
    and d: "distinct (a # m # inorder l @ inorder S @ ctx_addrs C)" using zip by (auto simp: zip_rep_def)
  have b: "?b = nil t \<or> ?b \<in> set (inorder S)" "good ?b" using m(3) a(6) by (cases S; auto)+
  have nl: "nil t \<notin> insert m (set (inorder l) \<union> set (ctx_addrs C))"
    using zip_nil_notin [OF zip] by auto
  have ne: "?b \<noteq> a" "?b \<noteq> m" "?b \<notin> set (inorder l)" "?b \<notin> set (ctx_addrs C)" using b(1) d a(2) m(2) nl by auto
  let ?t1 = "upd_par ?b m t"
  have run1: "bst_set_parent t ?b m = Some ?t1" using b m by simp
  have f1: "frame_of {?b} t ?t1" by simp
  have R1: "tree_rep ?t1 (bst_right ?t1 m) m S" using d m(1) by (simp, intro tree_rep_move [OF m(3)]) auto
  have L1: "tree_rep ?t1 (bst_left ?t1 a) a l" using L ne by (subst tree_rep_frame [OF f1]) auto
  have C1: "ctx_rep ?t1 a q C" using a(5) ne by (subst ctx_rep_frame [OF f1]) auto
  have a1: "par ?t1 a = q" "col ?t1 a = cw c" "a \<noteq> nil ?t1" "good (nil ?t1)" "m \<noteq> nil ?t1" using a m ne by auto
  obtain t' where t': "take_place ?t1 a m = Some t'" "zip_rep t' m q (Nd l m c S) C" "frame_of (insert m (set (inorder l) \<union> set (ctx_addrs C))) ?t1 t'"
    by (rule delete_swap [OF C1 a1(1,2) a(1) a1(3,4) m(1) a1(5) R1 L1 l d])
  have same: "par t' (nil t') = par ?t1 (nil t)" "col t' (nil t') = col t (nil t)"
    using frame_unch [OF t'(3), of "nil t"] frame_nil [OF t'(3)] nl m(1) by auto
  show thesis
  proof (rule that [OF run1 t'(1,2)])
    show "S = Lf \<longrightarrow> par t' (nil t') = m" using same(1) m by auto
    show "col t' (nil t') = BST_BLACK" using same(2) nilc by simp
    show "frame_of ?N t t'"
      by (rule frame_trans [OF frame_mono [OF f1] frame_mono [OF t'(3)]]) (use b(1) in auto)
  qed
qed

lemma tree_rep_nil: "tree_rep t p q T \<Longrightarrow> p = nil t \<longleftrightarrow> T = Lf"
  by (cases T) auto

lemma plug_top: "D \<noteq> [] \<Longrightarrow> tree_rep t p q (plug T D) \<Longrightarrow> p \<in> set (ctx_addrs D)"
proof (induction T D rule: plug.induct)
  case (2 T a c r C)
  then show ?case by (cases "C = []") auto
next
  case (3 T l a c C)
  then show ?case by (cases "C = []") auto
qed simp

lemma bst_delete_two:
  assumes "a \<noteq> nil t" and "good a" and "bst_left t a \<noteq> nil t" and "bst_right t a \<noteq> nil t"
    and "bst_local_minimum fuel t (bst_right t a) = Some m" and "good m" and "col t m = cw d"
  shows "bst_delete fuel t a = do {
     t1 \<leftarrow> (if m \<noteq> bst_right t a then do {
              t \<leftarrow> bst_transplant t m (bst_right t m);
              let t = set_right t m (bst_right t a);
              bst_set_parent t (bst_right t m) m
            } else bst_set_parent t (bst_right t m) m);
     t' \<leftarrow> take_place t1 a m;
     if d = Black then bst_fixup_delete fuel t' (bst_right t m) else Some t'
   }"
  using assms by (simp add: bst_delete_def take_place_def Let_def Option.bind_assoc split del: if_split)

lemma delete_two_children:
  assumes zip: "zip_rep t a q (Nd l a c r) C" and nilc: "col t (nil t) = BST_BLACK" and rb: "rb (plug (Nd l a c r) C)"
    and both: "l \<noteq> Lf" "r \<noteq> Lf" and fuel: "theight (plug (Nd l a c r) C) < fuel"
  shows "del_post (insert (nil t) (set (inorder l) \<union> set (inorder r) \<union> set (ctx_addrs C))) t
    (lefts C @ inorder l @ inorder r @ rights C) (bst_delete fuel t a)"
proof -
  have a: "good a" "a \<noteq> nil t" "col t a = cw c" "good (nil t)" and L: "tree_rep t (bst_left t a) a l"
    and R: "tree_rep t (bst_right t a) a r" using zip by (auto simp: zip_rep_def)
  have nils: "bst_left t a \<noteq> nil t" "bst_right t a \<noteq> nil t" using tree_rep_nil [OF L] tree_rep_nil [OF R] both by simp_all
  have "theight r \<le> fuel" using ctx_height [of "Nd l a c r" C] fuel by simp
  with local_minimum [OF R both(2)] obtain D m d S where m: "bst_local_minimum fuel t (bst_right t a) = Some m"
      "r = plug (Nd Lf m d S) D" "lefts D = []" by blast
  have mS: "good m" "m \<noteq> nil t" "col t m = cw d" "tree_rep t (bst_right t m) m S" "m \<notin> set (ctx_addrs D)"
    using sub_tree_rep [OF R, of Lf m d S] sub_plug [of "Nd Lf m d S" D] m(2) zip by (auto simp: zip_rep_def inorder_plug_set distinct_plug)
  have rb': "rb (plug (Nd Lf m d S) (D @ RF l a c # C))" "theight (plug (Nd Lf m d S) (D @ RF l a c # C)) < fuel"
    using rb fuel m(2) by (simp_all add: plug_append)
  have b: "bst_right t m = (case S of Lf \<Rightarrow> nil t | Nd _ e _ _ \<Rightarrow> e)" using tree_rep_root [OF mS(4)] by (cases S) auto
  have post: ?thesis if run: "bst_delete fuel t a = (if d = Black then bst_fixup_delete fuel t' (bst_right t m) else Some t')"
    and t': "zip_rep t' m q (Nd l m c (plug S D)) C" "S = Lf \<Longrightarrow> par t' (nil t') = ctx_q m D" "col t' (nil t') = BST_BLACK"
      "frame_of (insert (nil t) (nodes (Nd l m c (plug S D)) C)) t t'" for t'
  proof -
    have "insert (nil t) (nodes (Nd l m c (plug S D)) C) = insert (nil t) (set (inorder l) \<union> set (inorder r) \<union> set (ctx_addrs C))"
      using m(2) by (auto simp: inorder_plug_set)
    moreover have "inorder (plug (Nd l m c (plug S D)) C) = lefts C @ inorder l @ inorder r @ rights C"
      using m(2,3) by (simp add: inorder_plug)
    moreover have b': "bst_right t m = (case S of Lf \<Rightarrow> nil t' | Nd _ e _ _ \<Rightarrow> e)"
      using b frame_nil [OF t'(4)] by (cases S) simp_all
    ultimately show ?thesis unfolding run
      using delete_two_finish [OF t'(1) b' t'(2,3,4) subset_insertI rb'] by simp
  qed
  show ?thesis
  proof (cases "D = []")
    case True
    have "zip_rep t a q (Nd l a c (Nd Lf m d S)) C" "bst_right t a = m" using zip R m(2) True by simp_all
    then obtain t1 t' where t': "bst_set_parent t (bst_right t m) m = Some t1" "take_place t1 a m = Some t'"
      "zip_rep t' m q (Nd l m c S) C" "S = Lf \<longrightarrow> par t' (nil t') = m" "col t' (nil t') = BST_BLACK"
      "frame_of (insert (nil t) (nodes (Nd l m c S) C)) t t'"
      using delete_near_successor [OF _ nilc both(1)] by metis
    show ?thesis
      by (rule post [of t']) (use t' a mS nils both m(1) True \<open>bst_right t a = m\<close> in \<open>simp_all add: bst_delete_two\<close>)
  next
    case False
    have zip': "zip_rep t a q (Nd l a c (plug (Nd Lf m d S) D)) C" using zip m(2) by simp
    have "bst_right t a \<noteq> m" using plug_top [OF False, of t _ a "Nd Lf m d S"] R m(2) mS(5) by metis
    obtain t1 t' where t': "do { t \<leftarrow> bst_transplant t m (bst_right t m); let t = set_right t m (bst_right t a);
          bst_set_parent t (bst_right t m) m } = Some t1" "take_place t1 a m = Some t'"
      "zip_rep t' m q (Nd l m c (plug S D)) C" "S = Lf \<longrightarrow> par t' (nil t') = ctx_q m D" "col t' (nil t') = BST_BLACK"
      "frame_of (insert (nil t) (nodes (Nd l m c (plug S D)) C)) t t'"
      by (rule delete_far_successor [OF zip' nilc both(1) False])
    show ?thesis
      by (rule post [of t']) (use t' a mS nils both m(1) \<open>bst_right t a \<noteq> m\<close> in \<open>simp_all add: bst_delete_two\<close>)
  qed
qed

lemma bst_delete_post:
  assumes zip: "zip_rep t a q (Nd l a c r) C" and nilc: "col t (nil t) = BST_BLACK" and rb: "rb (plug (Nd l a c r) C)"
    and two: "C \<noteq> [] \<or> l \<noteq> Lf \<or> r \<noteq> Lf" and fuel: "theight (plug (Nd l a c r) C) < fuel"
  shows "del_post (insert (nil t) (set (inorder l) \<union> set (inorder r) \<union> set (ctx_addrs C))) t
    (lefts C @ inorder l @ inorder r @ rights C) (bst_delete fuel t a)"
proof -
  have a: "good a" "a \<noteq> nil t" "col t a = cw c" "good (nil t)" and L: "tree_rep t (bst_left t a) a l"
    and R: "tree_rep t (bst_right t a) a r" using zip by (auto simp: zip_rep_def)
  have nils: "bst_left t a = nil t \<longleftrightarrow> l = Lf" "bst_right t a = nil t \<longleftrightarrow> r = Lf" using tree_rep_nil [OF L] tree_rep_nil [OF R] by simp_all
  consider (left) "l = Lf" | (right) "l \<noteq> Lf" "r = Lf" | (both) "l \<noteq> Lf" "r \<noteq> Lf" by blast
  then show ?thesis
  proof cases
    case left
    from delete_one_child [OF zip nilc rb, of r "bst_right t a"] two fuel left obtain t' where
      "bst_transplant t a (bst_right t a) = Some t'" "del_post (insert (nil t) (nodes r C)) t (inorder (plug r C))
        (if c = Black then bst_fixup_delete fuel t' (bst_right t a) else Some t')" by auto
    then show ?thesis using a nils left by (simp add: bst_delete_def inorder_plug split del: if_split)
  next
    case right
    from delete_one_child [OF zip nilc rb, of l "bst_left t a"] two fuel right obtain t' where
      "bst_transplant t a (bst_left t a) = Some t'" "del_post (insert (nil t) (nodes l C)) t (inorder (plug l C))
        (if c = Black then bst_fixup_delete fuel t' (bst_left t a) else Some t')" by auto
    then show ?thesis using a nils right by (simp add: bst_delete_def inorder_plug split del: if_split)
  next
    case both
    then show ?thesis by (rule delete_two_children [OF zip nilc rb _ _ fuel])
  qed
qed

end
