(* ===== verification/Jfs_Bst_Take.thy ===== *)
theory Jfs_Bst_Take
  imports Jfs_Bst_Delete
begin

text \<open>
  The operations of the binary search tree that take values (\<open>bst_update_cache_delete\<close>, \<open>bst_detach_and_delete\<close>,
  \<open>jfs_bst_takes\<close>, \<open>jfs_bst_get_smallest\<close> and \<open>jfs_bst_get_largest\<close>), over \<open>bst_delete\<close> as \<open>Jfs_Bst_Delete\<close>
  describes it. The cache of the ends is right after a deletion, and the node is back on the free list. The cache of the previous
  node is not updated, so the invariant after taking an end is that of the tree without it (\<open>unprev\<close>). The locale
  \<open>end_queue\<close> is the contract of taking the ends in order. Values of equal keys are outside the contract: the members
  \<open>attach\<close> and \<open>detach\<close> that the code calls for them are no members of its struct.
\<close>

section \<open>Looking up\<close>

lemma inv_nonnil: "bst_inv kf t T xs \<Longrightarrow> a \<in> set (inorder T) \<Longrightarrow> a \<noteq> nil t"
  using tree_rep_nonnil unfolding bst_inv_def by blast

lemma inv_root: "bst_inv kf t T xs \<Longrightarrow> root t = nil t \<longleftrightarrow> T = Lf"
  unfolding bst_inv_def by (cases T) auto

lemma compare_zero:
  assumes "cmp_ok kf t"
  shows "(bst_compare t k a \<bind> (\<lambda>c. Some (c = 0))) = Some (key_of kf t a = k)"
  unfolding compare_ok [OF assms] by auto

lemma check_cache_eq:
  assumes "cmp_ok kf t"
  shows "bst_check_cache t key = Some
    (if cache_previous t \<noteq> nil t \<and> key_of kf t (cache_previous t) = key then cache_previous t
     else if cache_largest t \<noteq> nil t \<and> key_of kf t (cache_largest t) = key then cache_largest t
     else if cache_smallest t \<noteq> nil t \<and> key_of kf t (cache_smallest t) = key then cache_smallest t else nil t)"
  unfolding bst_check_cache_def compare_zero [OF assms] by simp

section \<open>The cache after a deletion\<close>

lemma zip_at:
  "zip_rep t p q T C \<Longrightarrow> a \<in> set (inorder T) \<Longrightarrow>
     \<exists>q' l c r D. zip_rep t a q' (Nd l a c r) D \<and> plug (Nd l a c r) D = plug T C"
proof (induction T arbitrary: p q C)
  case (Nd l b c r)
  have b: "zip_rep t b q (Nd l b c r) C" using Nd.prems(1) zip_focus by metis
  consider "a = b" | "a \<in> set (inorder l)" | "a \<in> set (inorder r)" using Nd.prems(2) by auto
  then show ?case
  proof cases
    case 1
    then show ?thesis using b by blast
  next
    case 2
    from Nd.IH(1) [OF zip_down_left [OF b] 2] show ?thesis by simp
  next
    case 3
    from Nd.IH(2) [OF zip_down_right [OF b] 3] show ?thesis by simp
  qed
qed simp

lemma end_pointers:
  "tree_rep t p q F \<Longrightarrow> F \<noteq> Lf \<Longrightarrow> bst_left t (hd (inorder F)) = nil t \<and> bst_right t (last (inorder F)) = nil t"
proof (induction F arbitrary: p q)
  case (Nd l a c r)
  then show ?case by (cases "l = Lf"; cases "r = Lf") (auto simp: hd_append)
qed simp

lemma local_extremes:
  assumes "tree_rep t p q F" and "F \<noteq> Lf"
  shows "bst_local_minimum (Suc n) t (hd (inorder F)) = Some (hd (inorder F))"
    and "bst_local_maximum (Suc n) t (last (inorder F)) = Some (last (inorder F))"
  using end_pointers [OF assms] by simp_all

text \<open>The neighbours of a node at an end of the tree.\<close>

lemma bh0_black: "bh S = 0 \<Longrightarrow> \<not> is_red S \<Longrightarrow> S = Lf"
  by (cases S) (auto split: if_splits)

lemma bh0_red: "bh S = 0 \<Longrightarrow> invc S \<Longrightarrow> invh S \<Longrightarrow> S \<noteq> Lf \<Longrightarrow> \<exists>x. S = Nd Lf x Red Lf"
proof (cases S)
  case (Nd l x c r)
  assume "bh S = 0" "invc S" "invh S"
  then have "c = Red" "bh l = 0" "bh r = 0" "\<not> is_red l" "\<not> is_red r" using Nd by (cases c; auto)+
  then show ?thesis using bh0_black [of l] bh0_black [of r] Nd by blast
qed simp

lemma cache_delete:
  assumes zip: "zip_rep t a q (Nd l a c r) C" and rb: "rb (plug (Nd l a c r) C)" and two: "C \<noteq> [] \<or> l \<noteq> Lf \<or> r \<noteq> Lf"
    and cache: "cache_smallest t' = hd (inorder (plug (Nd l a c r) C))" "cache_largest t' = last (inorder (plug (Nd l a c r) C))"
    and F: "tree_rep t' (root t') (nil t') F" "inorder F = lefts C @ inorder l @ inorder r @ rights C"
    and fr: "frame_of N t t'" "a \<notin> N"
  shows "bst_update_cache_delete (Suc n) t' a = Some (t'\<lparr>cache_smallest := hd (inorder F), cache_largest := last (inorder F)\<rparr>)"
proof -
  let ?ls = "lefts C @ inorder l" and ?rs = "inorder r @ rights C"
  have in_T: "inorder (plug (Nd l a c r) C) = ?ls @ a # ?rs" by (simp add: inorder_plug)
  have dist: "distinct (?ls @ a # ?rs)" using zip_tree [OF zip] in_T by simp
  have a: "par t a = q" "good a" "tree_rep t (bst_left t a) a l" "tree_rep t (bst_right t a) a r" "ctx_rep t a q C"
    using zip by (auto simp: zip_rep_def)
  have a': "par t' a = q" "bst_left t' a = bst_left t a" "bst_right t' a = bst_right t a" "nil t' = nil t"
    using frame_unch [OF fr] a(1) frame_nil [OF fr(1)] by simp_all
  note inv = rb_zip [OF rb]
  have "?ls @ ?rs \<noteq> []" using two by (cases C rule: lefts.cases) auto
  then have F0: "F \<noteq> Lf" using F(2) by auto
  note ext = local_extremes [OF F(1) F0, of n]
  show ?thesis
  proof (cases "?ls = []")
    case True
    then have e: "l = Lf" "lefts C = []" "?rs \<noteq> []" using \<open>?ls @ ?rs \<noteq> []\<close> by auto
    have ne: "cache_smallest t' = a" "cache_largest t' = last ?rs" "last ?rs \<noteq> a"
      using cache in_T True e(3) dist last_in_set [OF e(3)] by auto
    show ?thesis
    proof (cases "r = Lf")
      case True
      then obtain b d s D where "C = LF b d s # D" using e by (cases C rule: lefts.cases) auto
      then show ?thesis using ne e True F(2) a a' by (auto simp: bst_update_cache_delete_def)
    next
      case False
      then obtain x where "r = Nd Lf x Red Lf" using bh0_red [of r] inv(3-5) e(1) by auto
      then show ?thesis using ne e F(2) a a' ext(1) by (auto simp: bst_update_cache_delete_def simp del: bst_local_minimum.simps)
    qed
  next
    case left: False
    have s: "cache_smallest t' = hd ?ls" "hd ?ls \<noteq> a" using cache(1) in_T left dist hd_in_set [OF left] by (auto simp: hd_append)
    show ?thesis
    proof (cases "?rs = []")
      case True
      then have e: "r = Lf" "rights C = []" by auto
      have ne: "cache_largest t' = a" using cache(2) in_T True by simp
      show ?thesis
      proof (cases "l = Lf")
        case True
        then obtain b d s D where "C = RF s b d # D" using e left by (cases C rule: lefts.cases) auto
        then show ?thesis using ne s e True F(2) a a' by (auto simp: bst_update_cache_delete_def)
      next
        case False
        then obtain x where "l = Nd Lf x Red Lf" using bh0_red [of l] inv(1,2,5) e(1) by auto
        then show ?thesis using ne s e F(2) a a' ext(2) by (auto simp: bst_update_cache_delete_def simp del: bst_local_maximum.simps)
      qed
    next
      case False
      then have "cache_largest t' = last ?rs" "last ?rs \<noteq> a" "hd ?ls \<noteq> last ?rs"
        using cache(2) in_T dist last_in_set [OF False] hd_in_set [OF left] by auto
      then show ?thesis using s False left F(2) by (auto simp: bst_update_cache_delete_def hd_append)
    qed
  qed
qed

section \<open>Removing a node\<close>

text \<open>
  The tree without its \<open>previous\<close> cache: removing an end of the tree leaves a dangling pointer there, and everything else
  intact.
\<close>

definition unprev :: "('k, 'v) jfs_bst \<Rightarrow> ('k, 'v) jfs_bst" where
  "unprev t = t\<lparr>cache_previous := nil t\<rparr>"

lemma unprev_fields [simp]:
  "parent_color (unprev t) = parent_color t" "bst_left (unprev t) = bst_left t" "bst_right (unprev t) = bst_right t"
  "root (unprev t) = root t" "nil (unprev t) = nil t" "free_list (unprev t) = free_list t" "value_at (unprev t) = value_at t"
  "value_offset (unprev t) = value_offset t" "value_size (unprev t) = value_size t" "cache_smallest (unprev t) = cache_smallest t"
  "cache_largest (unprev t) = cache_largest t" "cache_previous (unprev t) = nil t" "bst_cmp (unprev t) = bst_cmp t"
  by (simp_all add: unprev_def)

lemma unprev_derived [simp]:
  "par (unprev t) = par t" "col (unprev t) = col t" "node_value (unprev t) = node_value t" "cmp_ok kf (unprev t) = cmp_ok kf t"
  "value_inside (unprev t) = value_inside t" "unprev (t\<lparr>cache_previous := p\<rparr>) = unprev t"
  by (auto simp: fun_eq_iff par_def col_def node_value_def cmp_ok_def value_inside_def unprev_def)

lemma unprev_tree [simp]: "tree_rep (unprev t) p q T = tree_rep t p q T"
  by (rule tree_rep_same) simp_all

lemma inv_unprev:
  "bst_inv kf t T xs \<longleftrightarrow> bst_inv kf (unprev t) T xs \<and> (cache_previous t = nil t \<or> cache_previous t \<in> set (inorder T))"
  by (cases "T = Lf") (auto simp: bst_inv_def)

definition same_values :: "('k, 'v) jfs_bst \<Rightarrow> ('k, 'v) jfs_bst \<Rightarrow> bool" where
  "same_values t t' \<longleftrightarrow> node_value t' = node_value t \<and> cache_previous t' = cache_previous t \<and> nil t' = nil t \<and>
     value_offset t' = value_offset t \<and> bst_list t' = bst_list t"

lemma frame_same_values: "frame_of N t t' \<Longrightarrow> same_values t t'"
  by (auto simp: frame_of_def same_values_def node_value_def)

text \<open>Giving back a node that is not in the tree.\<close>

lemma free_node_inv:
  fixes t :: "('k::linorder, 'v) jfs_bst"
  assumes inv: "bst_inv kf (unprev t) T xs" and a: "good a" "a \<noteq> nil t" "a \<notin> set (inorder T)" "a \<notin> set xs"
  shows "bst_inv kf (unprev (bst_free_node t a)) T (a # xs)" and "same_values t (bst_free_node t a)"
proof -
  obtain fl pc where fl: "jfs_fl_free (free_list t) a (parent_color t) = (fl, pc)" by fastforce
  let ?t = "bst_free_node t a"
  have free: "?t = t\<lparr>free_list := fl, parent_color := pc\<rparr>" using fl by (simp add: bst_free_node_def)
  have pc: "pc x = parent_color t x" if "x \<noteq> a" for x using fl that a(1) by (auto simp: jfs_fl_free_def split: if_splits)
  then have keep: "par ?t x = par t x" "col ?t x = col t x" if "x \<noteq> a" for x using that free by (simp_all add: par_def col_def)
  have "fl_inv fl pc (a # xs)" using inv a(1,4) fl by (intro fl_free_cons [of "free_list t" "parent_color t"]) (auto simp: bst_inv_def)
  moreover have "tree_rep ?t p q T = tree_rep t p q T" for p q
  proof (rule tree_rep_cong)
    fix x
    assume "x \<in> set (inorder T)"
    then have "x \<noteq> a" using a(3) by blast
    then show "par ?t x = par t x \<and> col ?t x = col t x \<and> bst_left ?t x = bst_left t x \<and> bst_right ?t x = bst_right t x"
      using keep [of x] by (simp add: free)
  qed (simp add: free)
  moreover have val: "node_value ?t = node_value t" by (simp add: fun_eq_iff node_value_def free)
  moreover have "col ?t (nil t) = col t (nil t)" using keep(2) a(2) by metis
  ultimately show "bst_inv kf (unprev ?t) T (a # xs)"
    using inv a by (auto simp: bst_inv_def free cmp_ok_def value_inside_def)
  show "same_values t ?t" using val by (simp add: same_values_def free)
qed

lemma remove1_middle: "distinct (ls @ a # rs) \<Longrightarrow> remove1 a (ls @ a # rs) = ls @ rs"
  by (simp add: remove1_append)

lemma remove_node:
  fixes t :: "('k::linorder, 'v) jfs_bst"
  assumes inv: "bst_inv kf (unprev t) T xs" and a: "a \<in> set (inorder T)" and two: "2 \<le> tsize T" and fuel: "theight T < fuel"
  shows "\<exists>t1 t2 F. bst_delete fuel t a = Some t1 \<and> bst_update_cache_delete fuel t1 a = Some t2 \<and>
    bst_inv kf (unprev (bst_free_node t2 a)) F (a # xs) \<and> inorder F = remove1 a (inorder T) \<and> same_values t (bst_free_node t2 a)"
proof -
  have zipT: "zip_rep t (root t) (nil t) T []" using inv by (simp add: bst_inv_def zip_rep_def)
  from zip_at [OF this a] obtain q l c r C where zip: "zip_rep t a q (Nd l a c r) C" and T: "T = plug (Nd l a c r) C" by auto
  have rb: "rb (plug (Nd l a c r) C)" and nilc: "col t (nil t) = BST_BLACK" and nl: "good (nil t)" using inv T by (auto simp: bst_inv_def)
  have C2: "C \<noteq> [] \<or> l \<noteq> Lf \<or> r \<noteq> Lf" using two T by (cases C) auto
  obtain n where n: "fuel = Suc n" using fuel by (cases fuel) auto
  let ?N = "insert (nil t) (set (inorder l) \<union> set (inorder r) \<union> set (ctx_addrs C))"
  have in_T: "inorder T = lefts C @ inorder l @ a # inorder r @ rights C" using T by (simp add: inorder_plug)
  have aN: "a \<notin> ?N" "good a" "a \<noteq> nil t" using zip by (auto simp: zip_rep_def)
  obtain t1 F where t1: "bst_delete fuel t a = Some t1" "tree_rep t1 (root t1) (nil t1) F" "rb F"
      "inorder F = lefts C @ inorder l @ inorder r @ rights C" "frame_of ?N t t1" "col t1 (nil t1) = BST_BLACK"
    using bst_delete_post [OF zip nilc rb C2 fuel [unfolded T]] by (auto simp: del_post_def)
  have same: "nil t1 = nil t" "value_at t1 = value_at t" "value_offset t1 = value_offset t" "value_size t1 = value_size t" "free_list t1 = free_list t"
    "bst_cmp t1 = bst_cmp t" "cache_smallest t1 = cache_smallest t" "cache_largest t1 = cache_largest t"
    "cache_previous t1 = cache_previous t" "bst_list t1 = bst_list t"
    using t1(5) by (simp_all add: frame_of_def)
  let ?t2 = "t1\<lparr>cache_smallest := hd (inorder F), cache_largest := last (inorder F)\<rparr>"
  have T0: "T \<noteq> Lf" using a by auto
  have upd: "bst_update_cache_delete fuel t1 a = Some ?t2"
    unfolding n using inv T T0 same by (intro cache_delete [OF zip rb C2 _ _ t1(2,4,5) aN(1)]) (auto simp: bst_inv_def)
  have xs: "\<forall>x\<in>set xs. good x \<and> x \<noteq> nil t \<and> x \<notin> set (inorder T)" "fl_inv (free_list t) (parent_color t) xs"
    using inv by (auto simp: bst_inv_def)
  have sets: "set (inorder F) = set (inorder T) - {a}" "distinct (inorder F)" "distinct (inorder T)"
    using t1(4) in_T zip_tree [OF zip] T by auto
  have Nset: "?N = insert (nil t) (set (inorder T) - {a})" using T aN(1) by (auto simp: inorder_plug_set)
  have fl1: "fl_inv (free_list t) (parent_color t1) xs"
    using xs t1(5) Nset by (intro heap_list_frame [OF xs(2)]) (auto simp: frame_of_def)
  have val: "node_value ?t2 = node_value t" by (simp add: fun_eq_iff node_value_def same)
  have "sorted_wrt (<) (map (key_of kf t) (inorder F))"
    using inv in_T t1(4) by (auto simp: bst_inv_def sorted_wrt_append)
  moreover have "F \<noteq> Lf" using C2 t1(4) by (cases C rule: lefts.cases; cases l; cases r) (auto simp flip: inorder_Lf)
  moreover have "tree_rep ?t2 (root ?t2) (nil ?t2) F" using t1(2) by (subst tree_rep_same [of _ t1]) simp_all
  moreover have "col ?t2 (nil ?t2) = BST_BLACK" using t1(6) by (simp add: col_def)
  ultimately have inv2: "bst_inv kf (unprev ?t2) F xs"
    using inv sets t1(3) fl1 nl xs(1) same val by (auto simp: bst_inv_def cmp_ok_def value_inside_def)
  have "a \<notin> set xs" "a \<notin> set (inorder F)" using xs(1) a sets(1) by blast+
  with free_node_inv [OF inv2 aN(2)] aN(3) same(1)
  have "bst_inv kf (unprev (bst_free_node ?t2 a)) F (a # xs)" "same_values ?t2 (bst_free_node ?t2 a)" by auto
  moreover have "same_values t (bst_free_node ?t2 a)" using calculation(2) val same by (simp add: same_values_def)
  moreover have "inorder F = remove1 a (inorder T)"
    using sets(3) t1(4) in_T remove1_middle [of "lefts C @ inorder l" a "inorder r @ rights C"] by simp
  ultimately show ?thesis using t1(1) upd by blast
qed

lemma container_value: "cmp_ok kf t \<Longrightarrow> bst_container_value t a = Some (a + value_offset t)"
  by (simp add: bst_container_value_def jfs_mlg_apply_offset_def cmp_ok_def value_inside_def)

lemma detach_and_delete:
  fixes t :: "('k::linorder, 'v) jfs_bst"
  assumes inv: "bst_inv kf (unprev t) T xs" and a: "a \<in> set (inorder T)" and two: "2 \<le> tsize T" and fuel: "theight T < fuel"
    and detach: "detach (a + value_offset t) t = (a + value_offset t, t)"
  shows "\<exists>t' F. bst_detach_and_delete fuel detach t a = Some (node_value t a, t') \<and> bst_inv kf (unprev t') F (a # xs) \<and>
    inorder F = remove1 a (inorder T) \<and> same_values t t'"
proof -
  obtain t1 t2 F where r: "bst_delete fuel t a = Some t1" "bst_update_cache_delete fuel t1 a = Some t2"
      "bst_inv kf (unprev (bst_free_node t2 a)) F (a # xs)" "inorder F = remove1 a (inorder T)" "same_values t (bst_free_node t2 a)"
    using remove_node [OF inv a two fuel] by blast
  have "root t \<noteq> nil t" using inv a by (cases T) (auto simp: bst_inv_def)
  moreover have "bst_container_value t a = Some (a + value_offset t)"
    using container_value [of kf t] inv by (simp add: bst_inv_def)
  moreover have "value_inside t" using inv by (simp add: bst_inv_def cmp_ok_def)
  ultimately show ?thesis using r detach by (auto simp: bst_detach_and_delete_def node_value_def)
qed

lemma entries_remove:
  assumes inv: "bst_inv kf (unprev t) T xs" and a: "a \<in> set (inorder T)" and F: "inorder F = remove1 a (inorder T)" "same_values t t'"
  shows "entries t' F = filter (\<lambda>v. kf v \<noteq> key_of kf t a) (entries t T)"
proof -
  obtain ls rs where T: "inorder T = ls @ a # rs" using a by (meson split_list)
  have s: "sorted_wrt (<) (map (key_of kf t) (ls @ a # rs))" "distinct (ls @ a # rs)" using inv T by (auto simp: bst_inv_def)
  then have "\<forall>x\<in>set ls \<union> set rs. key_of kf t x \<noteq> key_of kf t a" by (auto simp: sorted_wrt_append)
  then have "filter (\<lambda>v. kf v \<noteq> key_of kf t a) (map (node_value t) (ls @ a # rs)) = map (node_value t) (ls @ rs)"
    by (auto simp: filter_id_conv)
  then show ?thesis using F T remove1_middle [OF s(2)] by (simp add: same_values_def)
qed

section \<open>The operations that take values\<close>

lemma takes_uncached:
  fixes t :: "('k::linorder, 'v) jfs_bst"
  assumes inv: "bst_inv kf t T xs" and a: "a \<in> set (inorder T)" and fuel: "theight T < fuel"
    and uncached: "a \<notin> {cache_previous t, cache_smallest t, cache_largest t}"
    and detach: "detach (a + value_offset t) t = (a + value_offset t, t)"
  shows "\<exists>t' T'. jfs_bst_takes fuel detach t (key_of kf t a) JFS_OK = Some (Some (node_value t a), t', JFS_OK) \<and>
    bst_inv kf t' T' (a # xs) \<and> entries t' T' = filter (\<lambda>v. kf v \<noteq> key_of kf t a) (entries t T)"
proof -
  have inv': "bst_inv kf (unprev t) T xs" using inv inv_unprev by blast
  have T0: "T \<noteq> Lf" using a by auto
  have cmp: "cmp_ok kf t" and inj: "inj_on (key_of kf t) (set (inorder T))" and dist: "distinct (inorder T)"
    using inv strict_sorted_iff [of "map (key_of kf t) (inorder T)"] by (auto simp: bst_inv_def distinct_map)
  have mem: "cache_previous t = nil t \<or> cache_previous t \<in> set (inorder T)" "cache_smallest t \<in> set (inorder T)"
    "cache_largest t \<in> set (inorder T)" using inv T0 by (auto simp: bst_inv_def)
  then have key: "key_of kf t b \<noteq> key_of kf t a" if "b \<in> {cache_previous t, cache_smallest t, cache_largest t}" "b \<noteq> nil t" for b
    using that uncached inj a by (auto dest: inj_onD)
  have "bst_check_cache t (key_of kf t a) = Some (nil t)"
    using key unfolding check_cache_eq [OF cmp] by auto
  moreover obtain loc where "bst_find fuel t (key_of kf t a) = Some loc" "loc_node loc \<in> set (inorder T)"
      "key_of kf t (loc_node loc) = key_of kf t a"
    using find_spec [OF inv fuel, of "key_of kf t a"] a unfolding find_post_def by (auto split: if_splits)
  moreover have "loc_node loc = a" using calculation inj a by (auto dest: inj_onD)
  moreover have "{a, cache_smallest t} \<subseteq> set (inorder T)" "a \<noteq> cache_smallest t" using a mem uncached by auto
  then have "card {a, cache_smallest t} \<le> card (set (inorder T))" by (intro card_mono) auto
  then have "2 \<le> tsize T" using \<open>a \<noteq> cache_smallest t\<close> distinct_card [OF dist] by (simp add: length_inorder)
  then obtain t' F where r: "bst_detach_and_delete fuel detach t a = Some (node_value t a, t')" "bst_inv kf (unprev t') F (a # xs)"
      "inorder F = remove1 a (inorder T)" "same_values t t'" using detach_and_delete [where detach = detach, OF inv' a _ fuel detach] by blast
  have "cache_previous t' = nil t' \<or> cache_previous t' \<in> set (inorder F)"
    using mem(1) uncached r(3,4) dist by (auto simp: same_values_def)
  with r(2) have "bst_inv kf t' F (a # xs)" using inv_unprev by blast
  moreover have "root t \<noteq> nil t" "a \<noteq> nil t" using inv_root [OF inv] T0 inv_nonnil [OF inv a] by auto
  ultimately show ?thesis using r(1) entries_remove [OF inv' a r(3,4)] by (auto simp: jfs_bst_takes_def)
qed

lemma inv_ends:
  assumes "bst_inv kf t T xs" and "T \<noteq> Lf"
  shows "cache_smallest t = hd (inorder T)" and "cache_largest t = last (inorder T)" and "distinct (inorder T)"
  using assms by (simp_all add: bst_inv_def)

lemma tsize_two: "2 \<le> tsize T \<longleftrightarrow> tl (inorder T) \<noteq> []"
  using length_inorder [of T] by (cases "inorder T"; cases "tl (inorder T)") auto

lemma get_smallest:
  fixes t :: "('k::linorder, 'v) jfs_bst"
  assumes inv: "bst_inv kf (unprev t) T xs" and T: "entries t T = v # vs" "vs \<noteq> []" and fuel: "theight T < fuel"
    and detach: "\<And>a. a \<in> set (inorder T) \<Longrightarrow> detach (a + value_offset t) t = (a + value_offset t, t)"
  shows "\<exists>t' T'. jfs_bst_get_smallest fuel detach t JFS_OK = Some (Some v, t', JFS_OK) \<and>
    bst_inv kf (unprev t') T' (cache_smallest t # xs) \<and> entries t' T' = vs \<and> same_values t t' \<and> tsize T = Suc (tsize T') \<and>
    inorder T = cache_smallest t # inorder T'"
proof -
  have T0: "T \<noteq> Lf" using T(1) by auto
  obtain as where as: "inorder T = cache_smallest t # as" "v = node_value t (cache_smallest t)" "vs = map (node_value t) as"
    using T inv_ends(1) [OF inv T0] by (cases "inorder T") auto
  let ?a = "cache_smallest t"
  have a: "?a \<in> set (inorder T)" "2 \<le> tsize T" using as T(2) by (auto simp: tsize_two)
  then obtain t' F where r: "bst_detach_and_delete fuel detach t ?a = Some (node_value t ?a, t')" "bst_inv kf (unprev t') F (?a # xs)"
      "inorder F = remove1 ?a (inorder T)" "same_values t t'"
    using detach_and_delete [where detach = detach, OF inv a fuel detach] by blast
  have "?a \<noteq> nil t" using inv_nonnil [OF inv a(1)] by simp
  moreover have "inorder F = as" using as r(3) by simp
  ultimately show ?thesis using r as length_inorder [of T] length_inorder [of F]
    by (intro exI [of _ t'] exI [of _ F]) (simp add: jfs_bst_get_smallest_def same_values_def)
qed

lemma get_largest:
  fixes t :: "('k::linorder, 'v) jfs_bst"
  assumes inv: "bst_inv kf (unprev t) T xs" and T: "entries t T = vs @ [v]" "vs \<noteq> []" and fuel: "theight T < fuel"
    and detach: "\<And>a. a \<in> set (inorder T) \<Longrightarrow> detach (a + value_offset t) t = (a + value_offset t, t)"
  shows "\<exists>t' T'. jfs_bst_get_largest fuel detach t JFS_OK = Some (Some v, t', JFS_OK) \<and>
    bst_inv kf (unprev t') T' (cache_largest t # xs) \<and> entries t' T' = vs \<and> same_values t t' \<and> tsize T = Suc (tsize T') \<and>
    inorder T = inorder T' @ [cache_largest t]"
proof -
  have T0: "T \<noteq> Lf" using T(1) by auto
  obtain as where as: "inorder T = as @ [cache_largest t]" "v = node_value t (cache_largest t)" "vs = map (node_value t) as"
    using T inv_ends(2) [OF inv T0] by (cases "inorder T" rule: rev_cases) auto
  let ?a = "cache_largest t"
  have a: "?a \<in> set (inorder T)" "2 \<le> tsize T" "?a \<notin> set as" using as T(2) inv_ends(3) [OF inv T0] by (cases as; auto simp: tsize_two)+
  then obtain t' F where r: "bst_detach_and_delete fuel detach t ?a = Some (node_value t ?a, t')" "bst_inv kf (unprev t') F (?a # xs)"
      "inorder F = remove1 ?a (inorder T)" "same_values t t'"
    using detach_and_delete [where detach = detach, OF inv a(1,2) fuel detach] by blast
  have "?a \<noteq> nil t" using inv_nonnil [OF inv a(1)] by simp
  moreover have "inorder F = as" using as r(3) a(3) by (simp add: remove1_append)
  ultimately show ?thesis using r as length_inorder [of T] length_inorder [of F]
    by (intro exI [of _ t'] exI [of _ F]) (simp add: jfs_bst_get_largest_def same_values_def)
qed

text \<open>
  The contract of a queue whose \<open>pop\<close> returns the first of its values: it is met by the smallest entries of the tree
  in order and by the largest ones in reverse order, as long as an entry remains.
\<close>

fun pop_many :: "('s \<Rightarrow> ('v \<times> 's) option) \<Rightarrow> nat \<Rightarrow> 's \<Rightarrow> ('v list \<times> 's) option" where
  "pop_many pop 0 s = Some ([], s)"
| "pop_many pop (Suc n) s = do { (v, s) \<leftarrow> pop s; (vs, s) \<leftarrow> pop_many pop n s; Some (v # vs, s) }"

locale end_queue =
  fixes rep :: "'s \<Rightarrow> 'v list \<Rightarrow> bool"
    and pop :: "'s \<Rightarrow> ('v \<times> 's) option"
  assumes pop_first: "rep s (v # vs) \<Longrightarrow> vs \<noteq> [] \<Longrightarrow> \<exists>s'. pop s = Some (v, s') \<and> rep s' vs"
begin

lemma pop_many_take: "rep s vs \<Longrightarrow> n < length vs \<Longrightarrow> \<exists>s'. pop_many pop n s = Some (take n vs, s') \<and> rep s' (drop n vs)"
proof (induction n arbitrary: s vs)
  case (Suc n)
  then obtain v us where vs: "vs = v # us" "us \<noteq> []" by (cases vs; cases "tl vs") auto
  then obtain s1 where s1: "pop s = Some (v, s1)" "rep s1 us" using pop_first Suc.prems(1) by blast
  with Suc.IH [OF s1(2)] Suc.prems(2) vs show ?case by auto
qed simp

end

definition bst_pop_smallest :: "nat \<Rightarrow> ('k, 'v) bst_detach_fn \<Rightarrow> ('k, 'v) jfs_bst \<Rightarrow> ('v \<times> ('k, 'v) jfs_bst) option" where
  "bst_pop_smallest fuel detach t =
     (case jfs_bst_get_smallest fuel detach t JFS_OK of Some (Some v, t, JFS_OK) \<Rightarrow> Some (v, t) | _ \<Rightarrow> None)"

definition bst_pop_largest :: "nat \<Rightarrow> ('k, 'v) bst_detach_fn \<Rightarrow> ('k, 'v) jfs_bst \<Rightarrow> ('v \<times> ('k, 'v) jfs_bst) option" where
  "bst_pop_largest fuel detach t =
     (case jfs_bst_get_largest fuel detach t JFS_OK of Some (Some v, t, JFS_OK) \<Rightarrow> Some (v, t) | _ \<Rightarrow> None)"

text \<open>A \<open>detach\<close> that finds nothing attached returns the value it was given.\<close>

definition no_attached :: "('k, 'v) bst_detach_fn" where
  "no_attached value t = (value, t)"

definition bst_entries :: "('v \<Rightarrow> 'k::linorder) \<Rightarrow> nat \<Rightarrow> ('k, 'v) jfs_bst \<Rightarrow> 'v list \<Rightarrow> bool" where
  "bst_entries kf fuel t vs \<longleftrightarrow> (\<exists>T xs k. bst_inv kf (unprev t) T xs \<and> vs = entries t T \<and> tsize T + 1 \<le> 2 ^ k \<and> 2 * k < fuel)"

lemma bst_entriesE:
  assumes "bst_entries kf fuel t vs"
  obtains T xs k where "bst_inv kf (unprev t) T xs" "entries t T = vs" "tsize T + 1 \<le> 2 ^ k" "2 * k < fuel" "theight T < fuel"
proof -
  from assms obtain T xs k where T: "bst_inv kf (unprev t) T xs" "vs = entries t T" "tsize T + 1 \<le> 2 ^ k" "2 * k < fuel"
    by (auto simp: bst_entries_def)
  then show thesis using rb_height [of T k] by (intro that [of T xs k]) (auto simp: bst_inv_def)
qed

interpretation bst_up: end_queue "bst_entries kf fuel" "bst_pop_smallest fuel no_attached"
  for kf :: "'v \<Rightarrow> 'k::linorder" and fuel
proof
  fix t :: "('k, 'v) jfs_bst" and v vs
  assume "bst_entries kf fuel t (v # vs)" and "vs \<noteq> []"
  then obtain T xs k where T: "bst_inv kf (unprev t) T xs" "entries t T = v # vs" "tsize T + 1 \<le> 2 ^ k" "2 * k < fuel" "theight T < fuel"
    by (elim bst_entriesE)
  from get_smallest [OF T(1,2) \<open>vs \<noteq> []\<close> T(5), of no_attached] obtain t' T' where
    "jfs_bst_get_smallest fuel no_attached t JFS_OK = Some (Some v, t', JFS_OK)" "bst_inv kf (unprev t') T' (cache_smallest t # xs)"
    "entries t' T' = vs" "tsize T = Suc (tsize T')" by (auto simp: no_attached_def)
  with T(3,4) show "\<exists>s'. bst_pop_smallest fuel no_attached t = Some (v, s') \<and> bst_entries kf fuel s' vs"
    by (intro exI [of _ t']) (auto simp: bst_pop_smallest_def bst_entries_def intro!: exI [of _ T'] exI [of _ k])
qed

interpretation bst_down: end_queue "\<lambda>t vs. bst_entries kf fuel t (rev vs)" "bst_pop_largest fuel no_attached"
  for kf :: "'v \<Rightarrow> 'k::linorder" and fuel
proof
  fix t :: "('k, 'v) jfs_bst" and v vs
  assume "bst_entries kf fuel t (rev (v # vs))" and "vs \<noteq> []"
  then obtain T xs k where T: "bst_inv kf (unprev t) T xs" "entries t T = rev vs @ [v]" "tsize T + 1 \<le> 2 ^ k" "2 * k < fuel" "theight T < fuel"
    by (auto elim: bst_entriesE)
  from get_largest [OF T(1,2) _ T(5), of no_attached] \<open>vs \<noteq> []\<close> obtain t' T' where
    "jfs_bst_get_largest fuel no_attached t JFS_OK = Some (Some v, t', JFS_OK)" "bst_inv kf (unprev t') T' (cache_largest t # xs)"
    "entries t' T' = rev vs" "tsize T = Suc (tsize T')" by (auto simp: no_attached_def)
  with T(3,4) show "\<exists>s'. bst_pop_largest fuel no_attached t = Some (v, s') \<and> bst_entries kf fuel s' (rev vs)"
    by (intro exI [of _ t']) (auto simp: bst_pop_largest_def bst_entries_def intro!: exI [of _ T'] exI [of _ k])
qed

end
