(* ===== verification/Jfs_Bst_Theorems.thy ===== *)
theory Jfs_Bst_Theorems
  imports Jfs_Bst_Take
begin

text \<open>
  What the binary search tree promises its clients, over the invariant of \<open>Jfs_Bst_Insert\<close>:
  initialising and inserting sorts, searching is logarithmic, and the outcomes of taking values,
  among them some in which the code does not do what its callers expect.
\<close>

section \<open>Concrete instances\<close>

definition demo_component :: jfs_mlg_component where
  "demo_component = \<lparr>comp_ptr = 4096, comp_desc = \<lparr>desc_size = 48, desc_align = 16, desc_count = 3\<rparr>\<rparr>"

definition demo_cmp :: "int \<Rightarrow> int \<Rightarrow> int" where
  "demo_cmp k v = (if k < v then -1 else if k = v then 0 else 1)"

definition diff_cmp :: "int \<Rightarrow> int \<Rightarrow> int" where
  "diff_cmp k v = k - v"

definition demo_bst :: "(int, int) jfs_bst" where
  "demo_bst = \<lparr>parent_color = \<lambda>_. 0, bst_right = \<lambda>_. 0, bst_left = \<lambda>_. 0, bst_list = \<lambda>_. 0, value_at = \<lambda>_. 0,
     root = 0, nil = 0, cache_smallest = 0, cache_largest = 0, cache_previous = 0, bst_cmp = None,
     value_offset = 0, value_size = 0, free_list = \<lparr>fl_list = 0, fl_count = 0\<rparr>\<rparr>"

lemma demo_objs: "component_objs demo_component = [4096, 4144, 4192]"
  by code_simp

lemma demo_component_ok:
  "jfs_mlg_valid_component demo_component" "comp_fits demo_component"
  "\<forall>a\<in>set (component_objs demo_component). good a" "node_room demo_component" "good 64" "nil_apart demo_component 64"
proof -
  show "jfs_mlg_valid_component demo_component" "comp_fits demo_component"
    by (simp_all add: demo_component_def comp_fits_def desc_bytes_def jfs_mlg_valid_component_def
        jfs_mlg_valid_desc_def jfs_mlg_valid_align_def)
  show "\<forall>a\<in>set (component_objs demo_component). good a" "good 64"
    unfolding demo_objs good_def by code_simp+
  show "node_room demo_component" by (simp add: node_room_def demo_component_def round_up_def)
  show "nil_apart demo_component 64" by (simp add: nil_apart_def demo_component_def desc_bytes_def)
qed

lemma demo_cmp_ok: "\<forall>k v. demo_cmp k v = (if k < id v then -1 else if k = id v then 0 else 1)"
  by (simp add: demo_cmp_def)

section \<open>Insertion and search\<close>

text \<open>C2. A tree initialised on a component whose objects have room for a node and a value
  (\<open>node_room\<close>), with the nil node outside the component (\<open>nil_apart\<close>), and given values of distinct keys, no
  more than the component has objects, accepts all of them and holds them in the order of
  their keys: its in-order traversal is the sorted list. The pointers represent a red-black
  tree throughout, the remaining objects of the component are free, and no loop runs longer
  than twice the logarithm of the capacity.\<close>

theorem bst_init_puts_sorts:
  fixes t :: "('k::linorder, 'v) jfs_bst"
  assumes "jfs_mlg_valid_component c" and "comp_fits c" and "\<forall>a\<in>set (component_objs c). good a"
    and "node_room c" and "good z" and "nil_apart c z"
    and "\<forall>k v. cmp k v = (if k < kf v then -1 else if k = kf v then 0 else 1)"
    and us: "distinct (map kf us)" "length us \<le> length (component_objs c)"
    and fuel: "length (component_objs c) + 1 \<le> 2 ^ k" "2 * k < fuel"
  shows "\<exists>t0 t' T xs. jfs_bst_init z t \<lparr>conf_component = c, conf_cmp = Some cmp\<rparr> JFS_OK = Some (t0, JFS_OK) \<and>
    put_all (bst_put1 fuel attach kf) us t0 = Some t' \<and> bst_inv kf t' T xs \<and>
    entries t' T = sort_key kf us \<and> length xs = length (component_objs c) - length us"
proof -
  obtain t0 where t0: "jfs_bst_init z t \<lparr>conf_component = c, conf_cmp = Some cmp\<rparr> JFS_OK = Some (t0, JFS_OK)"
    "bst_inv kf t0 Lf (rev (component_objs c))" using bst_init_inv [OF assms(1-7)] by blast
  let ?n = "length (component_objs c) - length us"
  have "bst_store kf fuel t0 [] (?n + length us)"
    using t0(2) us fuel by (auto simp: bst_store_def intro!: exI [of _ Lf] exI [of _ "rev (component_objs c)"] exI [of _ k])
  from bst_os.put_all_sort_key [OF this us(1), of attach] obtain t' T xs
    where "put_all (bst_put1 fuel attach kf) us t0 = Some t'" "bst_inv kf t' T xs"
      "sort_key kf us = entries t' T" "length xs = ?n" unfolding bst_store_def by blast
  with t0(1) show ?thesis by metis
qed

theorem bst_init_puts_sorts_witness:
  "\<exists>t0 t' T. jfs_bst_init 64 demo_bst \<lparr>conf_component = demo_component, conf_cmp = Some demo_cmp\<rparr> JFS_OK = Some (t0, JFS_OK) \<and>
    put_all (bst_put1 5 (\<lambda>a b t. t) id) [30, 10, 20] t0 = Some t' \<and> bst_inv id t' T [] \<and> entries t' T = [10, 20, 30]"
proof -
  have "sort_key id [30, 10, 20 :: int] = [10, 20, 30]" by simp
  with bst_init_puts_sorts [where kf = id, OF demo_component_ok demo_cmp_ok, of "[30, 10, 20]" 2 5 demo_bst "\<lambda>a b t. t"]
  show ?thesis unfolding demo_objs by simp
qed

text \<open>C10. \<open>jfs_bst_puts\<close> of a value with a new key succeeds when a node
  is free, takes one node from the free list, keeps the invariant (order, colours, black
  heights, parent pointers, cache) and puts the value in its place among the entries.\<close>

theorem bst_puts_new_key:
  fixes t :: "('k::linorder, 'v) jfs_bst"
  assumes inv: "bst_inv kf t T (node # ys)" and new: "kf v \<notin> kf ` set (entries t T)"
    and fuel: "tsize T + 1 \<le> 2 ^ k" "2 * k < fuel"
  shows "\<exists>t' T'. jfs_bst_puts fuel attach t v (kf v) JFS_OK = Some (t', JFS_OK) \<and> bst_inv kf t' T' ys \<and>
    entries t' T' = filter (\<lambda>x. kf x < kf v) (entries t T) @ [v] @ filter (\<lambda>x. kf v < kf x) (entries t T)"
proof -
  have "theight T < fuel" using rb_height [of T k] inv fuel by (simp add: bst_inv_def)
  from puts_new [OF inv new this, of attach] show ?thesis unfolding put_in_def by auto
qed

lemma demo_empty: "\<exists>t :: (int, int) jfs_bst. bst_inv id t Lf [4192, 4144, 4096]"
  using bst_init_inv [where kf = id, OF demo_component_ok demo_cmp_ok, of demo_bst] by (auto simp: demo_objs)

theorem bst_puts_new_key_witness:
  "\<exists>t (t' :: (int, int) jfs_bst) T'. jfs_bst_puts 1 (\<lambda>a b t. t) t (7 :: int) (7 :: int) JFS_OK = Some (t', JFS_OK) \<and>
     bst_inv id t' T' [4144, 4096] \<and> entries t' T' = [7]"
proof -
  obtain t :: "(int, int) jfs_bst" where "bst_inv id t Lf [4192, 4144, 4096]" using demo_empty by blast
  from bst_puts_new_key [OF this, of 7 0 1 "\<lambda>a b t. t"] obtain t' :: "(int, int) jfs_bst" and T'
    where "jfs_bst_puts 1 (\<lambda>a b t. t) t 7 7 JFS_OK = Some (t', JFS_OK)" "bst_inv id t' T' [4144, 4096]"
      "entries t' T' = [7]" by (simp, metis)
  then show ?thesis by metis
qed

lemma demo_single: "\<exists>(t :: (int, int) jfs_bst) T. bst_inv id t T [4144, 4096] \<and> entries t T = [7] \<and> tsize T = 1"
proof -
  obtain t :: "(int, int) jfs_bst" where "bst_inv id t Lf [4192, 4144, 4096]" using demo_empty by blast
  from puts_new [OF this, of 7 1 "\<lambda>a b t. t"] obtain t' :: "(int, int) jfs_bst" and T'
    where "bst_inv id t' T' [4144, 4096]" "entries t' T' = [7]" "tsize T' = 1" unfolding put_in_def by (simp, metis)
  then show ?thesis by metis
qed

text \<open>C12. \<open>bst_find\<close> returns after at most \<open>2 * k\<close> steps in
  a tree of fewer than \<open>2 ^ k\<close> nodes, finds a node with the key when there is
  one, and the nil node exactly when there is none.\<close>

theorem bst_find_logarithmic:
  fixes t :: "('k::linorder, 'v) jfs_bst"
  assumes inv: "bst_inv kf t T xs" and fuel: "tsize T + 1 \<le> 2 ^ k" "2 * k < fuel"
  shows "\<exists>loc. bst_find fuel t key = Some loc \<and>
    (loc_node loc = nil t \<longleftrightarrow> key \<notin> kf ` set (entries t T)) \<and>
    (loc_node loc \<noteq> nil t \<longrightarrow> loc_node loc \<in> set (inorder T) \<and> key_of kf t (loc_node loc) = key)"
proof -
  have "theight T < fuel" using rb_height [of T k] inv fuel by (simp add: bst_inv_def)
  from find_spec [OF inv this, of key] obtain loc where loc: "bst_find fuel t key = Some loc"
     "if \<exists>a\<in>set (inorder T). key_of kf t a = key
      then loc_node loc \<in> set (inorder T) \<and> key_of kf t (loc_node loc) = key else loc_node loc = nil t"
    unfolding find_post_def by metis
  have "nil t \<notin> set (inorder T)" using inv tree_rep_nonnil unfolding bst_inv_def by blast
  with loc show ?thesis by (auto split: if_splits)
qed

theorem bst_find_logarithmic_witness:
  "\<exists>(t :: (int, int) jfs_bst) loc T. bst_inv id t T [4144, 4096] \<and> bst_find 3 t 7 = Some loc \<and> loc_node loc \<noteq> nil t"
proof -
  obtain t :: "(int, int) jfs_bst" and T where t: "bst_inv id t T [4144, 4096]" "entries t T = [7]" "tsize T = 1"
    using demo_single by metis
  from bst_find_logarithmic [OF t(1), of 1 3 7] t(2,3) obtain loc
    where "bst_find 3 t 7 = Some loc" "loc_node loc \<noteq> nil t" by force
  with t(1) show ?thesis by blast
qed


section \<open>Taking values\<close>

text \<open>\<open>jfs_bst_takes\<close> of a key that is not in the tree changes
  nothing and reports \<open>JFS_ERR_EMPTY\<close> for the empty tree and
  \<open>JFS_ERR_BST_BAD_KEY\<close> otherwise.\<close>

theorem bst_takes_errors:
  fixes t :: "('k::linorder, 'v) jfs_bst"
  assumes inv: "bst_inv kf t T xs" and new: "key \<notin> kf ` set (entries t T)"
    and fuel: "tsize T + 1 \<le> 2 ^ k" "2 * k < fuel"
  shows "jfs_bst_takes fuel detach t key JFS_OK =
    Some (None, t, if entries t T = [] then JFS_ERR_EMPTY else JFS_ERR_BST_BAD_KEY)"
proof -
  have "theight T < fuel" using rb_height [of T k] inv fuel by (simp add: bst_inv_def)
  moreover have miss: "\<not> (\<exists>a\<in>set (inorder T). key_of kf t a = key)" using new by auto
  ultimately obtain loc where loc: "bst_find fuel t key = Some loc" "loc_node loc = nil t"
    using find_spec [OF inv, of fuel key] unfolding find_post_def if_not_P [OF miss] by blast
  have "bst_check_cache t key = Some (nil t)" using check_cache_miss [OF inv, of key] miss by blast
  with loc inv_root [OF inv] show ?thesis by (auto simp: jfs_bst_takes_def)
qed

theorem bst_takes_errors_witness:
  "\<exists>t :: (int, int) jfs_bst. jfs_bst_takes 3 (\<lambda>a t. (a, t)) t 8 JFS_OK = Some (None, t, JFS_ERR_BST_BAD_KEY)"
proof -
  obtain t :: "(int, int) jfs_bst" and T where t: "bst_inv id t T [4144, 4096]" "entries t T = [7]" "tsize T = 1"
    using demo_single by metis
  show ?thesis using bst_takes_errors [OF t(1), of 8 1 3 "\<lambda>a t. (a, t)"] t(2,3) by auto
qed

text \<open>\<open>jfs_bst_takes\<close> of the smallest or the largest key answers
  from the cache: it copies the value out and leaves the tree as it was, so the entry that
  was taken is still there.\<close>

theorem bst_takes_cached_keeps:
  fixes t :: "('k::linorder, 'v) jfs_bst"
  assumes inv: "bst_inv kf t T xs" and a: "T \<noteq> Lf" "a \<in> {cache_smallest t, cache_largest t}"
  shows "\<exists>v\<in>set (entries t T). kf v = key_of kf t a \<and>
    jfs_bst_takes fuel detach t (key_of kf t a) JFS_OK = Some (Some v, t, JFS_OK)"
proof -
  have cmp: "cmp_ok kf t" using inv by (simp add: bst_inv_def)
  have mem: "a \<in> set (inorder T)" "cache_previous t = nil t \<or> cache_previous t \<in> set (inorder T)"
    "cache_largest t \<in> set (inorder T)" "cache_smallest t \<in> set (inorder T)"
    using inv a by (auto simp: bst_inv_def)
  obtain b where b: "bst_check_cache t (key_of kf t a) = Some b" "b \<in> set (inorder T)" "key_of kf t b = key_of kf t a"
    using a mem inv_nonnil [OF inv] unfolding check_cache_eq [OF cmp] by (smt (verit) insert_iff empty_iff)
  have "bst_unpack_node t b = Some (node_value t b)"
    using cmp by (simp add: bst_unpack_node_def bst_container_value_def jfs_mlg_apply_offset_def node_value_def cmp_ok_def value_inside_def)
  with b inv_nonnil [OF inv b(2)] inv_root [OF inv] a(1)
  show ?thesis by (intro bexI [of _ "node_value t b"]) (simp_all add: jfs_bst_takes_def)
qed

theorem bst_takes_cached_keeps_witness:
  "\<exists>t :: (int, int) jfs_bst. jfs_bst_takes 3 (\<lambda>a t. (a, t)) t 7 JFS_OK = Some (Some 7, t, JFS_OK)"
proof -
  obtain t :: "(int, int) jfs_bst" and T where t: "bst_inv id t T [4144, 4096]" "entries t T = [7]" "tsize T = 1"
    using demo_single by metis
  then have "T \<noteq> Lf" by auto
  from bst_takes_cached_keeps [OF t(1) this, of "cache_smallest t" 3 "\<lambda>a t. (a, t)"] t(2) show ?thesis by auto
qed

text \<open>C11. \<open>jfs_bst_takes\<close> of a key that is in the tree and not cached returns its value and removes
  exactly that entry: the pointers still represent a red-black search tree, the cache of the ends is right, and the node
  is back on the free list. The loops of the search, of the successor and of the deletion fix-up together stay within twice
  the logarithm of the size. \<open>detach\<close> has nothing attached to the node.\<close>

theorem bst_takes_removes:
  fixes t :: "('k::linorder, 'v) jfs_bst"
  assumes inv: "bst_inv kf t T xs" and a: "a \<in> set (inorder T)" "a \<notin> {cache_previous t, cache_smallest t, cache_largest t}"
    and detach: "detach (a + value_offset t) t = (a + value_offset t, t)" and fuel: "tsize T + 1 \<le> 2 ^ k" "2 * k < fuel"
  shows "\<exists>t' T'. jfs_bst_takes fuel detach t (key_of kf t a) JFS_OK = Some (Some (node_value t a), t', JFS_OK) \<and>
    bst_inv kf t' T' (a # xs) \<and> entries t' T' = filter (\<lambda>v. kf v \<noteq> key_of kf t a) (entries t T)"
proof -
  have "theight T < fuel" using rb_height [of T k] inv fuel by (simp add: bst_inv_def)
  then show ?thesis by (rule takes_uncached [where detach = detach, OF inv a(1) _ a(2) detach])
qed

lemma bst_store_entries: "bst_store kf fuel t vs n \<Longrightarrow> bst_entries kf fuel t vs"
proof -
  assume "bst_store kf fuel t vs n"
  then obtain T xs k where "bst_inv kf t T xs" "vs = entries t T" "tsize T + n + 1 \<le> 2 ^ k" "2 * k < fuel"
    by (auto simp: bst_store_def)
  then show ?thesis using inv_unprev unfolding bst_entries_def by (intro exI [of _ T] exI [of _ xs] exI [of _ k]) auto
qed

text \<open>C3. A tree initialised on a component whose objects have room for a node and a value, with the nil node
  outside the component, and filled with values of distinct keys gives them back in order: \<open>n\<close> calls of
  \<open>jfs_bst_get_smallest\<close>, fewer than there are values, return the \<open>n\<close> smallest ones in ascending order, and
  \<open>n\<close> calls of \<open>jfs_bst_get_largest\<close> the \<open>n\<close> largest ones in descending order. Every call returns, and no assertion
  fails.\<close>

theorem bst_drains_in_order:
  fixes t :: "('k::linorder, 'v) jfs_bst"
  assumes "jfs_mlg_valid_component c" and "comp_fits c" and "\<forall>a\<in>set (component_objs c). good a"
    and "node_room c" and "good z" and "nil_apart c z"
    and "\<forall>k v. cmp k v = (if k < kf v then -1 else if k = kf v then 0 else 1)"
    and us: "distinct (map kf us)" "length us \<le> length (component_objs c)" "n < length us"
    and fuel: "length (component_objs c) + 1 \<le> 2 ^ k" "2 * k < fuel"
  shows "\<exists>t0 t' t1 t2. jfs_bst_init z t \<lparr>conf_component = c, conf_cmp = Some cmp\<rparr> JFS_OK = Some (t0, JFS_OK) \<and>
    put_all (bst_put1 fuel attach kf) us t0 = Some t' \<and>
    pop_many (bst_pop_smallest fuel no_attached) n t' = Some (take n (sort_key kf us), t1) \<and>
    pop_many (bst_pop_largest fuel no_attached) n t' = Some (take n (rev (sort_key kf us)), t2)"
proof -
  obtain t0 where t0: "jfs_bst_init z t \<lparr>conf_component = c, conf_cmp = Some cmp\<rparr> JFS_OK = Some (t0, JFS_OK)"
    "bst_inv kf t0 Lf (rev (component_objs c))" using bst_init_inv [OF assms(1-7)] by blast
  let ?n = "length (component_objs c) - length us"
  have "bst_store kf fuel t0 [] (?n + length us)"
    using t0(2) us fuel by (auto simp: bst_store_def intro!: exI [of _ Lf] exI [of _ "rev (component_objs c)"] exI [of _ k])
  from bst_os.put_all_sort_key [OF this us(1), of attach] obtain t'
    where t': "put_all (bst_put1 fuel attach kf) us t0 = Some t'" "bst_store kf fuel t' (sort_key kf us) ?n" by blast
  have e: "bst_entries kf fuel t' (sort_key kf us)"
    by (rule bst_store_entries [OF t'(2)])
  have "n < length (sort_key kf us)" using us(3) by simp
  with bst_up.pop_many_take [OF e] bst_down.pop_many_take [of kf fuel t' "rev (sort_key kf us)" n] e t0(1) t'(1)
  show ?thesis by auto
qed

theorem bst_drains_in_order_witness:
  "\<exists>t0 t' t1 t2. jfs_bst_init 64 demo_bst \<lparr>conf_component = demo_component, conf_cmp = Some demo_cmp\<rparr> JFS_OK = Some (t0, JFS_OK) \<and>
    put_all (bst_put1 5 (\<lambda>a b t. t) id) [30, 10, 20] t0 = Some t' \<and>
    pop_many (bst_pop_smallest 5 no_attached) 2 t' = Some ([10, 20], t1) \<and>
    pop_many (bst_pop_largest 5 no_attached) 2 t' = Some ([30, 20], t2)"
proof -
  have "sort_key id [30, 10, 20 :: int] = [10, 20, 30]" by simp
  with bst_drains_in_order [where kf = id, OF demo_component_ok demo_cmp_ok, of "[30, 10, 20]" 2 2 5 demo_bst "\<lambda>a b t. t"]
  show ?thesis unfolding demo_objs by simp
qed

lemma demo_three:
  "\<exists>(t :: (int, int) jfs_bst) a b c T. bst_inv id t T [] \<and> inorder T = [a, b, c] \<and> entries t T = [10, 20, 30] \<and> cache_previous t = nil t \<and>
     tsize T = 3"
proof -
  have s: "sort_key id [30, 10, 20 :: int] = [10, 20, 30]" by simp
  obtain t0 :: "(int, int) jfs_bst" where "bst_inv id t0 Lf [4192, 4144, 4096]" using demo_empty by blast
  then have "bst_store id 5 t0 [] (0 + length [30, 10, 20 :: int])"
    unfolding bst_store_def by (intro exI [of _ Lf] exI [of _ "[4192, 4144, 4096]"] conjI exI [of _ 2]) simp_all
  from bst_os.put_all_sort_key [OF this, of "\<lambda>a b t. t"] obtain t where "bst_store id 5 t [10, 20, 30 :: int] 0" unfolding s by auto
  then obtain T where T: "bst_inv id t T []" "entries t T = [10, 20, 30]" by (auto simp: bst_store_def)
  then obtain a b c where "inorder T = [a, b, c]" by (auto simp: map_eq_Cons_conv)
  then show ?thesis using T inv_unprev [of id t T "[]"] length_inorder [of T]
    by (intro exI [of _ "unprev t"] exI [of _ a] exI [of _ b] exI [of _ c] exI [of _ T]) simp
qed

theorem bst_takes_removes_witness:
  "\<exists>(t :: (int, int) jfs_bst) t' T' a. jfs_bst_takes 5 no_attached t 20 JFS_OK = Some (Some 20, t', JFS_OK) \<and>
     bst_inv id t' T' [a] \<and> entries t' T' = [10, 30]"
proof -
  obtain t :: "(int, int) jfs_bst" and a b c T where t: "bst_inv id t T []" "inorder T = [a, b, c]" "entries t T = [10, 20, 30]"
      "cache_previous t = nil t" "tsize T = 3" using demo_three by metis
  have "b \<noteq> nil t" "T \<noteq> Lf" using inv_nonnil [OF t(1), of b] t(2) by auto
  then have b: "b \<notin> {cache_previous t, cache_smallest t, cache_largest t}"
    using inv_ends [OF t(1)] t(2,4) by auto
  have key: "node_value t b = 20" "b \<in> set (inorder T)" using t(2,3) by auto
  have pre: "no_attached (b + value_offset t) t = (b + value_offset t, t)" "tsize T + 1 \<le> 2 ^ 2" "2 * 2 < (5 :: nat)"
    using t(5) by (simp_all add: no_attached_def)
  have "filter (\<lambda>v. id v \<noteq> id (20 :: int)) [10, 20, 30] = [10, 30]" by simp
  with bst_takes_removes [where detach = no_attached, OF t(1) key(2) b pre] show ?thesis
    unfolding t(3) key(1) id_def by metis
qed

text \<open>C37. \<open>jfs_bst_get_smallest\<close> does not clear the cache of the previous node. When that is the
  node it removes, the node goes to the free list but stays cached: the tree no longer holds its key, and
  \<open>jfs_bst_takes\<close> of that key still reports success with the value of the freed node.\<close>

theorem bst_get_smallest_stale:
  fixes t :: "('k::linorder, 'v) jfs_bst"
  assumes inv: "bst_inv kf t T xs" and two: "2 \<le> tsize T" and prev: "cache_previous t = cache_smallest t"
    and fuel: "tsize T + 1 \<le> 2 ^ k" "2 * k < fuel"
  shows "\<exists>v t' T' fl. jfs_bst_get_smallest fuel no_attached t JFS_OK = Some (Some v, t', JFS_OK) \<and>
    bst_inv kf (unprev t') T' (cache_previous t' # fl) \<and> kf v \<notin> kf ` set (entries t' T') \<and>
    jfs_bst_takes fuel no_attached t' (kf v) JFS_OK = Some (Some v, t', JFS_OK)"
proof -
  have fuel': "theight T < fuel" using rb_height [of T k] inv fuel by (simp add: bst_inv_def)
  have inv': "bst_inv kf (unprev t) T xs" using inv inv_unprev by blast
  obtain v vs where vs: "entries t T = v # vs" "vs \<noteq> []" using two unfolding tsize_two by (cases "inorder T") auto
  from get_smallest [OF inv' vs fuel', of no_attached] obtain t' T' where
    r: "jfs_bst_get_smallest fuel no_attached t JFS_OK = Some (Some v, t', JFS_OK)" "bst_inv kf (unprev t') T' (cache_smallest t # xs)"
      "entries t' T' = vs" "same_values t t'" "inorder T = cache_smallest t # inorder T'" by (auto simp: no_attached_def)
  let ?a = "cache_smallest t"
  have a: "node_value t' ?a = v" "cache_previous t' = ?a" "?a \<noteq> nil t'"
    using r(4,5) vs(1) prev inv_nonnil [OF inv, of ?a] by (auto simp: same_values_def)
  have cmp: "cmp_ok kf t'" using r(2) by (simp add: bst_inv_def)
  have "root t' \<noteq> nil t'" using inv_root [OF r(2)] vs(2) r(3) by auto
  moreover have "bst_check_cache t' (kf v) = Some ?a" unfolding check_cache_eq [OF cmp] using a by simp
  moreover have "bst_unpack_node t' ?a = Some v"
    using container_value [OF cmp] cmp a(1) by (simp add: bst_unpack_node_def node_value_def cmp_ok_def)
  ultimately have "jfs_bst_takes fuel no_attached t' (kf v) JFS_OK = Some (Some v, t', JFS_OK)"
    using a by (simp add: jfs_bst_takes_def)
  moreover have "sorted_wrt (<) (map kf (entries t T))" using inv by (simp add: bst_inv_def comp_def)
  then have "kf v \<notin> kf ` set vs" unfolding vs(1) by auto
  ultimately show ?thesis using r a by (intro exI [of _ v] exI [of _ t'] exI [of _ T'] exI [of _ xs]) simp
qed

theorem bst_get_smallest_stale_witness:
  "\<exists>(t :: (int, int) jfs_bst) t'. jfs_bst_get_smallest 5 no_attached t JFS_OK = Some (Some 10, t', JFS_OK) \<and>
     jfs_bst_takes 5 no_attached t' 10 JFS_OK = Some (Some 10, t', JFS_OK)"
proof -
  obtain t0 :: "(int, int) jfs_bst" and a b c T where t0: "bst_inv id t0 T []" "inorder T = [a, b, c]" "entries t0 T = [10, 20, 30]"
      "cache_previous t0 = nil t0" "tsize T = 3" using demo_three by metis
  let ?t = "t0\<lparr>cache_previous := a\<rparr>"
  have "T \<noteq> Lf" using t0(2) by auto
  then have t: "bst_inv id ?t T []" "cache_previous ?t = cache_smallest ?t" "entries ?t T = [10, 20, 30]"
    using t0 inv_ends [OF t0(1)] inv_unprev [of id t0 T "[]"] inv_unprev [of id ?t T "[]"] by (auto simp: node_value_def)
  from bst_get_smallest_stale [OF t(1) _ t(2), of 2 5] t0(5) obtain v t' T' fl where
    r: "jfs_bst_get_smallest 5 no_attached ?t JFS_OK = Some (Some v, t', JFS_OK)"
      "jfs_bst_takes 5 no_attached t' v JFS_OK = Some (Some v, t', JFS_OK)" by auto
  have "theight T < 5" using rb_height [of T 2] t0(1,5) by (simp add: bst_inv_def)
  with get_smallest [of id ?t T "[]" 10 "[20, 30]" 5 no_attached] t inv_unprev [of id ?t T "[]"] r(1)
  have "v = 10" by (auto simp: no_attached_def)
  with r show ?thesis by blast
qed

lemma tsize_0 [simp]: "tsize T = 0 \<longleftrightarrow> T = Lf"
  by (cases T) auto

lemma tsize_one: "rb T \<Longrightarrow> tsize T = 1 \<Longrightarrow> \<exists>a. T = Nd Lf a Black Lf"
  by (cases T) (auto simp: rb_def)

text \<open>Removing the only entry aborts: \<open>bst_delete\<close> empties the tree,
  and then \<open>bst_update_cache_delete\<close> asserts that the deleted node is still the
  root.\<close>

theorem bst_take_last_aborts:
  fixes t :: "('k::linorder, 'v) jfs_bst"
  assumes inv: "bst_inv kf t T xs" and one: "tsize T = 1"
  shows "\<exists>t'. bst_delete (Suc fuel) t (cache_smallest t) = Some t' \<and> root t' = nil t' \<and>
    bst_update_cache_delete (Suc fuel) t' (cache_smallest t) = None \<and>
    jfs_bst_get_smallest (Suc fuel) (\<lambda>value t. (value, t)) t JFS_OK = None"
proof -
  obtain a where T: "T = Nd Lf a Black Lf" using tsize_one one inv by (auto simp: bst_inv_def)
  then have a: "root t = a" "a \<noteq> nil t" "good a" "par t a = nil t" "col t a = BST_BLACK" "bst_left t a = nil t"
      "bst_right t a = nil t" "good (nil t)" "col t (nil t) = BST_BLACK" "cache_smallest t = a" "cache_largest t = a"
      "value_offset t > 0" "value_inside t"
    using inv by (auto simp: bst_inv_def cmp_ok_def)
  let ?t = "upd_col (nil t) Black (upd_par (nil t) (nil t) (t\<lparr>root := nil t\<rparr>))"
  have del: "bst_delete (Suc fuel) t a = Some ?t"
    using a by (simp add: bst_delete_def bst_transplant_def bst_replace_child_def bst_fixup_delete_def bst_fixup_delete_loop.simps(2))
  moreover have upd: "bst_update_cache_delete (Suc fuel) ?t a = None"
    using a by (simp add: bst_update_cache_delete_def upd_col_def upd_par_def)
  ultimately show ?thesis
    using a by (auto simp: jfs_bst_get_smallest_def bst_detach_and_delete_def bst_container_value_def
        jfs_mlg_apply_offset_def)
qed

theorem bst_take_last_aborts_witness:
  "\<exists>t :: (int, int) jfs_bst. jfs_bst_get_smallest 9 (\<lambda>value t. (value, t)) t JFS_OK = None"
proof -
  obtain t :: "(int, int) jfs_bst" and T where t: "bst_inv id t T [4144, 4096]" "entries t T = [7]" "tsize T = 1"
    using demo_single by metis
  have "Suc 8 = 9" by simp
  with bst_take_last_aborts [OF t(1,3), of 8] show ?thesis by auto
qed

text \<open>A component laid out from the description that
  \<open>jfs_bst_make_desc\<close> returns has one object whatever \<open>obj_count\<close>
  is, so a tree on it holds one node.\<close>

theorem bst_make_desc_one_node:
  assumes "jfs_bst_make_desc obj_size obj_align obj_count JFS_OK = Some (desc, JFS_OK)"
  shows "component_objs \<lparr>comp_ptr = ptr, comp_desc = desc\<rparr> = [ptr]"
proof -
  have "desc_count desc = 1"
    using assms by (auto simp: jfs_bst_make_desc_def bst_node_desc_def jfs_mlg_append_def Let_def c_assert_def
        split: if_splits Option.bind_splits)
  then show ?thesis by (simp add: component_objs_def)
qed

theorem bst_make_desc_one_node_witness:
  "\<exists>desc. jfs_bst_make_desc 24 8 100 JFS_OK = Some (desc, JFS_OK) \<and>
     component_objs \<lparr>comp_ptr = 4096, comp_desc = desc\<rparr> = [4096]"
proof -
  have "jfs_bst_make_desc 24 8 100 JFS_OK = Some (\<lparr>desc_size = 2432, desc_align = 8, desc_count = 1\<rparr>, JFS_OK)"
    by code_simp
  with bst_make_desc_one_node show ?thesis by blast
qed

text \<open>A comparison function that returns a difference, which
  \<open>bst_find\<close> accepts (it tests the sign), is not accepted by
  \<open>bst_insert\<close> (it tests for -1): of three inserted keys the second is
  overwritten and cannot be found.\<close>

theorem bst_difference_cmp_loses_key:
  "(jfs_bst_init 64 demo_bst \<lparr>conf_component = demo_component, conf_cmp = Some diff_cmp\<rparr> JFS_OK \<bind>
     (\<lambda>(t, _). put_all (bst_put1 5 (\<lambda>a b t. t) id) [10, 5, 7] t \<bind>
     (\<lambda>t. jfs_bst_takes 5 (\<lambda>a t. (a, t)) t 5 JFS_OK \<bind> (\<lambda>(v, _, err). Some (v, err)))))
   = Some (None, JFS_ERR_BST_BAD_KEY)"
  by code_simp

end
