(* ===== verification/Jfs_Vm.thy ===== *)
theory Jfs_Vm
  imports Jfs_Free_List
begin

text \<open>
  The virtual memory of the process as the two slab allocators use it, and the function
  both of them define to obtain a slab aligned to its own size (\<open>sa_aligned_mmap\<close> in
  \<open>src/src/modules/slab_allocator.c\<close>, \<open>tss_aligned_mmap\<close> in
  \<open>src/src/modules/old_thread_safe_slab.c\<close>; the two bodies are the same).

  The state holds which addresses are mapped, and the answers of the coming calls of \<open>mmap\<close>
  (past the end of the list every call fails). \<open>munmap\<close> fails exactly for an address that
  is not page-aligned and for length 0. Lengths are 64-bit words; ranges are meant modulo
  \<open>2 ^ 64\<close>, and \<open>in_range_iff\<close> gives their usual meaning when they do not wrap.
\<close>

section \<open>Mappings\<close>

record vm =
  mmap_script :: "addr sys list"
  mapped :: "addr \<Rightarrow> bool"

definition in_range :: "addr \<Rightarrow> size_t \<Rightarrow> addr \<Rightarrow> bool" where
  "in_range a n x \<longleftrightarrow> x - a < n"

definition vm_mmap :: "size_t \<Rightarrow> 'a vm_scheme \<Rightarrow> jfs_err_t \<Rightarrow> addr \<times> 'a vm_scheme \<times> jfs_err_t" where
  "vm_mmap len s err =
     (let r = (case mmap_script s of [] \<Rightarrow> SysErr (E_OTHER 12) | r # _ \<Rightarrow> r);
          (mem, err) = jfs_mmap r err;
          s = s\<lparr>mmap_script := tl (mmap_script s)\<rparr>
      in case r of
           SysOk _ \<Rightarrow> (mem, s\<lparr>mapped := \<lambda>x. in_range mem len x \<or> mapped s x\<rparr>, err)
         | SysErr _ \<Rightarrow> (mem, s, err))"

definition vm_munmap :: "addr \<Rightarrow> size_t \<Rightarrow> 'a vm_scheme \<Rightarrow> int \<times> 'a vm_scheme" where
  "vm_munmap a len s =
     (if a mod 4096 \<noteq> 0 \<or> len = 0 then (-1, s)
      else (0, s\<lparr>mapped := \<lambda>x. mapped s x \<and> \<not> in_range a len x\<rparr>))"

text \<open>The blocks \<open>if (leading_trim > 0)\<close> and \<open>if (trailing_trim > 0)\<close>.\<close>

definition vm_trim :: "addr \<Rightarrow> size_t \<Rightarrow> 'a vm_scheme \<Rightarrow> 'a vm_scheme option" where
  "vm_trim a trim s =
     (if trim > 0 then do {
        let (ret, s) = vm_munmap a trim s;
        c_assert (ret = 0);
        Some s
      } else Some s)"

definition aligned_mmap :: "size_t \<Rightarrow> 'a vm_scheme \<Rightarrow> jfs_err_t \<Rightarrow> (addr \<times> 'a vm_scheme \<times> jfs_err_t) option" where
  "aligned_mmap slab_size s err = do {
     c_assert (slab_size > 0);
     let (raw_block, s, err) = vm_mmap (slab_size * 2) s err;
     if err \<noteq> JFS_OK then Some (NULL, s, err)
     else do {
       let raw_addr = raw_block;
       let aligned_addr = (raw_addr + slab_size - 1) AND NOT (slab_size - 1);
       let leading_trim = aligned_addr - raw_addr;
       let trailing_trim = (raw_addr + 2 * slab_size) - (aligned_addr + slab_size);
       c_assert (raw_addr mod 4096 = 0);
       c_assert (aligned_addr mod slab_size = 0);
       c_assert (leading_trim mod 4096 = 0);
       c_assert (trailing_trim mod 4096 = 0);
       s \<leftarrow> vm_trim raw_block leading_trim s;
       s \<leftarrow> vm_trim (aligned_addr + slab_size) trailing_trim s;
       Some (aligned_addr, s, err)
     }
   }"

section \<open>Aligned blocks\<close>

lemma in_range_iff: "unat a + unat n \<le> 2 ^ 64 \<Longrightarrow> in_range a n x \<longleftrightarrow> unat a \<le> unat x \<and> unat x < unat a + unat n"
proof -
  assume n: "unat a + unat n \<le> 2 ^ 64"
  show ?thesis
  proof (cases "a \<le> x")
    case True
    then have "unat (x - a) = unat x - unat a" "unat a \<le> unat x" by (simp_all add: unat_sub word_le_nat_alt)
    then show ?thesis by (auto simp: in_range_def word_less_nat_alt)
  next
    case False
    then have lt: "unat x < unat a" by (simp add: word_le_nat_alt)
    then have "unat (x - a) = 2 ^ 64 + unat x - unat a" using unat64_less [of a]
      by (simp add: unat_sub_if_size size_word_def word_le_nat_alt)
    then show ?thesis using lt n unat64_less [of a] by (simp add: in_range_def word_less_nat_alt)
  qed
qed

lemma unat_add64: "unat a + unat b < 2 ^ 64 \<Longrightarrow> unat (a + b :: 64 word) = unat a + unat b"
  by (simp add: unat_word_ariths)

lemma mod_word_zero_iff: "(a :: 64 word) mod b = 0 \<longleftrightarrow> unat b dvd unat a"
proof -
  have "a mod b = 0 \<longleftrightarrow> unat (a mod b) = 0" by (simp add: unat_eq_0)
  then show ?thesis by (simp add: unat_mod dvd_eq_mod_eq_0)
qed

text \<open>What the kernel documents of an anonymous mapping: page-aligned, not null, inside the address
  space, and not overlapping any other mapping.\<close>

definition fresh_block :: "addr \<Rightarrow> size_t \<Rightarrow> 'a vm_scheme \<Rightarrow> bool" where
  "fresh_block raw len s \<longleftrightarrow> raw \<noteq> NULL \<and> raw mod 4096 = 0 \<and> unat raw + unat len < 2 ^ 64 \<and>
     (\<forall>x. in_range raw len x \<longrightarrow> \<not> mapped s x)"

definition slab_size_ok :: "size_t \<Rightarrow> bool" where
  "slab_size_ok n \<longleftrightarrow> jfs_mlg_valid_align n \<and> 4096 \<le> unat n \<and> unat n < 2 ^ 63"

lemma round_addr:
  assumes sz: "slab_size_ok n" and fits: "unat raw + 2 * unat n < 2 ^ 64"
  shows "unat n dvd unat ((raw + n - 1) AND NOT (n - 1))" and "unat raw \<le> unat ((raw + n - 1) AND NOT (n - 1))"
    and "unat ((raw + n - 1) AND NOT (n - 1)) < unat raw + unat n"
proof -
  from sz obtain k where k: "k < 64" "n = 2 ^ k" "unat n = 2 ^ k" and n: "4096 \<le> unat n"
    by (auto simp: slab_size_ok_def elim!: valid_alignE)
  have "0 < unat n" using n by linarith
  have a: "unat ((raw + n - 1) AND NOT (n - 1)) = round_up (unat raw) (unat n)"
    using unat_round_up [of k n raw] k fits round_up_less [of "unat n" "unat raw"] \<open>0 < unat n\<close> by (simp add: round_up_def)
  then show "unat n dvd unat ((raw + n - 1) AND NOT (n - 1))" "unat raw \<le> unat ((raw + n - 1) AND NOT (n - 1))"
    "unat ((raw + n - 1) AND NOT (n - 1)) < unat raw + unat n"
    unfolding a using \<open>0 < unat n\<close> by (simp_all add: round_up_ge round_up_less round_up_dvd)
qed

lemma slab_size_page: "slab_size_ok n \<Longrightarrow> 4096 dvd unat n"
proof -
  assume "slab_size_ok n"
  then obtain k where k: "unat n = 2 ^ k" and "4096 \<le> unat n" by (auto simp: slab_size_ok_def elim!: valid_alignE)
  then have "(2::nat) ^ 12 \<le> 2 ^ k" by simp
  then have "12 \<le> k" by (rule power_le_imp_le_exp [rotated]) simp
  then show ?thesis unfolding k using le_imp_power_dvd [of 12 k "2::nat"] by simp
qed

text \<open>The two trims of a block of twice the size leave exactly the aligned part.\<close>

lemma trims:
  assumes sz: "slab_size_ok n" and fits: "unat raw + 2 * unat n < 2 ^ 64" and page: "4096 dvd unat raw"
    and a: "unat n dvd unat a" "unat raw \<le> unat a" "unat a < unat raw + unat n"
  defines "lead \<equiv> a - raw" and "trail \<equiv> (raw + 2 * n) - (a + n)"
  shows "lead mod 4096 = 0" and "trail mod 4096 = 0" and "(a + n) mod 4096 = 0" and "a mod n = 0"
    and "in_range raw (n * 2) x \<and> \<not> in_range raw lead x \<and> \<not> in_range (a + n) trail x \<longleftrightarrow> in_range a n x"
    and "in_range raw lead x \<or> in_range (a + n) trail x \<Longrightarrow> in_range raw (n * 2) x"
proof -
  have n2: "unat (n * 2) = 2 * unat n" "unat (2 * n) = 2 * unat n" using sz by (simp_all add: slab_size_ok_def unat_word_ariths)
  have lead: "unat lead = unat a - unat raw" unfolding lead_def using a(2) by (simp add: unat_sub word_le_nat_alt)
  have end_a: "unat (a + n) = unat a + unat n" using a(3) fits by (intro unat_add64) linarith
  have end_raw: "unat (raw + 2 * n) = unat raw + 2 * unat n"
    using fits n2 unat_add64 [of raw "2 * n"] by simp
  have le: "a + n \<le> raw + 2 * n" unfolding word_le_nat_alt end_a end_raw using a(3) by simp
  have trail: "unat trail = unat raw + 2 * unat n - (unat a + unat n)"
    unfolding trail_def unat_sub [OF le] end_a end_raw ..
  have pn: "4096 dvd unat n" by (rule slab_size_page [OF sz])
  then have pa: "4096 dvd unat a" using a(1) by (rule dvd_trans)
  show "lead mod 4096 = 0" "trail mod 4096 = 0" "(a + n) mod 4096 = 0" "a mod n = 0"
    using page a(1) pa pn unfolding mod_word_zero_iff lead trail end_a by (simp_all add: dvd_diff_nat)
  have "in_range raw lead x \<longleftrightarrow> unat raw \<le> unat x \<and> unat x < unat a"
    using lead a fits in_range_iff [of raw lead x] by simp
  moreover have "in_range (a + n) trail x \<longleftrightarrow> unat a + unat n \<le> unat x \<and> unat x < unat raw + 2 * unat n"
    using trail end_a a fits in_range_iff [of "a + n" trail x] by auto
  moreover have "in_range raw (n * 2) x \<longleftrightarrow> unat raw \<le> unat x \<and> unat x < unat raw + 2 * unat n"
    using n2 fits in_range_iff [of raw "n * 2" x] by simp
  moreover have "in_range a n x \<longleftrightarrow> unat a \<le> unat x \<and> unat x < unat a + unat n"
    using a fits in_range_iff [of a n x] by simp
  ultimately show "in_range raw (n * 2) x \<and> \<not> in_range raw lead x \<and> \<not> in_range (a + n) trail x \<longleftrightarrow> in_range a n x"
    "in_range raw lead x \<or> in_range (a + n) trail x \<Longrightarrow> in_range raw (n * 2) x"
    using a by auto
qed

lemma in_range_0 [simp]: "\<not> in_range b 0 x"
  by (simp add: in_range_def)

lemma vm_trim_ok:
  "a mod 4096 = 0 \<Longrightarrow> vm_trim a len s = Some (s\<lparr>mapped := \<lambda>x. mapped s x \<and> \<not> in_range a len x\<rparr>)"
  by (cases "len = 0") (auto simp: vm_trim_def vm_munmap_def word_greater_zero_iff)

lemma aligned_mmap_ok:
  assumes sz: "slab_size_ok n" and script: "mmap_script s = SysOk raw # rs" and raw: "fresh_block raw (n * 2) s"
  obtains a where "aligned_mmap n s JFS_OK = Some (a, s\<lparr>mmap_script := rs, mapped := \<lambda>x. in_range a n x \<or> mapped s x\<rparr>, JFS_OK)"
    "unat n dvd unat a" "unat raw \<le> unat a" "unat a + unat n \<le> unat raw + 2 * unat n" "a \<noteq> NULL"
proof -
  have "unat (n * 2) = 2 * unat n" using sz by (simp add: slab_size_ok_def unat_word_ariths)
  then have fits: "unat raw + 2 * unat n < 2 ^ 64" using raw by (simp add: fresh_block_def)
  have page: "4096 dvd unat raw" using raw by (simp add: fresh_block_def mod_word_zero_iff)
  let ?a = "(raw + n - 1) AND NOT (n - 1)"
  let ?s = "s\<lparr>mmap_script := rs, mapped := \<lambda>x. ((in_range raw (n * 2) x \<or> mapped s x) \<and> \<not> in_range raw (?a - raw) x) \<and>
    \<not> in_range (?a + n) ((raw + 2 * n) - (?a + n)) x\<rparr>"
  note a = round_addr [OF sz fits] and t = trims [OF sz fits page round_addr [OF sz fits]]
  have "aligned_mmap n s JFS_OK = Some (?a, ?s, JFS_OK)"
    using script raw sz t(1-4) by (simp add: aligned_mmap_def vm_mmap_def jfs_mmap_def vm_trim_ok slab_size_ok_def
        fresh_block_def word_greater_zero_iff jfs_mlg_valid_align_def Let_def)
  moreover have "mapped ?s = (\<lambda>x. in_range ?a n x \<or> mapped s x)"
    using t(5,6) raw by (auto simp: fresh_block_def fun_eq_iff)
  ultimately show thesis
    using a raw by (intro that [of ?a]) (auto simp: fresh_block_def unat_eq_0)
qed

lemma aligned_mmap_fails:
  assumes "slab_size_ok n" and "\<forall>raw. mmap_script s \<noteq> [] \<longrightarrow> hd (mmap_script s) \<noteq> SysOk raw"
  shows "aligned_mmap n s JFS_OK = Some (NULL, s\<lparr>mmap_script := tl (mmap_script s)\<rparr>, JFS_ERR_SYS)"
proof -
  have "n > 0" using assms(1) by (simp add: slab_size_ok_def jfs_mlg_valid_align_def word_greater_zero_iff)
  then show ?thesis using assms(2)
    by (auto simp: aligned_mmap_def vm_mmap_def jfs_mmap_def split: list.split sys.split)
qed

lemma mask_slab:
  assumes sz: "slab_size_ok n" and a: "unat n dvd unat a" "unat a + unat n \<le> 2 ^ 64" and x: "in_range a n x"
  shows "x AND NOT (n - 1) = a"
proof -
  from sz obtain k where k: "n = 2 ^ k" "unat n = 2 ^ k" by (auto simp: slab_size_ok_def elim!: valid_alignE)
  have x: "unat a \<le> unat x" "unat x < unat a + unat n" using x in_range_iff [OF a(2)] by auto
  obtain q where q: "unat a = unat n * q" using a(1) by (elim dvdE)
  have "unat x div unat n = q" using x q by (intro div_nat_eqI) (simp_all add: algebra_simps)
  then have "unat (x AND NOT (mask k)) = unat a" using q k by (simp add: unat_and_not_mask mult.commute)
  then have "x AND NOT (mask k) = a" by (simp only: word_unat_eq_iff)
  then show ?thesis unfolding k(1) by (simp add: mask_eq_decr_exp)
qed
end
