(* ===== verification/Jfs_Slab.thy ===== *)
theory Jfs_Slab
  imports Jfs_Vm
begin

text \<open>
  The slab allocator (\<open>src/src/modules/slab_allocator.c\<close>, \<open>src/src/include/slab_allocator.h\<close>).
  The module is unfinished: of its static functions only the configuration, the aligned
  mapping, the creation of a slab and the lookup of an object's slab have bodies that do
  something, and those are modelled. Sizes keep their C widths, so the products of the
  configuration wrap as they do in the code. The sizes of \<open>sa_slab_t\<close> and \<open>jfs_sa_obj_t\<close> are 16
  and 8 on a 64-bit target.
\<close>

section \<open>Configuration\<close>

record jfs_sa_allocator_config =
  c_obj_size :: size_t
  c_obj_align :: size_t
  c_batch_capacity :: u32
  c_alloc_store_capacity :: u32
  c_cache_store_capacity :: u32
  c_cache_acquire_amount :: u32
  c_cache_release_amount :: u32
  c_slab_acquire_count :: u32

record sa_config =
  sa_obj_align :: size_t
  sa_obj_padded_size :: size_t
  sa_slab_size :: size_t
  sa_slab_offset :: uintptr
  sa_slab_obj_mask :: uintptr
  sa_batch_capacity :: u32
  sa_batch_per_slab :: size_t
  sa_alloc_store_capacity :: u32
  sa_cache_store_capacity :: u32
  sa_cache_acquire_amount :: u32
  sa_cache_release_amount :: u32

text \<open>
  The loop that doubles \<open>pages_per_slab\<close>. The fuel 64 is enough (\<open>pages_loop_returns\<close>): the code
  rejects more than \<open>2 ^ 63\<close> pages before the loop.
\<close>

fun sa_pages_loop :: "nat \<Rightarrow> size_t \<Rightarrow> size_t \<Rightarrow> size_t option" where
  "sa_pages_loop 0 pages_per_slab min_pages_needed = None"
| "sa_pages_loop (Suc n) pages_per_slab min_pages_needed =
     (if pages_per_slab < min_pages_needed then sa_pages_loop n (pages_per_slab * 2) min_pages_needed
      else Some pages_per_slab)"

text \<open>The idiom \<open>x ? x : DEFAULT\<close>.\<close>

definition or_default :: "u32 \<Rightarrow> u32 \<Rightarrow> u32" where
  "or_default x d = (if x \<noteq> 0 then x else d)"

text \<open>The assignments between the checks of the alignment and of the amounts.\<close>

definition sa_config_sizes :: "sa_config \<Rightarrow> jfs_sa_allocator_config \<Rightarrow> sa_config option" where
  "sa_config_sizes conf_init alloc_conf = do {
     let obj_size = (if c_obj_size alloc_conf > 8 then c_obj_size alloc_conf else 8);
     let conf_init = conf_init\<lparr>sa_obj_padded_size :=
       (obj_size + sa_obj_align conf_init - 1) AND NOT (sa_obj_align conf_init - 1)\<rparr>;
     c_assert (sa_obj_padded_size conf_init mod sa_obj_align conf_init = 0);
     let conf_init = conf_init\<lparr>sa_slab_offset :=
       (16 + sa_obj_align conf_init - 1) AND NOT (sa_obj_align conf_init - 1)\<rparr>;
     c_assert (sa_slab_offset conf_init mod sa_obj_align conf_init = 0);
     Some (conf_init\<lparr>
       sa_batch_capacity := or_default (c_batch_capacity alloc_conf) 64,
       sa_cache_acquire_amount := or_default (c_cache_acquire_amount alloc_conf) 1,
       sa_cache_release_amount := or_default (c_cache_release_amount alloc_conf) 1,
       sa_cache_store_capacity :=
         (if c_cache_store_capacity alloc_conf \<noteq> 0 then c_alloc_store_capacity alloc_conf else 2),
       sa_alloc_store_capacity := or_default (c_alloc_store_capacity alloc_conf) 4\<rparr>)
   }"

definition sa_config_init ::
  "sa_config \<Rightarrow> jfs_sa_allocator_config \<Rightarrow> jfs_err_t \<Rightarrow> (sa_config \<times> jfs_err_t) option" where
  "sa_config_init conf_init alloc_conf err =
     (let conf_init = conf_init\<lparr>sa_obj_align := c_obj_align alloc_conf\<rparr> in
      if sa_obj_align conf_init = 0 then Some (conf_init, JFS_ERR_BAD_CONF)
      else if sa_obj_align conf_init AND (sa_obj_align conf_init - 1) \<noteq> 0 then Some (conf_init, JFS_ERR_BAD_CONF)
      else do {
        conf_init \<leftarrow> sa_config_sizes conf_init alloc_conf;
        if sa_cache_acquire_amount conf_init > sa_cache_store_capacity conf_init
          \<or> sa_cache_release_amount conf_init > sa_cache_store_capacity conf_init
          \<or> sa_cache_acquire_amount conf_init > sa_alloc_store_capacity conf_init
          \<or> sa_cache_release_amount conf_init > sa_alloc_store_capacity conf_init
        then Some (conf_init, JFS_ERR_BAD_CONF)
        else do {
          let acquire_per_slab = (ucast (or_default (c_slab_acquire_count alloc_conf) 8) :: size_t);
          let slab_size_needed =
            (acquire_per_slab * ucast (sa_cache_acquire_amount conf_init) * ucast (sa_batch_capacity conf_init)
               * sa_obj_padded_size conf_init) + sa_slab_offset conf_init;
          let min_pages_needed = (slab_size_needed + 4096 - 1) div 4096;
          if min_pages_needed > 18446744073709551615 div 2 then Some (conf_init, JFS_ERR_BAD_CONF)
          else do {
            pages_per_slab \<leftarrow> sa_pages_loop 64 1 min_pages_needed;
            let conf_init = conf_init\<lparr>sa_slab_size := pages_per_slab * 4096\<rparr>;
            if sa_slab_size conf_init \<ge> slab_size_needed then Some (conf_init, JFS_ERR_BAD_CONF)
            else do {
              c_assert (sa_slab_size conf_init AND (sa_slab_size conf_init - 1) \<noteq> 0);
              let conf_init = conf_init\<lparr>sa_slab_obj_mask := NOT (sa_slab_size conf_init - 1)\<rparr>;
              let batch_total_bytes = ucast (sa_batch_capacity conf_init) * sa_obj_padded_size conf_init;
              let conf_init = conf_init\<lparr>sa_batch_per_slab :=
                (sa_slab_size conf_init - sa_slab_offset conf_init + batch_total_bytes - 1) div batch_total_bytes\<rparr>;
              c_assert (acquire_per_slab * ucast (sa_cache_acquire_amount conf_init) \<le> sa_batch_per_slab conf_init);
              if sa_batch_per_slab conf_init > ucast (sa_alloc_store_capacity conf_init)
              then Some (conf_init, JFS_ERR_BAD_CONF)
              else Some (conf_init, err)
            }
          }
        }
      })"

section \<open>Slabs\<close>

record sa_mem = vm +
  slab_id :: "addr \<Rightarrow> 64 word"
  sa_used_count :: "addr \<Rightarrow> size_t"

definition sa_aligned_mmap :: "sa_config \<Rightarrow> 'a vm_scheme \<Rightarrow> jfs_err_t \<Rightarrow> (addr \<times> 'a vm_scheme \<times> jfs_err_t) option" where
  "sa_aligned_mmap conf s err = aligned_mmap (sa_slab_size conf) s err"

definition sa_allocator_find_slab :: "sa_config \<Rightarrow> addr \<Rightarrow> addr" where
  "sa_allocator_find_slab conf obj = obj AND NOT (sa_slab_size conf - 1)"

definition sa_slab_create ::
  "sa_config \<Rightarrow> 64 word \<Rightarrow> sa_mem \<Rightarrow> jfs_err_t \<Rightarrow> (addr \<times> sa_mem \<times> jfs_err_t) option" where
  "sa_slab_create conf new_slab_id s err = do {
     (slab, s, err) \<leftarrow> sa_aligned_mmap conf s err;
     if err \<noteq> JFS_OK then Some (NULL, s, err)
     else Some (slab, s\<lparr>slab_id := (slab_id s)(slab := new_slab_id), sa_used_count := (sa_used_count s)(slab := 0)\<rparr>, err)
   }"

section \<open>Properties\<close>

lemma pages_loop_pow2: "sa_pages_loop n (2 ^ i) m = Some q \<Longrightarrow> \<exists>j. q = 2 ^ j"
proof (induction n arbitrary: i)
  case (Suc n)
  then show ?case using Suc.IH [of "Suc i"] by (auto simp: mult.commute split: if_splits)
qed simp

lemma pages_loop_returns:
  assumes "unat m \<le> 2 ^ 63" and "i + n = 64" and "0 < n"
  shows "\<exists>q. sa_pages_loop n (2 ^ i) m = Some q \<and> m \<le> q"
  using assms(2,3)
proof (induction n arbitrary: i)
  case (Suc n)
  show ?case
  proof (cases n)
    case 0
    then have "unat (2 ^ i :: size_t) = 2 ^ 63" using Suc.prems unat_pow2 [of i, where 'a = 64] by simp
    then have "m \<le> 2 ^ i" using assms(1) by (simp add: word_le_nat_alt)
    then have "\<not> 2 ^ i < m" by simp
    then show ?thesis by simp
  next
    case (Suc k)
    then show ?thesis using Suc.IH [of "Suc i"] Suc.prems by (auto simp: mult.commute not_less)
  qed
qed simp

lemma word_pow2_and_pred: "(2 ^ j :: 64 word) AND (2 ^ j - 1) = 0"
proof (cases "j < 64")
  case True
  then show ?thesis using pow2_word_iff [of "2 ^ j :: 64 word"] by (auto simp: and.commute)
next
  case False
  then have "(2 ^ j :: 64 word) = 0" by (simp add: exp_eq_zero_iff)
  then show ?thesis by (simp only: and_zero_eq zero_and_eq)
qed

text \<open>No configuration is accepted: \<open>sa_config_init\<close> ends with \<open>JFS_ERR_BAD_CONF\<close> or in a
  failed assertion, since it rejects a slab that is large enough and asserts that the slab size, which
  is a power of two (or 0 after wrapping), is not one.\<close>

theorem sa_config_init_never_ok:
  "case sa_config_init conf_init alloc_conf err of None \<Rightarrow> True | Some (_, e) \<Rightarrow> e = JFS_ERR_BAD_CONF"
proof -
  have "pages * 4096 AND (pages * 4096 - 1) = 0" if loop: "sa_pages_loop 64 1 m = Some pages" for pages m :: size_t
  proof -
    obtain j where "pages = 2 ^ j" using pages_loop_pow2 [of 64 0 m pages] loop by auto
    then have "pages * 4096 = 2 ^ (j + 12)" by (simp add: power_add)
    then show ?thesis by (simp only: word_pow2_and_pred)
  qed
  then show ?thesis
    by (simp add: sa_config_init_def Let_def split: option.split Option.bind_split)
qed


text \<open>C24. \<open>sa_slab_create\<close> returns a block of the slab size, aligned to it, out of the mapping the
  kernel gave: it keeps exactly that block mapped and returns the rest of the mapping, and masking any
  address inside the block finds the slab again.\<close>

theorem sa_slab_create_owns_block:
  assumes sz: "slab_size_ok (sa_slab_size conf)" and script: "mmap_script s = SysOk raw # rs"
    and raw: "fresh_block raw (sa_slab_size conf * 2) s"
  shows "\<exists>slab s'. sa_slab_create conf new_slab_id s JFS_OK = Some (slab, s', JFS_OK) \<and> slab \<noteq> NULL \<and>
    mapped s' = (\<lambda>x. in_range slab (sa_slab_size conf) x \<or> mapped s x) \<and>
    slab_id s' slab = new_slab_id \<and> sa_used_count s' slab = 0 \<and>
    (\<forall>obj. in_range slab (sa_slab_size conf) obj \<longrightarrow> sa_allocator_find_slab conf obj = slab)"
proof -
  obtain a where a: "aligned_mmap (sa_slab_size conf) s JFS_OK =
      Some (a, s\<lparr>mmap_script := rs, mapped := \<lambda>x. in_range a (sa_slab_size conf) x \<or> mapped s x\<rparr>, JFS_OK)"
    "unat (sa_slab_size conf) dvd unat a" "unat a + unat (sa_slab_size conf) \<le> unat raw + 2 * unat (sa_slab_size conf)"
    "a \<noteq> NULL" by (rule aligned_mmap_ok [OF sz script raw])
  have "unat (sa_slab_size conf * 2) = 2 * unat (sa_slab_size conf)" using sz by (simp add: slab_size_ok_def unat_word_ariths)
  then have "unat a + unat (sa_slab_size conf) \<le> 2 ^ 64" using a(3) raw by (simp add: fresh_block_def)
  then show ?thesis
    using a mask_slab [OF sz a(2)] by (simp add: sa_slab_create_def sa_aligned_mmap_def sa_allocator_find_slab_def)
qed

theorem sa_slab_create_owns_block_witness:
  "\<exists>slab s'. sa_slab_create \<lparr>sa_obj_align = 8, sa_obj_padded_size = 8, sa_slab_size = 8192, sa_slab_offset = 16,
       sa_slab_obj_mask = 0, sa_batch_capacity = 64, sa_batch_per_slab = 8, sa_alloc_store_capacity = 4,
       sa_cache_store_capacity = 2, sa_cache_acquire_amount = 1, sa_cache_release_amount = 1\<rparr> 7
     \<lparr>mmap_script = [SysOk 4096], mapped = \<lambda>_. False, slab_id = \<lambda>_. 0, sa_used_count = \<lambda>_. 0\<rparr> JFS_OK
     = Some (slab, s', JFS_OK) \<and> slab_id s' slab = 7"
proof -
  have "slab_size_ok 8192" by (simp add: slab_size_ok_def jfs_mlg_valid_align_def)
  moreover have "fresh_block 4096 (8192 * 2) \<lparr>mmap_script = [SysOk 4096], mapped = \<lambda>_. False, slab_id = \<lambda>_. 0, sa_used_count = \<lambda>_. 0\<rparr>"
    by (simp add: fresh_block_def)
  ultimately show ?thesis
    using sa_slab_create_owns_block [of "\<lparr>sa_obj_align = 8, sa_obj_padded_size = 8, sa_slab_size = 8192, sa_slab_offset = 16,
       sa_slab_obj_mask = 0, sa_batch_capacity = 64, sa_batch_per_slab = 8, sa_alloc_store_capacity = 4,
       sa_cache_store_capacity = 2, sa_cache_acquire_amount = 1, sa_cache_release_amount = 1\<rparr>"
       "\<lparr>mmap_script = [SysOk 4096], mapped = \<lambda>_. False, slab_id = \<lambda>_. 0, sa_used_count = \<lambda>_. 0\<rparr>" 4096 "[]" 7]
    by auto
qed

end
