(* ===== verification/Jfs_File_Io.thy ===== *)
theory Jfs_File_Io
  imports Jfs_Error
begin

text \<open>
  The file I/O module (\<open>src/src/modules/file_io.c\<close>, \<open>src/src/include/file_io.h\<close>): the retry loops
  around \<open>read\<close> and \<open>write\<close>, and paths and names with their lengths.

  The answers of the kernel to the successive system calls of a loop are a list, the
  script; a loop that has used up its script without returning is \<open>Running\<close>. A C string is
  the list of its characters before the terminating zero, so \<open>strlen\<close> is \<open>length\<close>; a null
  \<open>char *\<close> is \<open>None\<close>. \<open>PATH_MAX\<close> and \<open>NAME_MAX\<close> are the Linux values.
\<close>

section \<open>Data\<close>

definition PATH_MAX :: nat where "PATH_MAX = 4096"
definition NAME_MAX :: nat where "NAME_MAX = 255"

record jfs_fio_path_buf =
  buf_len :: nat
  buf_data :: string

record jfs_fio_path =
  path_len :: nat
  path_str :: "string option"

record jfs_fio_name =
  name_len :: nat
  name_str :: "string option"

definition path_zero :: jfs_fio_path where
  "path_zero = \<lparr>path_len = 0, path_str = None\<rparr>"

definition name_zero :: jfs_fio_name where
  "name_zero = \<lparr>name_len = 0, name_str = None\<rparr>"

datatype 'a run = Returned 'a | Running 'a

section \<open>Reading and writing\<close>

text \<open>
  An entry \<open>SysOk n\<close> of a write script says how many bytes the kernel is prepared to take;
  the call takes at most the number requested. Likewise an entry of a read script holds the
  bytes the kernel has, of which a call delivers at most the number requested; no bytes is
  the end of the file.
\<close>

definition sys_cap :: "nat \<Rightarrow> nat sys \<Rightarrow> nat sys" where
  "sys_cap req r = (case r of SysOk n \<Rightarrow> SysOk (min n req) | SysErr e \<Rightarrow> SysErr e)"

definition sys_bytes :: "nat \<Rightarrow> byte list sys \<Rightarrow> byte list" where
  "sys_bytes req r = (case r of SysOk bs \<Rightarrow> take req bs | SysErr _ \<Rightarrow> [])"

definition sys_count :: "nat \<Rightarrow> byte list sys \<Rightarrow> nat sys" where
  "sys_count req r = (case r of SysOk bs \<Rightarrow> SysOk (length (take req bs)) | SysErr e \<Rightarrow> SysErr e)"

text \<open>
  \<open>written\<close> is what has been appended to the file so far: a successful \<open>write\<close> of \<open>n\<close> bytes
  appends the \<open>n\<close> bytes at \<open>write_buf + total_written\<close>.
\<close>

fun fio_write_loop ::
  "nat sys list \<Rightarrow> byte list \<Rightarrow> nat \<Rightarrow> byte list \<Rightarrow> jfs_err_t \<Rightarrow> (nat \<times> byte list \<times> jfs_err_t) run" where
  "fio_write_loop script buf total_written written err =
     (if total_written < length buf
      then case script of
          [] \<Rightarrow> Running (total_written, written, err)
        | r # script \<Rightarrow>
            let r = sys_cap (length buf - total_written) r;
                (n, err) = jfs_write r err;
                written = (case r of SysOk k \<Rightarrow> written @ take k (drop total_written buf)
                                   | SysErr _ \<Rightarrow> written)
            in if err = JFS_ERR_INTER then fio_write_loop script buf total_written written err
               else if err \<noteq> JFS_OK then Returned (total_written, written, err)
               else fio_write_loop script buf (total_written + n) written err
      else Returned (total_written, written, err))"

definition jfs_fio_write ::
  "nat sys list \<Rightarrow> byte list \<Rightarrow> jfs_err_t \<Rightarrow> (nat \<times> byte list \<times> jfs_err_t) run" where
  "jfs_fio_write script buf err = fio_write_loop script buf 0 [] err"

definition store_at :: "byte list \<Rightarrow> nat \<Rightarrow> byte list \<Rightarrow> byte list" where
  "store_at buf pos bs = take pos buf @ bs @ drop (pos + length bs) buf"

fun fio_read_loop ::
  "byte list sys list \<Rightarrow> byte list \<Rightarrow> nat \<Rightarrow> jfs_err_t \<Rightarrow> (nat \<times> byte list \<times> jfs_err_t) run" where
  "fio_read_loop script buf total_read err =
     (if total_read < length buf
      then case script of
          [] \<Rightarrow> Running (total_read, buf, err)
        | r # script \<Rightarrow>
            let req = length buf - total_read;
                (n, err) = jfs_read (sys_count req r) err;
                buf = store_at buf total_read (sys_bytes req r)
            in if err = JFS_ERR_INTER then fio_read_loop script buf total_read err
               else if err \<noteq> JFS_OK then Returned (total_read, buf, err)
               else if n = 0 then Returned (total_read, buf, JFS_ERR_FIO_FILE_END)
               else fio_read_loop script buf (total_read + n) err
      else Returned (total_read, buf, err))"

definition jfs_fio_read ::
  "byte list sys list \<Rightarrow> byte list \<Rightarrow> jfs_err_t \<Rightarrow> (nat \<times> byte list \<times> jfs_err_t) run" where
  "jfs_fio_read script buf err = fio_read_loop script buf 0 err"

declare fio_write_loop.simps [simp del] fio_read_loop.simps [simp del]

section \<open>Paths and names\<close>

text \<open>\<open>strlcpy (dst, src, n)\<close>: at most \<open>n - 1\<close> characters.\<close>

definition strlcpy :: "string \<Rightarrow> nat \<Rightarrow> string" where
  "strlcpy src n = take (n - 1) src"

definition jfs_fio_path_init ::
  "jfs_fio_path \<Rightarrow> string \<Rightarrow> 'h heap_scheme \<Rightarrow> jfs_err_t \<Rightarrow> jfs_fio_path \<times> 'h heap_scheme \<times> jfs_err_t" where
  "jfs_fio_path_init path_init path_string h err =
     (let path_str_len = length path_string;
          path_str_len = (if path_str_len > 1 \<and> path_string ! (path_str_len - 1) = CHR ''/''
                          then path_str_len - 1 else path_str_len)
      in if path_str_len > PATH_MAX then (path_init, h, JFS_ERR_FIO_PATH_LEN)
         else let (new_str, h, err) = heap_malloc h err
              in if err \<noteq> JFS_OK then (path_init, h, err)
                 else (\<lparr>path_len = path_str_len,
                        path_str = Some (strlcpy path_string (path_str_len + 1))\<rparr>, h, err))"

definition jfs_fio_path_free ::
  "jfs_fio_path \<Rightarrow> 'h heap_scheme \<Rightarrow> jfs_fio_path \<times> 'h heap_scheme" where
  "jfs_fio_path_free path_free h = (path_zero, heap_free (path_str path_free = None) h)"

text \<open>The transfer functions return the new value of both arguments.\<close>

definition jfs_fio_path_transfer ::
  "jfs_fio_path \<Rightarrow> jfs_fio_path \<Rightarrow> jfs_fio_path \<times> jfs_fio_path" where
  "jfs_fio_path_transfer path_init path_free = (path_free, path_zero)"

definition jfs_fio_name_init ::
  "jfs_fio_name \<Rightarrow> string \<Rightarrow> 'h heap_scheme \<Rightarrow> jfs_err_t \<Rightarrow> jfs_fio_name \<times> 'h heap_scheme \<times> jfs_err_t" where
  "jfs_fio_name_init name_init name_string h err =
     (let name_str_len = length name_string
      in if name_str_len > NAME_MAX then (name_init, h, JFS_ERR_FIO_NAME_LEN)
         else let (new_str, h, err) = heap_malloc h err
              in if err \<noteq> JFS_OK then (name_init, h, err)
                 else (\<lparr>name_len = name_str_len,
                        name_str = Some (strlcpy name_string (name_str_len + 1))\<rparr>, h, err))"

definition jfs_fio_name_free ::
  "jfs_fio_name \<Rightarrow> 'h heap_scheme \<Rightarrow> jfs_fio_name \<times> 'h heap_scheme" where
  "jfs_fio_name_free name_free h = (name_zero, heap_free (name_str name_free = None) h)"

definition jfs_fio_name_transfer ::
  "jfs_fio_name \<Rightarrow> jfs_fio_name \<Rightarrow> jfs_fio_name \<times> jfs_fio_name" where
  "jfs_fio_name_transfer name_init name_free = (name_free, name_zero)"

definition jfs_fio_path_buf_clear :: "jfs_fio_path_buf \<Rightarrow> jfs_fio_path_buf" where
  "jfs_fio_path_buf_clear buf = \<lparr>buf_len = 0, buf_data = []\<rparr>"

text \<open>
  The two functions that fill a path buffer dereference the strings of their arguments;
  \<open>None\<close> is a null pointer there. \<open>sizeof (buf->data)\<close> is \<open>PATH_MAX + 1\<close>, and \<open>snprintf\<close>
  truncates to one character less.
\<close>

definition jfs_fio_path_buf_copy ::
  "jfs_fio_path_buf \<Rightarrow> jfs_fio_path \<Rightarrow> jfs_err_t \<Rightarrow> (jfs_fio_path_buf \<times> jfs_err_t) option" where
  "jfs_fio_path_buf_copy buf path err =
     (if path_len path = 0 then Some (buf, JFS_ERR_ARG)
      else do {
        let buf = jfs_fio_path_buf_clear buf;
        str \<leftarrow> path_str path;
        let buf = buf\<lparr>buf_data := strlcpy str (PATH_MAX + 1)\<rparr>;
        Some (buf\<lparr>buf_len := path_len path\<rparr>, err)
      })"

definition jfs_fio_path_buf_compose ::
  "jfs_fio_path_buf \<Rightarrow> jfs_fio_path \<Rightarrow> jfs_fio_name \<Rightarrow> jfs_err_t
     \<Rightarrow> (jfs_fio_path_buf \<times> jfs_err_t) option" where
  "jfs_fio_path_buf_compose buf path name err =
     (if path_len path = 0 then Some (buf, JFS_ERR_ARG)
      else let new_len = path_len path + name_len name + 1
           in if new_len > PATH_MAX then Some (buf, JFS_ERR_FIO_PATH_OVERFLOW)
              else do {
                let buf = jfs_fio_path_buf_clear buf;
                p \<leftarrow> path_str path;
                n \<leftarrow> name_str name;
                let buf = buf\<lparr>buf_data := take PATH_MAX (p @ ''/'' @ n)\<rparr>;
                Some (buf\<lparr>buf_len := new_len\<rparr>, err)
              })"

section \<open>Well-formed paths and names\<close>

definition path_wf :: "jfs_fio_path \<Rightarrow> string \<Rightarrow> bool" where
  "path_wf p s \<longleftrightarrow> p = \<lparr>path_len = length s, path_str = Some s\<rparr> \<and> length s \<le> PATH_MAX"

definition name_wf :: "jfs_fio_name \<Rightarrow> string \<Rightarrow> bool" where
  "name_wf n s \<longleftrightarrow> n = \<lparr>name_len = length s, name_str = Some s\<rparr> \<and> length s \<le> NAME_MAX"

text \<open>What \<open>jfs_fio_path_init\<close> stores: the path without one trailing slash.\<close>

definition trim_slash :: "string \<Rightarrow> string" where
  "trim_slash s = (if length s > 1 \<and> last s = CHR ''/'' then butlast s else s)"

lemma path_init_eq:
  "jfs_fio_path_init path s h err =
     (if length (trim_slash s) > PATH_MAX then (path, h, JFS_ERR_FIO_PATH_LEN)
      else let (_, h, err) = heap_malloc h err
           in if err \<noteq> JFS_OK then (path, h, err)
              else (\<lparr>path_len = length (trim_slash s), path_str = Some (trim_slash s)\<rparr>, h, JFS_OK))"
proof -
  have "s ! (length s - 1) = last s" if "length s > 1"
    using that by (metis last_conv_nth length_0_conv less_nat_zero_code)
  moreover have "take (length s - 1) s = butlast s" by (simp add: butlast_conv_take)
  ultimately show ?thesis
    by (auto simp: jfs_fio_path_init_def trim_slash_def strlcpy_def Let_def split: prod.splits)
qed

lemma path_init_wf:
  "jfs_fio_path_init path s h err = (p, h', JFS_OK) \<Longrightarrow> path_wf p (trim_slash s)"
  by (auto simp: path_init_eq path_wf_def Let_def split: if_splits prod.splits)

lemma name_init_wf:
  "jfs_fio_name_init name s h err = (n, h', JFS_OK) \<Longrightarrow> name_wf n s"
  by (auto simp: jfs_fio_name_init_def name_wf_def strlcpy_def Let_def split: if_splits prod.splits)

lemma compose_ok:
  assumes "path_wf p ps" and "name_wf n ns" and "ps \<noteq> []"
    and "length ps + length ns + 1 \<le> PATH_MAX"
  shows "jfs_fio_path_buf_compose buf p n err =
    Some (\<lparr>buf_len = length ps + length ns + 1, buf_data = ps @ ''/'' @ ns\<rparr>, err)"
  using assms by (simp add: jfs_fio_path_buf_compose_def path_wf_def name_wf_def
      jfs_fio_path_buf_clear_def)

lemma compose_overflow:
  assumes "path_wf p ps" and "name_wf n ns" and "ps \<noteq> []"
    and "length ps + length ns + 1 > PATH_MAX"
  shows "jfs_fio_path_buf_compose buf p n err = Some (buf, JFS_ERR_FIO_PATH_OVERFLOW)"
  using assms by (simp add: jfs_fio_path_buf_compose_def path_wf_def name_wf_def)


section \<open>Transfer loops\<close>

text \<open>
  What the loops over \<open>write\<close> and \<open>send\<close> have in common while no call fails: they end when the
  buffer is out, and a call that took \<open>n\<close> bytes moves on by \<open>n\<close>. Likewise for \<open>read\<close> and
  \<open>recv\<close>.
\<close>

locale out_loop =
  fixes loop :: "nat sys list \<Rightarrow> byte list \<Rightarrow> nat \<Rightarrow> byte list \<Rightarrow> (nat \<times> byte list \<times> jfs_err_t) run"
  assumes out_done: "length buf \<le> t \<Longrightarrow> loop sc buf t w = Returned (t, w, JFS_OK)"
    and out_ok: "t < length buf \<Longrightarrow> loop (SysOk n # sc) buf t w =
      loop sc buf (t + min n (length buf - t)) (w @ take n (drop t buf))"
begin

text \<open>The successful calls at the start of a script write a prefix of the buffer.\<close>

lemma out_prefix:
  assumes "t \<le> length buf"
  shows "loop (map SysOk ns @ sc) buf t w =
    (if length buf \<le> t + sum_list ns then Returned (length buf, w @ drop t buf, JFS_OK)
     else loop sc buf (t + sum_list ns) (w @ take (sum_list ns) (drop t buf)))"
  using assms
proof (induction ns arbitrary: t w)
  case Nil
  then show ?case by (auto simp: out_done)
next
  case (Cons n ns)
  show ?case
  proof (cases "t < length buf")
    case True
    let ?m = "min n (length buf - t)"
    have le: "t + ?m \<le> length buf" using True by simp
    have "take n (drop t buf) @ drop (t + ?m) buf = drop t buf"
      by (metis add.commute append_take_drop_id drop_drop length_drop min.commute take_all_iff
          min_def drop_all append_Nil2 nat_le_linear)
    moreover have "length buf \<le> t + ?m + sum_list ns \<longleftrightarrow> length buf \<le> t + (n + sum_list ns)"
      by (auto simp: min_def)
    moreover have "take n (drop t buf) @ take (sum_list ns) (drop (t + ?m) buf)
        = take (n + sum_list ns) (drop t buf)" if "\<not> length buf \<le> t + (n + sum_list ns)"
      using that by (simp add: take_add min_def add.commute)
    ultimately show ?thesis
      using True Cons.IH [OF le, of "w @ take n (drop t buf)"]
      by (auto simp: out_ok min_def add.assoc)
  next
    case False
    then show ?thesis using Cons.prems by (auto simp: out_done)
  qed
qed

end

lemma store_at_length: "pos + length bs \<le> length buf \<Longrightarrow> length (store_at buf pos bs) = length buf"
  by (simp add: store_at_def)

lemma store_at_nothing [simp]: "store_at buf pos [] = buf"
  by (simp add: store_at_def)

lemma store_at_store_at:
  "pos + length bs \<le> length buf \<Longrightarrow>
     store_at (store_at buf pos bs) (pos + length bs) cs = store_at buf pos (bs @ cs)"
  by (simp add: store_at_def ac_simps)

locale in_loop =
  fixes loop :: "byte list sys list \<Rightarrow> byte list \<Rightarrow> nat \<Rightarrow> (nat \<times> byte list \<times> jfs_err_t) run"
  assumes in_done: "length buf \<le> t \<Longrightarrow> loop sc buf t = Returned (t, buf, JFS_OK)"
    and in_ok: "t < length buf \<Longrightarrow> bs \<noteq> [] \<Longrightarrow> loop (SysOk bs # sc) buf t =
      (let bs = take (length buf - t) bs in loop sc (store_at buf t bs) (t + length bs))"
begin

text \<open>Deliveries that are not empty fill the buffer from the current position on.\<close>

lemma in_prefix:
  assumes "t \<le> length buf" and "[] \<notin> set cs"
  shows "loop (map SysOk cs @ sc) buf t =
    (if length buf \<le> t + length (concat cs)
     then Returned (length buf, take t buf @ take (length buf - t) (concat cs), JFS_OK)
     else loop sc (store_at buf t (concat cs)) (t + length (concat cs)))"
  using assms
proof (induction cs arbitrary: t buf)
  case Nil
  then show ?case by (auto simp: in_done)
next
  case (Cons c cs)
  let ?c = "take (length buf - t) c"
  let ?buf = "store_at buf t ?c"
  show ?case
  proof (cases "t < length buf")
    case True
    have le: "t + length ?c \<le> length buf" using True by simp
    then have len: "length ?buf = length buf" by (rule store_at_length)
    have step: "loop (map SysOk (c # cs) @ sc) buf t =
        loop (map SysOk cs @ sc) ?buf (t + length ?c)"
      using True Cons.prems(2) in_ok [of t buf c] by (auto simp: Let_def)
    have IH: "loop (map SysOk cs @ sc) ?buf (t + length ?c) =
      (if length buf \<le> t + length ?c + length (concat cs)
       then Returned (length buf, take (t + length ?c) ?buf
                @ take (length buf - (t + length ?c)) (concat cs), JFS_OK)
       else loop sc (store_at ?buf (t + length ?c) (concat cs))
              (t + length ?c + length (concat cs)))"
      using Cons.IH [of "t + length ?c" ?buf] Cons.prems(2) le by (simp only: len) simp
    have pre: "take (t + length ?c) ?buf = take t buf @ ?c"
      using True by (simp add: store_at_def min_def)
    show ?thesis
    proof (cases "length c \<le> length buf - t")
      case short: True
      then have c: "?c = c" by simp
      show ?thesis using True short
        by (simp only: step IH pre) (simp add: c store_at_store_at add.assoc)
    next
      case False
      then show ?thesis using True by (simp only: step IH pre) auto
    qed
  next
    case False
    then show ?thesis using Cons.prems by (auto simp: in_done)
  qed
qed

end

section \<open>The write loop\<close>

lemma write_loop_done: "length buf \<le> t \<Longrightarrow> fio_write_loop sc buf t w err = Returned (t, w, err)"
  by (subst fio_write_loop.simps) simp

lemma write_loop_end: "t < length buf \<Longrightarrow> fio_write_loop [] buf t w err = Running (t, w, err)"
  by (subst fio_write_loop.simps) simp

lemma write_loop_ok:
  "t < length buf \<Longrightarrow> fio_write_loop (SysOk n # sc) buf t w JFS_OK =
     fio_write_loop sc buf (t + min n (length buf - t)) (w @ take n (drop t buf)) JFS_OK"
  by (subst fio_write_loop.simps) (simp add: sys_cap_def jfs_write_def min_def)

lemma write_loop_after_inter:
  "t < length buf \<Longrightarrow> fio_write_loop (SysOk n # sc) buf t w JFS_ERR_INTER =
     fio_write_loop sc buf t (w @ take n (drop t buf)) JFS_ERR_INTER"
  by (subst fio_write_loop.simps) (simp add: sys_cap_def jfs_write_def min_def)

lemma write_loop_inter:
  "t < length buf \<Longrightarrow> fio_write_loop (SysErr EINTR # sc) buf t w err = fio_write_loop sc buf t w JFS_ERR_INTER"
  by (subst fio_write_loop.simps) (simp add: sys_cap_def jfs_write_def)

lemma write_loop_fail:
  "t < length buf \<Longrightarrow> e \<noteq> EINTR \<Longrightarrow> fio_write_loop (SysErr e # sc) buf t w JFS_OK =
     Returned (t, w, snd (jfs_write (SysErr e) JFS_OK))"
  by (subst fio_write_loop.simps) (auto simp: sys_cap_def jfs_write_def split: errno.splits)

lemma take_take_drop: "take t xs @ take n (drop t xs) = take (t + min n (length xs - t)) xs"
  by (simp add: take_add [symmetric] min_def)

interpretation write_out: out_loop "\<lambda>sc buf t w. fio_write_loop sc buf t w JFS_OK"
  by unfold_locales (simp_all add: write_loop_done write_loop_ok)

text \<open>Once \<open>err\<close> is \<open>JFS_ERR_INTER\<close>, successful calls no longer advance the loop.\<close>

lemma write_loop_stuck:
  "t < length buf \<Longrightarrow> fio_write_loop (map SysOk ms) buf t w JFS_ERR_INTER =
     Running (t, w @ concat (map (\<lambda>m. take m (drop t buf)) ms), JFS_ERR_INTER)"
  by (induction ms arbitrary: w) (auto simp: write_loop_end write_loop_after_inter)

text \<open>A successful return means the whole buffer was written, exactly once.\<close>

lemma write_loop_return_ok:
  assumes "fio_write_loop sc buf t w err = Returned (t', w', JFS_OK)" and "t \<le> length buf"
    and "err = JFS_OK \<Longrightarrow> w = take t buf" and "err = JFS_OK \<or> err = JFS_ERR_INTER"
    and "err = JFS_ERR_INTER \<Longrightarrow> t < length buf"
  shows "t' = length buf \<and> w' = buf"
  using assms
proof (induction sc arbitrary: t w err)
  case Nil
  then show ?case by (cases "t < length buf") (auto simp: write_loop_end write_loop_done)
next
  case (Cons r sc)
  show ?case
  proof (cases "t < length buf")
    case False
    then show ?thesis using Cons.prems by (auto simp: write_loop_done)
  next
    case True
    consider (inter) "r = SysErr EINTR" | (fail) e where "r = SysErr e" "e \<noteq> EINTR"
      | (ok) n where "r = SysOk n" "err = JFS_OK" | (stuck) n where "r = SysOk n" "err = JFS_ERR_INTER"
      using Cons.prems(4) by (cases r) auto
    then show ?thesis
    proof cases
      case inter
      then show ?thesis using Cons.IH [of t w JFS_ERR_INTER] Cons.prems True
        by (simp add: write_loop_inter)
    next
      case fail
      then have "fio_write_loop (r # sc) buf t w err = Returned (t, w, snd (jfs_write (SysErr e) err))"
        using True by (subst fio_write_loop.simps)
          (auto simp: sys_cap_def jfs_write_def split: errno.splits)
      then show ?thesis using Cons.prems(1) write_w.call_fail_err [of "SysErr e" err] by simp
    next
      case ok
      let ?m = "min n (length buf - t)"
      have w: "w @ take n (drop t buf) = take (t + ?m) buf"
        unfolding Cons.prems(3) [OF ok(2)] by (rule take_take_drop)
      have "fio_write_loop sc buf (t + ?m) (w @ take n (drop t buf)) JFS_OK = Returned (t', w', JFS_OK)"
        using Cons.prems(1) ok True by (simp only: write_loop_ok)
      moreover have "t + ?m \<le> length buf" using True by simp
      ultimately show ?thesis using Cons.IH w by blast
    next
      case stuck
      then have "fio_write_loop sc buf t (w @ take n (drop t buf)) JFS_ERR_INTER = Returned (t', w', JFS_OK)"
        using Cons.prems(1) True by (simp only: write_loop_after_inter)
      then show ?thesis using Cons.IH Cons.prems(2) True by blast
    qed
  qed
qed


section \<open>The read loop\<close>

lemma read_loop_done: "length buf \<le> t \<Longrightarrow> fio_read_loop sc buf t err = Returned (t, buf, err)"
  by (subst fio_read_loop.simps) simp

lemma read_loop_end: "t < length buf \<Longrightarrow> fio_read_loop [] buf t err = Running (t, buf, err)"
  by (subst fio_read_loop.simps) simp

lemma read_loop_ok:
  "t < length buf \<Longrightarrow> bs \<noteq> [] \<Longrightarrow> fio_read_loop (SysOk bs # sc) buf t JFS_OK =
     (let bs = take (length buf - t) bs
      in fio_read_loop sc (store_at buf t bs) (t + length bs) JFS_OK)"
  by (subst fio_read_loop.simps) (auto simp: sys_count_def sys_bytes_def jfs_read_def Let_def min_def)

lemma read_loop_eof:
  "t < length buf \<Longrightarrow> fio_read_loop (SysOk [] # sc) buf t JFS_OK = Returned (t, buf, JFS_ERR_FIO_FILE_END)"
  by (subst fio_read_loop.simps) (simp add: sys_count_def sys_bytes_def jfs_read_def)

lemma read_loop_inter:
  "t < length buf \<Longrightarrow> fio_read_loop (SysErr EINTR # sc) buf t err = fio_read_loop sc buf t JFS_ERR_INTER"
  by (subst fio_read_loop.simps) (simp add: sys_count_def sys_bytes_def jfs_read_def)

lemma read_loop_after_inter:
  "t < length buf \<Longrightarrow> fio_read_loop (SysOk bs # sc) buf t JFS_ERR_INTER =
     fio_read_loop sc (store_at buf t (take (length buf - t) bs)) t JFS_ERR_INTER"
  by (subst fio_read_loop.simps) (simp add: sys_count_def sys_bytes_def jfs_read_def)

lemma read_loop_fail:
  "t < length buf \<Longrightarrow> e \<noteq> EINTR \<Longrightarrow> fio_read_loop (SysErr e # sc) buf t JFS_OK =
     Returned (t, buf, snd (jfs_read (SysErr e) JFS_OK))"
  by (subst fio_read_loop.simps)
    (auto simp: sys_count_def sys_bytes_def jfs_read_def split: errno.splits)

interpretation read_in: in_loop "\<lambda>sc buf t. fio_read_loop sc buf t JFS_OK"
  by unfold_locales (simp_all add: read_loop_done read_loop_ok)

text \<open>After an interruption every delivery lands at the same place and is never counted.\<close>

lemma read_loop_stuck:
  "t < length buf \<Longrightarrow> \<exists>b. length b = length buf \<and> take t b = take t buf \<and>
     fio_read_loop (map SysOk cs) buf t JFS_ERR_INTER = Running (t, b, JFS_ERR_INTER)"
proof (induction cs arbitrary: buf)
  case Nil
  then show ?case by (auto simp: read_loop_end)
next
  case (Cons c cs)
  let ?buf = "store_at buf t (take (length buf - t) c)"
  have len: "length ?buf = length buf" using Cons.prems by (intro store_at_length) simp
  have "take t ?buf = take t buf" using Cons.prems by (simp add: store_at_def)
  with Cons.IH [of ?buf] Cons.prems show ?case by (simp add: len read_loop_after_inter)
qed


section \<open>Properties\<close>

text \<open>Without interruptions \<open>jfs_fio_write\<close> does what a caller expects of a full write. When
  the kernel accepts enough bytes in pieces of any size, it returns and the file has received
  the buffer, once and in order. When a call fails after some pieces, it returns the number
  of bytes the file has received, which are the first ones of the buffer, with an error.\<close>

theorem fio_write_outcomes:
  "(length buf \<le> sum_list ns \<longrightarrow>
     jfs_fio_write (map SysOk ns @ sc) buf JFS_OK = Returned (length buf, buf, JFS_OK)) \<and>
   (sum_list ns < length buf \<and> e \<noteq> EINTR \<longrightarrow>
     (\<exists>err. err \<noteq> JFS_OK \<and> jfs_fio_write (map SysOk ns @ SysErr e # sc) buf JFS_OK =
        Returned (sum_list ns, take (sum_list ns) buf, err)))"
  using write_out.out_prefix [of 0 buf ns _ "[]"] write_w.call_fail_err [of "SysErr e" JFS_OK]
  by (auto simp: jfs_fio_write_def write_loop_fail)

theorem fio_write_outcomes_witness:
  "jfs_fio_write [SysOk 1, SysOk 5] [7, 8, 9] JFS_OK = Returned (3, [7, 8, 9], JFS_OK)"
  using fio_write_outcomes [of "[7, 8, 9]" "[1, 5]" "[]" EPIPE] by simp

text \<open>C19. Whatever the kernel answers, interruptions included, a return of \<open>jfs_fio_write\<close>
  without an error means that the file has received the buffer, once and in order, and that
  the number returned is its size.\<close>

theorem fio_write_ok_whole:
  assumes "jfs_fio_write script buf JFS_OK = Returned (n, written, JFS_OK)"
  shows "n = length buf \<and> written = buf"
  using assms unfolding jfs_fio_write_def by (rule write_loop_return_ok) simp_all

theorem fio_write_ok_whole_witness:
  "jfs_fio_write [SysOk 2, SysOk 1] [7, 8, 9] JFS_OK = Returned (3, [7, 8, 9], JFS_OK) \<and>
   (3 :: nat) = length [7 :: byte, 8, 9]"
proof -
  have run: "jfs_fio_write [SysOk 2, SysOk 1] [7, 8, 9] JFS_OK = Returned (3, [7, 8, 9], JFS_OK)"
    by code_simp
  from fio_write_ok_whole [OF run] run show ?thesis by simp
qed

text \<open>After one interrupted call \<open>jfs_fio_write\<close> never returns while the kernel accepts
  data: \<open>err\<close> keeps \<open>JFS_ERR_INTER\<close>, so every later successful call is taken for an interrupted
  one, the position stays where it was, and the same bytes of the buffer are written to the
  file by every call.\<close>

theorem fio_write_interrupted_repeats:
  assumes "sum_list ns < length buf"
  shows "jfs_fio_write (map SysOk ns @ SysErr EINTR # map SysOk ms) buf JFS_OK =
    Running (sum_list ns,
             take (sum_list ns) buf @ concat (map (\<lambda>m. take m (drop (sum_list ns) buf)) ms),
             JFS_ERR_INTER)"
  using assms write_out.out_prefix [of 0 buf ns "SysErr EINTR # map SysOk ms" "[]"]
  by (simp add: jfs_fio_write_def write_loop_inter write_loop_stuck)

theorem fio_write_interrupted_repeats_witness:
  "jfs_fio_write [SysOk 1, SysErr EINTR, SysOk 2, SysOk 2, SysOk 2] [7, 8, 9] JFS_OK =
    Running (1, [7, 8, 9, 8, 9, 8, 9], JFS_ERR_INTER)"
  using fio_write_interrupted_repeats [of "[1]" "[7, 8, 9]" "[2, 2, 2]"] by simp

text \<open>C32. Without interruptions \<open>jfs_fio_read\<close> collects the deliveries of the kernel. When they
  are enough, the buffer holds the first bytes of the stream and the size of the buffer is
  returned. When the stream ends or a call fails before that, the buffer holds what came in
  front of its old contents, the number of these bytes is returned, and the error is
  \<open>JFS_ERR_FIO_FILE_END\<close> or that of the call.\<close>

theorem fio_read_outcomes:
  assumes "[] \<notin> set cs"
  shows "(length buf \<le> length (concat cs) \<longrightarrow>
      jfs_fio_read (map SysOk cs @ sc) buf JFS_OK =
        Returned (length buf, take (length buf) (concat cs), JFS_OK)) \<and>
    (length (concat cs) < length buf \<longrightarrow>
      jfs_fio_read (map SysOk cs @ SysOk [] # sc) buf JFS_OK =
        Returned (length (concat cs), concat cs @ drop (length (concat cs)) buf, JFS_ERR_FIO_FILE_END)) \<and>
    (length (concat cs) < length buf \<and> e \<noteq> EINTR \<longrightarrow>
      (\<exists>err. err \<noteq> JFS_OK \<and> jfs_fio_read (map SysOk cs @ SysErr e # sc) buf JFS_OK =
        Returned (length (concat cs), concat cs @ drop (length (concat cs)) buf, err)))"
proof -
  have "jfs_fio_read (map SysOk cs @ r # sc) buf JFS_OK =
      fio_read_loop (r # sc) (concat cs @ drop (length (concat cs)) buf) (length (concat cs)) JFS_OK"
    if "length (concat cs) < length buf" for r
    using that read_in.in_prefix [of 0 buf cs "r # sc"] assms
    by (simp add: jfs_fio_read_def store_at_def)
  then show ?thesis
    using read_in.in_prefix [of 0 buf cs sc] assms read_w.call_fail_err [of "SysErr e" JFS_OK]
    by (auto simp: jfs_fio_read_def read_loop_eof read_loop_fail)
qed

theorem fio_read_outcomes_witness:
  "jfs_fio_read [SysOk [7], SysOk [8, 9, 10]] [0, 0, 0] JFS_OK = Returned (3, [7, 8, 9], JFS_OK) \<and>
   jfs_fio_read [SysOk [7], SysOk [8], SysOk []] [0, 0, 0] JFS_OK =
     Returned (2, [7, 8, 0], JFS_ERR_FIO_FILE_END)"
  using fio_read_outcomes [of "[[7], [8, 9, 10]]" "[0, 0, 0]" "[]" EPIPE]
    fio_read_outcomes [of "[[7], [8]]" "[0, 0, 0]" "[]" EPIPE] by simp

text \<open>A path or a name that was initialised without an error has its length in \<open>len\<close>, within
  \<open>PATH_MAX\<close> or \<open>NAME_MAX\<close>, and its string is the argument, without one trailing slash for a path.
  Composing them in a buffer gives \<open>path/name\<close> and its length when this fits into \<open>PATH_MAX\<close>, and
  \<open>JFS_ERR_FIO_PATH_OVERFLOW\<close> with an unchanged buffer otherwise.\<close>

theorem fio_compose_initialised:
  assumes "jfs_fio_path_init p0 ps h JFS_OK = (p, h', JFS_OK)"
    and "jfs_fio_name_init n0 ns k JFS_OK = (n, k', JFS_OK)" and "ps \<noteq> []"
  shows "jfs_fio_path_buf_compose buf p n JFS_OK =
    (let full = trim_slash ps @ ''/'' @ ns
     in if length full \<le> PATH_MAX then Some (\<lparr>buf_len = length full, buf_data = full\<rparr>, JFS_OK)
        else Some (buf, JFS_ERR_FIO_PATH_OVERFLOW))"
proof -
  have "trim_slash ps \<noteq> []" using assms(3) by (cases ps) (auto simp: trim_slash_def)
  then show ?thesis
    using compose_ok [OF path_init_wf [OF assms(1)] name_init_wf [OF assms(2)]]
      compose_overflow [OF path_init_wf [OF assms(1)] name_init_wf [OF assms(2)]]
    by (cases "length (trim_slash ps) + length ns + 1 \<le> PATH_MAX") (simp_all add: Let_def)
qed

theorem fio_compose_initialised_witness:
  "let h = \<lparr>alloc_script = [], live = 0\<rparr>;
       (p, h, _) = jfs_fio_path_init path_zero ''/a/'' h JFS_OK;
       (n, h, _) = jfs_fio_name_init name_zero ''b'' h JFS_OK
   in jfs_fio_path_buf_compose \<lparr>buf_len = 0, buf_data = []\<rparr> p n JFS_OK =
      Some (\<lparr>buf_len = 4, buf_data = ''/a/b''\<rparr>, JFS_OK)"
proof -
  let ?h = "\<lparr>alloc_script = [], live = 0\<rparr>"
  have p: "jfs_fio_path_init path_zero ''/a/'' ?h JFS_OK =
      (\<lparr>path_len = 2, path_str = Some ''/a''\<rparr>, \<lparr>alloc_script = [], live = 1\<rparr>, JFS_OK)" by code_simp
  have n: "jfs_fio_name_init name_zero ''b'' \<lparr>alloc_script = [], live = 1\<rparr> JFS_OK =
      (\<lparr>name_len = 1, name_str = Some ''b''\<rparr>, \<lparr>alloc_script = [], live = 2\<rparr>, JFS_OK)" by code_simp
  from fio_compose_initialised [OF p n, of "\<lparr>buf_len = 0, buf_data = []\<rparr>"] p n show ?thesis
    by (simp add: trim_slash_def PATH_MAX_def)
qed

end
