(* ===== verification/Jfs_Net_Socket.thy ===== *)
theory Jfs_Net_Socket
  imports Jfs_File_Io
begin

text \<open>
  The socket module (\<open>src/src/modules/net_socket.c\<close>): TCP sockets with an address, the retry
  loops around \<open>bind\<close>, \<open>accept\<close> and \<open>connect\<close>, and the transfer loops around \<open>recv\<close> and \<open>send\<close>.

  Descriptors and address lists are counted in the world beside the live blocks. As for
  files, the answers of the kernel to the successive calls of a loop are its script, and a
  loop that has used it up is \<open>Running\<close>. What \<open>inet_pton\<close> makes of an address string and what
  \<open>getaddrinfo\<close> answers are arguments.
\<close>

section \<open>Data\<close>

definition AF_INET :: "16 word" where "AF_INET = 2"
definition sockaddr_in_size :: nat where "sockaddr_in_size = 16"

record sockaddr_in =
  sin_family :: "16 word"
  sin_port :: "16 word"
  sin_addr :: u32

definition sockaddr_zero :: sockaddr_in where
  "sockaddr_zero = \<lparr>sin_family = 0, sin_port = 0, sin_addr = 0\<rparr>"

record jfs_ns_socket =
  sock_fd :: int
  sock_addr :: sockaddr_in

record addrinfo =
  ai_family :: "16 word"
  ai_addrlen :: nat
  ai_addr :: sockaddr_in

record ns_world = heap +
  open_fds :: int
  addr_lists :: int

text \<open>Network byte order on a little-endian machine.\<close>

definition htons :: "16 word \<Rightarrow> 16 word" where
  "htons x = or (push_bit 8 x) (drop_bit 8 x)"

definition fd_opened :: "'a sys \<Rightarrow> ns_world \<Rightarrow> ns_world" where
  "fd_opened r w = (case r of SysOk _ \<Rightarrow> w\<lparr>open_fds := open_fds w + 1\<rparr> | SysErr _ \<Rightarrow> w)"

definition fd_closed :: "ns_world \<Rightarrow> ns_world" where
  "fd_closed w = w\<lparr>open_fds := open_fds w - 1\<rparr>"

section \<open>Sockets\<close>

definition jfs_ns_socket_create :: "ns_world \<Rightarrow> jfs_err_t \<Rightarrow> jfs_ns_socket option \<times> ns_world \<times> jfs_err_t" where
  "jfs_ns_socket_create w err =
     (let (p, w, err) = heap_malloc w err
      in if err \<noteq> JFS_OK then (None, w, err)
         else (Some \<lparr>sock_fd = -1, sock_addr = sockaddr_zero\<rparr>, w, err))"

definition jfs_ns_socket_open ::
  "int sys \<Rightarrow> jfs_ns_socket \<Rightarrow> ns_world \<Rightarrow> jfs_err_t \<Rightarrow> jfs_ns_socket \<times> ns_world \<times> jfs_err_t" where
  "jfs_ns_socket_open r sock w err =
     (let (new_fd, err) = jfs_socket r err; w = fd_opened r w
      in if err \<noteq> JFS_OK then (sock, w, err) else (sock\<lparr>sock_fd := new_fd\<rparr>, w, err))"

text \<open>Linux releases the descriptor whatever \<open>close\<close> returns.\<close>

definition jfs_ns_socket_close ::
  "unit sys \<Rightarrow> jfs_ns_socket option \<Rightarrow> ns_world \<Rightarrow> jfs_err_t \<Rightarrow> jfs_ns_socket option \<times> ns_world \<times> jfs_err_t" where
  "jfs_ns_socket_close r sock w err =
     (case sock of
        None \<Rightarrow> (None, w, err)
      | Some s \<Rightarrow>
          if sock_fd s = -1 then (Some s, w, err)
          else (Some (s\<lparr>sock_fd := -1\<rparr>), fd_closed w, jfs_close r err))"

definition jfs_ns_socket_destroy :: "jfs_ns_socket option \<Rightarrow> ns_world \<Rightarrow> jfs_ns_socket option \<times> ns_world" where
  "jfs_ns_socket_destroy sock_give w =
     (case sock_give of
        None \<Rightarrow> (None, w)
      | Some s \<Rightarrow>
          let w = (if sock_fd s \<noteq> -1 then fd_closed w else w)
          in (None, heap_free False w))"

definition jfs_ns_socket_shutdown :: "unit sys \<Rightarrow> jfs_err_t \<Rightarrow> jfs_err_t" where
  "jfs_ns_socket_shutdown r err = jfs_shutdown r err"

definition jfs_ns_socket_set_ip ::
  "(string \<Rightarrow> u32 option) \<Rightarrow> jfs_ns_socket \<Rightarrow> 16 word \<Rightarrow> string \<Rightarrow> jfs_err_t \<Rightarrow> jfs_ns_socket \<times> jfs_err_t" where
  "jfs_ns_socket_set_ip pton sock server_port server_ip err =
     (if server_port \<le> 1024 then (sock, JFS_ERR_ARG)
      else let addr_in = sockaddr_zero\<lparr>sin_family := AF_INET, sin_port := htons server_port\<rparr>
           in case pton server_ip of
                None \<Rightarrow> (sock, JFS_ERR_ARG)
              | Some a \<Rightarrow> (sock\<lparr>sock_addr := addr_in\<lparr>sin_addr := a\<rparr>\<rparr>, err))"

text \<open>\<open>memcpy\<close> copies a whole address, since the length was just checked.\<close>

definition jfs_ns_socket_set_hostname ::
  "eai + addrinfo \<Rightarrow> jfs_ns_socket \<Rightarrow> 16 word \<Rightarrow> ns_world \<Rightarrow> jfs_err_t \<Rightarrow> jfs_ns_socket \<times> ns_world \<times> jfs_err_t" where
  "jfs_ns_socket_set_hostname lookup sock server_port w err =
     (if server_port \<le> 1024 then (sock, w, JFS_ERR_ARG)
      else let (result, err) = jfs_getaddrinfo lookup err;
               w = (if result \<noteq> None then w\<lparr>addr_lists := addr_lists w + 1\<rparr> else w)
           in if err \<noteq> JFS_OK then (sock, w, err)
              else case result of
                None \<Rightarrow> (sock, w, err)
              | Some ai \<Rightarrow>
                  let freed = w\<lparr>addr_lists := addr_lists w - 1\<rparr>
                  in if ai_family ai \<noteq> AF_INET \<or> ai_addrlen ai \<noteq> sockaddr_in_size
                     then (sock, freed, JFS_ERR_NS_BAD_ADDR)
                     else (sock\<lparr>sock_addr := ai_addr ai\<rparr>, freed, err))"

text \<open>\<open>do { if (*err == JFS_ERR_INTER) RES_ERR; call } while (*err == JFS_ERR_INTER)\<close>\<close>

fun ns_retry :: "('r \<Rightarrow> jfs_err_t \<Rightarrow> 'b \<times> jfs_err_t) \<Rightarrow> 'r list \<Rightarrow> jfs_err_t \<Rightarrow> ('r \<times> 'b \<times> jfs_err_t) option" where
  "ns_retry call [] err = None"
| "ns_retry call (r # script) err =
     (let err = (if err = JFS_ERR_INTER then RES_ERR err else err);
          (b, err) = call r err
      in if err = JFS_ERR_INTER then ns_retry call script err else Some (r, b, err))"

definition jfs_ns_socket_bind :: "unit sys list \<Rightarrow> jfs_err_t \<Rightarrow> jfs_err_t option" where
  "jfs_ns_socket_bind script err = map_option (snd \<circ> snd) (ns_retry (\<lambda>r err. ((), jfs_bind r err)) script err)"

definition jfs_ns_socket_listen :: "unit sys \<Rightarrow> jfs_err_t \<Rightarrow> jfs_err_t" where
  "jfs_ns_socket_listen r err = jfs_listen r err"

text \<open>
  An answer to \<open>accept\<close> carries the descriptor, and the address and length the kernel stores.
\<close>

fun ns_accept_call ::
  "(int \<times> sockaddr_in \<times> nat) sys \<Rightarrow> jfs_err_t \<Rightarrow> int \<times> jfs_err_t" where
  "ns_accept_call (SysOk (fd, addr, len)) err = jfs_accept (SysOk fd) err"
| "ns_accept_call (SysErr e) err = jfs_accept (SysErr e) err"

definition jfs_ns_socket_accept ::
  "(int \<times> sockaddr_in \<times> nat) sys list \<Rightarrow> ns_world \<Rightarrow> jfs_err_t
     \<Rightarrow> (jfs_ns_socket option \<times> ns_world \<times> jfs_err_t) option" where
  "jfs_ns_socket_accept script w err =
     (let (sock, w, err) = jfs_ns_socket_create w err
      in if err \<noteq> JFS_OK then Some (None, w, err)
      else do {
        accept_sock \<leftarrow> sock;
        (r, fd, err) \<leftarrow> ns_retry ns_accept_call script err;
        let w = fd_opened r w;
        let accept_sock = accept_sock\<lparr>sock_fd := fd\<rparr>;
        let (accept_sock, addrlen) =
          (case r of SysOk (_, addr, len) \<Rightarrow> (accept_sock\<lparr>sock_addr := addr\<rparr>, len)
                   | SysErr _ \<Rightarrow> (accept_sock, sockaddr_in_size));
        if err \<noteq> JFS_OK
        then let (_, w) = jfs_ns_socket_destroy (Some accept_sock) w in Some (None, w, err)
        else if sin_family (sock_addr accept_sock) \<noteq> AF_INET \<or> addrlen \<noteq> sockaddr_in_size
        then let (_, w) = jfs_ns_socket_destroy (Some accept_sock) w in Some (None, w, JFS_ERR_NS_BAD_ACCEPT)
        else Some (Some accept_sock, w, err)
      })"

definition jfs_ns_socket_connect :: "unit sys list \<Rightarrow> jfs_err_t \<Rightarrow> jfs_err_t option" where
  "jfs_ns_socket_connect script err =
     map_option (snd \<circ> snd) (ns_retry (\<lambda>r err. ((), jfs_connect r err)) script err)"

section \<open>Receiving and sending\<close>

fun ns_recv_loop ::
  "byte list sys list \<Rightarrow> byte list \<Rightarrow> nat \<Rightarrow> jfs_err_t \<Rightarrow> (nat \<times> byte list \<times> jfs_err_t) run" where
  "ns_recv_loop script buf total_received err =
     (if total_received < length buf
      then case script of
          [] \<Rightarrow> Running (total_received, buf, err)
        | r # script \<Rightarrow>
            let req = length buf - total_received;
                (size_received, err) = jfs_recv (sys_count req r) err;
                buf = store_at buf total_received (sys_bytes req r)
            in if err = JFS_ERR_INTER then ns_recv_loop script buf total_received (RES_ERR err)
               else if err \<noteq> JFS_OK then Returned (total_received, buf, err)
               else if size_received = 0 then Returned (total_received, buf, JFS_ERR_NS_CONNECTION_CLOSE)
               else ns_recv_loop script buf (total_received + size_received) err
      else Returned (total_received, buf, err))"

definition jfs_ns_socket_recv ::
  "byte list sys list \<Rightarrow> byte list \<Rightarrow> jfs_err_t \<Rightarrow> (nat \<times> byte list \<times> jfs_err_t) run" where
  "jfs_ns_socket_recv script buf err = ns_recv_loop script buf 0 err"

fun ns_send_loop ::
  "nat sys list \<Rightarrow> byte list \<Rightarrow> nat \<Rightarrow> byte list \<Rightarrow> jfs_err_t \<Rightarrow> (nat \<times> byte list \<times> jfs_err_t) run" where
  "ns_send_loop script buf total_sent sent err =
     (if total_sent < length buf
      then case script of
          [] \<Rightarrow> Running (total_sent, sent, err)
        | r # script \<Rightarrow>
            let r = sys_cap (length buf - total_sent) r;
                (size_sent, err) = jfs_send r err;
                sent = (case r of SysOk k \<Rightarrow> sent @ take k (drop total_sent buf) | SysErr _ \<Rightarrow> sent)
            in if err = JFS_ERR_INTER then ns_send_loop script buf total_sent sent (RES_ERR err)
               else if err \<noteq> JFS_OK then Returned (total_sent, sent, err)
               else ns_send_loop script buf (total_sent + size_sent) sent err
      else Returned (total_sent, sent, err))"

definition jfs_ns_socket_send ::
  "nat sys list \<Rightarrow> byte list \<Rightarrow> jfs_err_t \<Rightarrow> (nat \<times> byte list \<times> jfs_err_t) run" where
  "jfs_ns_socket_send script buf err = ns_send_loop script buf 0 [] err"

declare ns_recv_loop.simps [simp del] ns_send_loop.simps [simp del]

section \<open>The transfer loops\<close>

text \<open>
  Beyond the contract of a transfer loop, these pass over interruptions, return at any other
  failure with what is done so far, and wait when the kernel has not answered yet.
\<close>

locale robust_out_loop = out_loop +
  assumes out_inter: "t < length buf \<Longrightarrow> loop (SysErr EINTR # sc) buf t w = loop sc buf t w"
    and out_fail: "t < length buf \<Longrightarrow> e \<noteq> EINTR \<Longrightarrow>
      \<exists>err. err \<noteq> JFS_OK \<and> (\<forall>sc w. loop (SysErr e # sc) buf t w = Returned (t, w, err))"
    and out_wait: "t < length buf \<Longrightarrow> loop [] buf t w = Running (t, w, JFS_OK)"
begin

lemma out_ignores_interrupts:
  "t \<le> length buf \<Longrightarrow> loop sc buf t w = loop (filter (\<lambda>r. r \<noteq> SysErr EINTR) sc) buf t w"
proof (induction sc arbitrary: t w)
  case (Cons r sc)
  show ?case
  proof (cases "t < length buf")
    case True
    show ?thesis
    proof (cases r)
      case (SysOk n)
      with True Cons.IH [of "t + min n (length buf - t)", symmetric] show ?thesis by (simp add: out_ok)
    next
      case (SysErr e)
      with True Cons.IH [OF Cons.prems, symmetric] out_fail [OF True, of e] show ?thesis
        by (cases "e = EINTR") (auto simp: out_inter)
    qed
  qed (simp add: out_done)
qed simp

lemma out_result_prefix:
  "loop sc buf t (take t buf) = Returned (n, sent, err) \<Longrightarrow> t \<le> length buf \<Longrightarrow>
     n \<le> length buf \<and> sent = take n buf \<and> (err = JFS_OK \<longrightarrow> n = length buf)"
proof (induction sc arbitrary: t)
  case Nil
  then show ?case by (cases "t < length buf") (auto simp: out_done out_wait)
next
  case (Cons r sc)
  show ?case
  proof (cases "t < length buf")
    case True
    show ?thesis
    proof (cases r)
      case (SysOk k)
      let ?t = "t + min k (length buf - t)"
      have "loop sc buf ?t (take ?t buf) = Returned (n, sent, err)"
        using Cons.prems(1) True SysOk by (simp only: out_ok take_take_drop)
      moreover have "?t \<le> length buf" using True by simp
      ultimately show ?thesis by (rule Cons.IH)
    next
      case (SysErr e)
      show ?thesis
      proof (cases "e = EINTR")
        case inter: True
        then have "loop sc buf t (take t buf) = Returned (n, sent, err)"
          using Cons.prems(1) True SysErr by (simp only: out_inter)
        then show ?thesis using Cons.prems(2) by (rule Cons.IH)
      next
        case False
        then show ?thesis using Cons.prems out_fail [OF True False] SysErr by auto
      qed
    qed
  qed (use Cons.prems in \<open>auto simp: out_done\<close>)
qed

end

locale robust_in_loop = in_loop +
  assumes in_inter: "t < length buf \<Longrightarrow> loop (SysErr EINTR # sc) buf t = loop sc buf t"
    and in_fail: "t < length buf \<Longrightarrow> e \<noteq> EINTR \<Longrightarrow> loop (SysErr e # sc) buf t = loop [SysErr e] buf t"
    and in_eof: "t < length buf \<Longrightarrow> loop (SysOk [] # sc) buf t = Returned (t, buf, JFS_ERR_NS_CONNECTION_CLOSE)"
begin

lemma in_ignores_interrupts:
  "t \<le> length buf \<Longrightarrow> loop sc buf t = loop (filter (\<lambda>r. r \<noteq> SysErr EINTR) sc) buf t"
proof (induction sc arbitrary: t buf)
  case (Cons r sc)
  show ?case
  proof (cases "t < length buf")
    case True
    show ?thesis
    proof (cases r)
      case (SysOk bs)
      let ?bs = "take (length buf - t) bs"
      have le: "t + length ?bs \<le> length buf" using True by simp
      have "length (store_at buf t ?bs) = length buf" by (rule store_at_length [OF le])
      with le have "t + length ?bs \<le> length (store_at buf t ?bs)" by simp
      from Cons.IH [OF this, symmetric] True SysOk show ?thesis
        by (cases "bs = []") (auto simp: in_ok in_eof Let_def)
    next
      case (SysErr e)
      show ?thesis
      proof (cases "e = EINTR")
        case True
        then show ?thesis using Cons.IH [OF Cons.prems, symmetric] \<open>t < length buf\<close> SysErr by (simp add: in_inter)
      next
        case False
        then show ?thesis
          using in_fail [OF \<open>t < length buf\<close> False, of sc] SysErr
            in_fail [OF \<open>t < length buf\<close> False, of "filter (\<lambda>r. r \<noteq> SysErr EINTR) sc"] by simp
      qed
    qed
  qed (simp add: in_done)
qed simp

end

interpretation send_out: robust_out_loop "\<lambda>sc buf t w. ns_send_loop sc buf t w JFS_OK"
proof
  fix sc :: "nat sys list" and buf w :: "byte list" and t n :: nat and e
  show "length buf \<le> t \<Longrightarrow> ns_send_loop sc buf t w JFS_OK = Returned (t, w, JFS_OK)"
    by (subst ns_send_loop.simps) simp
  show "t < length buf \<Longrightarrow> ns_send_loop (SysOk n # sc) buf t w JFS_OK =
      ns_send_loop sc buf (t + min n (length buf - t)) (w @ take n (drop t buf)) JFS_OK"
    by (subst ns_send_loop.simps) (simp add: sys_cap_def jfs_send_def min_def)
  show "t < length buf \<Longrightarrow> ns_send_loop (SysErr EINTR # sc) buf t w JFS_OK = ns_send_loop sc buf t w JFS_OK"
    by (subst ns_send_loop.simps) (simp add: sys_cap_def jfs_send_def RES_ERR_def)
  show "t < length buf \<Longrightarrow> ns_send_loop [] buf t w JFS_OK = Running (t, w, JFS_OK)"
    by (subst ns_send_loop.simps) simp
  assume "t < length buf" "e \<noteq> EINTR"
  then have "ns_send_loop (SysErr e # sc) buf t w JFS_OK = Returned (t, w, snd (jfs_send (SysErr e) JFS_OK))" for sc w
    by (subst ns_send_loop.simps) (auto simp: sys_cap_def jfs_send_def split: errno.splits)
  then show "\<exists>err. err \<noteq> JFS_OK \<and> (\<forall>sc w. ns_send_loop (SysErr e # sc) buf t w JFS_OK = Returned (t, w, err))"
    using send_w.call_fail_err [of "SysErr e" JFS_OK] by auto
qed

interpretation recv_in: robust_in_loop "\<lambda>sc buf t. ns_recv_loop sc buf t JFS_OK"
proof
  fix sc :: "byte list sys list" and buf bs :: "byte list" and t :: nat and e
  show "length buf \<le> t \<Longrightarrow> ns_recv_loop sc buf t JFS_OK = Returned (t, buf, JFS_OK)"
    by (subst ns_recv_loop.simps) simp
  show "t < length buf \<Longrightarrow> bs \<noteq> [] \<Longrightarrow> ns_recv_loop (SysOk bs # sc) buf t JFS_OK =
      (let bs = take (length buf - t) bs in ns_recv_loop sc (store_at buf t bs) (t + length bs) JFS_OK)"
    by (subst ns_recv_loop.simps) (auto simp: sys_count_def sys_bytes_def jfs_recv_def Let_def min_def)
  show "t < length buf \<Longrightarrow> ns_recv_loop (SysErr EINTR # sc) buf t JFS_OK = ns_recv_loop sc buf t JFS_OK"
    by (subst ns_recv_loop.simps) (simp add: sys_count_def sys_bytes_def jfs_recv_def RES_ERR_def)
  show "t < length buf \<Longrightarrow> ns_recv_loop (SysOk [] # sc) buf t JFS_OK = Returned (t, buf, JFS_ERR_NS_CONNECTION_CLOSE)"
    by (subst ns_recv_loop.simps) (simp add: sys_count_def sys_bytes_def jfs_recv_def)
  assume "t < length buf" "e \<noteq> EINTR"
  then have "ns_recv_loop (SysErr e # sc) buf t JFS_OK = Returned (t, buf, snd (jfs_recv (SysErr e) JFS_OK))" for sc
    by (subst ns_recv_loop.simps) (auto simp: sys_count_def sys_bytes_def jfs_recv_def split: errno.splits)
  then show "ns_recv_loop (SysErr e # sc) buf t JFS_OK = ns_recv_loop [SysErr e] buf t JFS_OK" by simp
qed


section \<open>The retry loops\<close>

text \<open>The retry loops skip the interrupted calls and answer as the first other one.\<close>

lemma retry_skips:
  assumes "\<forall>r\<in>set rs. snd (call r JFS_OK) = JFS_ERR_INTER" and "snd (call r JFS_OK) \<noteq> JFS_ERR_INTER"
  shows "err = JFS_OK \<or> err = JFS_ERR_INTER \<Longrightarrow> ns_retry call (rs @ r # sc) err = Some (r, call r JFS_OK)"
  using assms(1)
proof (induction rs arbitrary: err)
  case Nil
  then show ?case using assms(2) by (auto simp: RES_ERR_def split: prod.splits)
next
  case (Cons x rs)
  then have "snd (call x JFS_OK) = JFS_ERR_INTER" by simp
  moreover have "ns_retry call (rs @ r # sc) JFS_ERR_INTER = Some (r, call r JFS_OK)"
    using Cons by simp
  ultimately show ?case using Cons.prems(1) by (auto simp: RES_ERR_def split: prod.splits)
qed

lemma send_complete:
  assumes "filter (\<lambda>r. r \<noteq> SysErr EINTR) ssc = map SysOk ns" and "length buf \<le> sum_list ns"
  shows "jfs_ns_socket_send ssc buf JFS_OK = Returned (length buf, buf, JFS_OK)"
  using send_out.out_ignores_interrupts [of 0 buf ssc "[]"] send_out.out_prefix [of 0 buf ns "[]" "[]"] assms
  by (simp add: jfs_ns_socket_send_def)

lemma recv_complete:
  assumes "filter (\<lambda>r. r \<noteq> SysErr EINTR) rsc = map SysOk cs" and "[] \<notin> set cs" and "length rbuf = length (concat cs)"
  shows "jfs_ns_socket_recv rsc rbuf JFS_OK = Returned (length rbuf, concat cs, JFS_OK)"
  using recv_in.in_ignores_interrupts [of 0 rbuf rsc] recv_in.in_prefix [of 0 rbuf cs "[]"] assms
  by (simp add: jfs_ns_socket_recv_def)

lemma retry_answer:
  assumes "ns_retry call sc err = Some (r, b, e)" and "err = JFS_OK \<or> err = JFS_ERR_INTER"
  shows "r \<in> set sc \<and> call r JFS_OK = (b, e) \<and> e \<noteq> JFS_ERR_INTER"
  using assms
proof (induction sc arbitrary: err)
  case (Cons x sc)
  then show ?case by (auto simp: RES_ERR_def split: prod.splits if_splits)
qed simp

section \<open>Properties\<close>

text \<open>C33. Interruptions are invisible to \<open>jfs_ns_socket_send\<close> and \<open>jfs_ns_socket_recv\<close>: with any answers of
  the kernel they do what they would do had the interrupted calls not been made.\<close>

theorem ns_transfer_ignores_interrupts:
  "jfs_ns_socket_send ssc sbuf JFS_OK = jfs_ns_socket_send (filter (\<lambda>r. r \<noteq> SysErr EINTR) ssc) sbuf JFS_OK \<and>
   jfs_ns_socket_recv rsc rbuf JFS_OK = jfs_ns_socket_recv (filter (\<lambda>r. r \<noteq> SysErr EINTR) rsc) rbuf JFS_OK"
  unfolding jfs_ns_socket_send_def jfs_ns_socket_recv_def
  by (intro conjI send_out.out_ignores_interrupts recv_in.in_ignores_interrupts) simp_all

text \<open>Whenever \<open>jfs_ns_socket_send\<close> returns, the bytes that went out are the first ones of the
  buffer, their number is the value returned, and they are the whole buffer if there is no
  error.\<close>

theorem ns_send_prefix:
  assumes "jfs_ns_socket_send script buf JFS_OK = Returned (n, sent, err)"
  shows "n \<le> length buf \<and> sent = take n buf \<and> (err = JFS_OK \<longrightarrow> n = length buf)"
  using assms send_out.out_result_prefix [of script buf 0 n sent err] by (simp add: jfs_ns_socket_send_def)

theorem ns_send_prefix_witness:
  "jfs_ns_socket_send [SysOk 1, SysErr EINTR, SysErr EPIPE] [7, 8, 9] JFS_OK = Returned (1, [7], JFS_ERR_PIPE) \<and>
   [7] = take 1 [7 :: byte, 8, 9]"
proof -
  have run: "jfs_ns_socket_send [SysOk 1, SysErr EINTR, SysErr EPIPE] [7, 8, 9] JFS_OK =
      Returned (1, [7], JFS_ERR_PIPE)" by code_simp
  from ns_send_prefix [OF run] run show ?thesis by simp
qed

text \<open>C13. What one side sends the other receives. If \<open>jfs_ns_socket_send\<close> is given enough room,
  interrupted any number of times, and the bytes that went out arrive at the other end in
  pieces of any size, again with interruptions, then \<open>jfs_ns_socket_recv\<close> for as many bytes
  returns exactly the buffer that was sent.\<close>

theorem ns_send_recv_roundtrip:
  assumes "filter (\<lambda>r. r \<noteq> SysErr EINTR) ssc = map SysOk ns" and "length buf \<le> sum_list ns"
    and "filter (\<lambda>r. r \<noteq> SysErr EINTR) rsc = map SysOk cs" and "[] \<notin> set cs"
    and "length rbuf = length buf"
  shows "\<exists>sent. jfs_ns_socket_send ssc buf JFS_OK = Returned (length buf, sent, JFS_OK) \<and>
    (concat cs = sent \<longrightarrow> jfs_ns_socket_recv rsc rbuf JFS_OK = Returned (length buf, buf, JFS_OK))"
proof -
  have "jfs_ns_socket_send ssc buf JFS_OK = Returned (length buf, buf, JFS_OK)" by (rule send_complete [OF assms(1,2)])
  moreover have "jfs_ns_socket_recv rsc rbuf JFS_OK = Returned (length buf, buf, JFS_OK)" if "concat cs = buf"
    using recv_complete [OF assms(3,4)] assms(5) that by simp
  ultimately show ?thesis by blast
qed

theorem ns_send_recv_roundtrip_witness:
  "jfs_ns_socket_send [SysErr EINTR, SysOk 2, SysOk 2] [7, 8, 9] JFS_OK = Returned (3, [7, 8, 9], JFS_OK) \<and>
   jfs_ns_socket_recv [SysOk [7], SysErr EINTR, SysOk [8, 9]] [0, 0, 0] JFS_OK = Returned (3, [7, 8, 9], JFS_OK)"
proof -
  have sent: "jfs_ns_socket_send [SysErr EINTR, SysOk 2, SysOk 2] [7, 8, 9] JFS_OK = Returned (3, [7, 8, 9], JFS_OK)"
    by code_simp
  from ns_send_recv_roundtrip [of "[SysErr EINTR, SysOk 2, SysOk 2]" "[2, 2]" "[7, 8, 9]"
      "[SysOk [7], SysErr EINTR, SysOk [8, 9]]" "[[7], [8, 9]]" "[0, 0, 0]"] sent
  show ?thesis by auto
qed

text \<open>\<open>jfs_ns_socket_recv\<close> reports a peer that closes early: when the stream ends after fewer
  bytes than asked for, it returns their number, with the bytes at the front of the buffer
  and \<open>JFS_ERR_NS_CONNECTION_CLOSE\<close>.\<close>

theorem ns_recv_closed:
  assumes "filter (\<lambda>r. r \<noteq> SysErr EINTR) rsc = map SysOk cs @ SysOk [] # rest" and "[] \<notin> set cs"
    and "length (concat cs) < length buf"
  shows "jfs_ns_socket_recv rsc buf JFS_OK =
    Returned (length (concat cs), concat cs @ drop (length (concat cs)) buf, JFS_ERR_NS_CONNECTION_CLOSE)"
  using recv_in.in_ignores_interrupts [of 0 buf rsc] recv_in.in_prefix [of 0 buf cs "SysOk [] # rest"] assms
    recv_in.in_eof [of "length (concat cs)" "concat cs @ drop (length (concat cs)) buf" rest]
  by (simp add: jfs_ns_socket_recv_def store_at_def)

theorem ns_recv_closed_witness:
  "jfs_ns_socket_recv [SysErr EINTR, SysOk [7], SysOk []] [0, 0, 0] JFS_OK =
    Returned (1, [7, 0, 0], JFS_ERR_NS_CONNECTION_CLOSE)"
  using ns_recv_closed [of "[SysErr EINTR, SysOk [7], SysOk []]" "[[7]]" "[]" "[0, 0, 0]"] by simp

text \<open>C34. When its allocation succeeds, \<open>jfs_ns_socket_accept\<close> passes over interruptions and then returns a socket exactly when the
  connection was accepted with an IPv4 address (a descriptor the kernel returns is not negative). On every other outcome it returns null with
  an error, and the block it allocated and the descriptor it may have got are released.\<close>

theorem ns_accept_owns:
  assumes "alloc_script w = []" and "set rs \<subseteq> {SysErr EINTR}" and "r \<noteq> SysErr EINTR"
    and "\<forall>fd addr len. r = SysOk (fd, addr, len) \<longrightarrow> fd \<ge> 0"
  shows "\<exists>sock w' err. jfs_ns_socket_accept (rs @ r # sc) w JFS_OK = Some (sock, w', err) \<and>
    (case r of
       SysOk (fd, addr, len) \<Rightarrow>
         if sin_family addr = AF_INET \<and> len = sockaddr_in_size
         then sock = Some \<lparr>sock_fd = fd, sock_addr = addr\<rparr> \<and> err = JFS_OK \<and>
              live w' = live w + 1 \<and> open_fds w' = open_fds w + 1
         else sock = None \<and> err = JFS_ERR_NS_BAD_ACCEPT \<and> live w' = live w \<and> open_fds w' = open_fds w
     | SysErr e \<Rightarrow> sock = None \<and> err \<noteq> JFS_OK \<and> live w' = live w \<and> open_fds w' = open_fds w)"
proof -
  have malloc: "heap_malloc w JFS_OK = (Some (), w\<lparr>live := live w + 1\<rparr>, JFS_OK)"
    using assms(1) by (simp add: heap_malloc_def jfs_malloc_def next_alloc_def)
  have inter: "\<forall>x\<in>set rs. snd (ns_accept_call x JFS_OK) = JFS_ERR_INTER"
    using assms(2) by (auto simp: jfs_accept_def)
  show ?thesis
  proof (cases r)
    case (SysOk l)
    obtain fd addr len where l: "l = (fd, addr, len)" by (cases l)
    have "snd (ns_accept_call r JFS_OK) \<noteq> JFS_ERR_INTER" by (simp add: SysOk l jfs_accept_def)
    from retry_skips [where call = ns_accept_call, OF inter this, of JFS_OK sc] show ?thesis
      using assms(4)
      by (cases "sin_family addr = AF_INET \<and> len = sockaddr_in_size") (auto simp: jfs_ns_socket_accept_def jfs_ns_socket_create_def malloc SysOk l jfs_accept_def
          fd_opened_def jfs_ns_socket_destroy_def fd_closed_def heap_free_def sockaddr_zero_def)
  next
    case (SysErr e)
    have err: "snd (ns_accept_call r JFS_OK) \<noteq> JFS_ERR_INTER" "snd (ns_accept_call r JFS_OK) \<noteq> JFS_OK"
        "fst (ns_accept_call r JFS_OK) = -1"
      using assms(3) SysErr by (auto simp: jfs_accept_def split: errno.splits)
    from retry_skips [where call = ns_accept_call, OF inter err(1), of JFS_OK sc] show ?thesis
      using err(2,3)
      by (cases "ns_accept_call r JFS_OK")
        (simp add: jfs_ns_socket_accept_def jfs_ns_socket_create_def malloc SysErr fd_opened_def
          jfs_ns_socket_destroy_def heap_free_def)
  qed
qed

theorem ns_accept_owns_witness:
  "\<exists>sock w'. jfs_ns_socket_accept [SysErr EINTR, SysOk (5, \<lparr>sin_family = 2, sin_port = 80, sin_addr = 1\<rparr>, 16)]
      \<lparr>alloc_script = [], live = 0, open_fds = 0, addr_lists = 0\<rparr> JFS_OK = Some (Some sock, w', JFS_OK) \<and>
    sock_fd sock = 5 \<and> live w' = 1 \<and> open_fds w' = 1"
  using ns_accept_owns [of "\<lparr>alloc_script = [], live = 0, open_fds = 0, addr_lists = 0\<rparr>" "[SysErr EINTR]"
      "SysOk (5, \<lparr>sin_family = 2, sin_port = 80, sin_addr = 1\<rparr>, 16)" "[]"]
  by (auto simp: AF_INET_def sockaddr_in_size_def)

text \<open>A socket releases its descriptor once. Destroying a socket frees its block and closes
  the descriptor if it is still open; after \<open>jfs_ns_socket_close\<close>, whatever \<open>close\<close> answers, the
  descriptor is gone and destroying does not close it again. But opening a socket that is
  already open forgets the first descriptor, which is then never closed.\<close>

theorem ns_socket_descriptors:
  assumes "sock_fd s \<noteq> -1"
  shows "(let (s', w1, _) = jfs_ns_socket_close r (Some s) w err; (s'', w2) = jfs_ns_socket_destroy s' w1
      in s'' = None \<and> open_fds w2 = open_fds w - 1 \<and> live w2 = live w - 1) \<and>
    (let (s', w1) = jfs_ns_socket_destroy (Some s) w
      in s' = None \<and> open_fds w1 = open_fds w - 1 \<and> live w1 = live w - 1) \<and>
    (fd \<noteq> -1 \<longrightarrow> (let (s', w1, e) = jfs_ns_socket_open (SysOk fd) s w JFS_OK; (s'', w2) = jfs_ns_socket_destroy (Some s') w1
      in e = JFS_OK \<and> sock_fd s' = fd \<and> open_fds w2 = open_fds w))"
  using assms by (auto simp: jfs_ns_socket_close_def jfs_ns_socket_destroy_def jfs_ns_socket_open_def
      jfs_socket_def fd_closed_def fd_opened_def heap_free_def Let_def)

theorem ns_socket_descriptors_witness:
  "let s = \<lparr>sock_fd = 3, sock_addr = sockaddr_zero\<rparr>; w = \<lparr>alloc_script = [], live = 1, open_fds = 1, addr_lists = 0\<rparr>
   in open_fds (snd (jfs_ns_socket_destroy (Some s) w)) = 0 \<and>
      open_fds (snd (jfs_ns_socket_destroy (Some (fst (jfs_ns_socket_open (SysOk 4) s w JFS_OK)))
        (fst (snd (jfs_ns_socket_open (SysOk 4) s w JFS_OK))))) = 1"
  using ns_socket_descriptors [of "\<lparr>sock_fd = 3, sock_addr = sockaddr_zero\<rparr>" "SysOk ()"
      "\<lparr>alloc_script = [], live = 1, open_fds = 1, addr_lists = 0\<rparr>" JFS_OK 4]
  by (auto simp: Let_def split: prod.splits)

text \<open>A privileged port, an address that does not parse or one that is not IPv4 leaves the
  socket's address as it was and is reported; otherwise the address is the requested one in
  network byte order. The list \<open>getaddrinfo\<close> allocated is freed on every path.\<close>

theorem ns_set_address:
  "(jfs_ns_socket_set_ip pton sock port ip JFS_OK =
     (case pton ip of
        Some a \<Rightarrow> if port \<le> 1024 then (sock, JFS_ERR_ARG)
                  else (sock\<lparr>sock_addr := \<lparr>sin_family = AF_INET, sin_port = htons port, sin_addr = a\<rparr>\<rparr>, JFS_OK)
      | None \<Rightarrow> (sock, JFS_ERR_ARG))) \<and>
   (let (sock', w', err) = jfs_ns_socket_set_hostname lookup sock port w JFS_OK
    in addr_lists w' = addr_lists w \<and> live w' = live w \<and>
       (err = JFS_OK \<longleftrightarrow> port > 1024 \<and> (\<exists>ai. lookup = Inr ai \<and> ai_family ai = AF_INET \<and> ai_addrlen ai = sockaddr_in_size)) \<and>
       (err \<noteq> JFS_OK \<longrightarrow> sock' = sock))"
proof -
  have "let (sock', w', err) = jfs_ns_socket_set_hostname lookup sock port w JFS_OK
    in addr_lists w' = addr_lists w \<and> live w' = live w \<and>
       (err = JFS_OK \<longleftrightarrow> port > 1024 \<and> (\<exists>ai. lookup = Inr ai \<and> ai_family ai = AF_INET \<and> ai_addrlen ai = sockaddr_in_size)) \<and>
       (err \<noteq> JFS_OK \<longrightarrow> sock' = sock)"
    by (cases lookup) (auto simp: jfs_ns_socket_set_hostname_def jfs_getaddrinfo_def not_le split: eai.splits)
  then show ?thesis
    by (auto simp: jfs_ns_socket_set_ip_def sockaddr_zero_def split: option.splits)
qed

theorem ns_set_address_witness:
  "jfs_ns_socket_set_ip (\<lambda>_. Some 7) \<lparr>sock_fd = 3, sock_addr = sockaddr_zero\<rparr> 8080 ''10.0.0.1'' JFS_OK =
    (\<lparr>sock_fd = 3, sock_addr = \<lparr>sin_family = AF_INET, sin_port = htons 8080, sin_addr = 7\<rparr>\<rparr>, JFS_OK)"
  using ns_set_address [of "\<lambda>_. Some 7" "\<lparr>sock_fd = 3, sock_addr = sockaddr_zero\<rparr>" 8080 "''10.0.0.1''"
      "Inl EAI_FAIL" "\<lparr>alloc_script = [], live = 1, open_fds = 1, addr_lists = 0\<rparr>"]
  by simp

text \<open>\<open>jfs_ns_socket_connect\<close> and \<open>jfs_ns_socket_bind\<close> repeat an interrupted call and then report what the first
  other answer means.\<close>

theorem ns_connect_retries:
  assumes "set rs \<subseteq> {SysErr EINTR}" and "r \<noteq> SysErr EINTR"
  shows "jfs_ns_socket_connect (rs @ r # sc) JFS_OK = Some (jfs_connect r JFS_OK) \<and>
    jfs_ns_socket_bind (r # sc) JFS_OK = Some (jfs_bind r JFS_OK)"
proof -
  have "\<forall>x\<in>set rs. snd ((\<lambda>r err. ((), jfs_connect r err)) x JFS_OK) = JFS_ERR_INTER"
    using assms(1) by (auto simp: jfs_connect_def)
  moreover have "jfs_connect r JFS_OK \<noteq> JFS_ERR_INTER"
    using assms(2) by (auto simp: jfs_connect_def split: sys.splits errno.splits)
  moreover have "jfs_bind r JFS_OK \<noteq> JFS_ERR_INTER" by (simp add: jfs_bind_def split: sys.splits)
  ultimately show ?thesis
    using retry_skips [of rs "\<lambda>r err. ((), jfs_connect r err)" r JFS_OK sc]
    by (simp add: jfs_ns_socket_connect_def jfs_ns_socket_bind_def)
qed

theorem ns_connect_retries_witness:
  "jfs_ns_socket_connect [SysErr EINTR, SysErr EINTR, SysOk ()] JFS_OK = Some JFS_OK"
  using ns_connect_retries [of "[SysErr EINTR, SysErr EINTR]" "SysOk ()" "[]"] by (simp add: jfs_connect_def)

end
