(* ===== verification/Jfs_Programs.thy ===== *)
theory Jfs_Programs
  imports Jfs_Net_Socket
begin

text \<open>
  The two programs built on the socket module: the server (\<open>src/src/server/server.c\<close>) and the daemon
  (\<open>src/src/daemon/daemon.c\<close>), which exchange one message of the struct \<open>test_data\<close> each and then shut the
  connection down.

  A program takes the answers of the system to its calls (\<open>net_answers\<close>; one script for every call
  that repeats an interrupted system call, and a list of them for the receiving loop at the end) and returns
  what it printed and sent, in order, the resources it holds and its error code; \<open>Running\<close> is a program that waits for the system, and
  \<open>None\<close> one whose behaviour is undefined: it read past an array or followed a pointer that was never set. The struct
  has no padding, and its integers are little-endian. The lines the error macros log are not part of the output.
\<close>

unbundle bit_operations_syntax

section \<open>The message\<close>

record test_data =
  td_a :: u32
  td_b :: u32
  td_c :: u32
  td_str :: "byte list"

definition char_array :: "string \<Rightarrow> byte list" where
  "char_array s = map of_char s @ replicate (100 - length s) 0"

definition u32_bytes :: "u32 \<Rightarrow> byte list" where
  "u32_bytes x = [ucast x, ucast (drop_bit 8 x), ucast (drop_bit 16 x), ucast (drop_bit 24 x)]"

definition bytes_u32 :: "byte list \<Rightarrow> u32" where
  "bytes_u32 bs = ucast (bs ! 0) OR push_bit 8 (ucast (bs ! 1)) OR push_bit 16 (ucast (bs ! 2)) OR push_bit 24 (ucast (bs ! 3))"

definition test_data_bytes :: "test_data \<Rightarrow> byte list" where
  "test_data_bytes d = u32_bytes (td_a d) @ u32_bytes (td_b d) @ u32_bytes (td_c d) @ td_str d"

definition test_data_of :: "byte list \<Rightarrow> test_data" where
  "test_data_of bs = \<lparr>td_a = bytes_u32 (take 4 bs), td_b = bytes_u32 (take 4 (drop 4 bs)), td_c = bytes_u32 (take 4 (drop 8 bs)),
     td_str = drop 12 bs\<rparr>"

text \<open>What a program does that is seen from outside, in order: the lines it prints, and the bytes it sends.\<close>

datatype io_event = Line string | Data int int int string | Sent "byte list"

text \<open>\<open>%s\<close> reads up to the first zero byte; without one it reads past the array.\<close>

definition print_test_data :: "test_data \<Rightarrow> io_event option" where
  "print_test_data d =
     (if 0 \<in> set (td_str d)
      then Some (Data (sint (td_a d)) (sint (td_b d)) (sint (td_c d)) (map (\<lambda>b. char_of (unat b)) (takeWhile (\<lambda>b. b \<noteq> 0) (td_str d))))
      else None)"

definition recv_zero :: "byte list" where
  "recv_zero = replicate 112 0"

section \<open>The answers of the system\<close>

record net_answers =
  pton_ans :: "string \<Rightarrow> u32 option"
  lookup_ans :: "eai + addrinfo"
  socket_ans :: "int sys"
  bind_ans :: "unit sys list"
  listen_ans :: "unit sys"
  accept_ans :: "(int \<times> sockaddr_in \<times> nat) sys list"
  connect_ans :: "unit sys list"
  send_ans :: "nat sys list"
  recv_ans :: "byte list sys list"
  shutdown_ans :: "unit sys"
  drain_ans :: "byte list sys list list"
  close_ans :: "unit sys"

definition SERV_PORT :: "16 word" where
  "SERV_PORT = 20727"

section \<open>Draining the connection\<close>

text \<open>The loop both programs end with.\<close>

fun drain_loop :: "byte list sys list list \<Rightarrow> byte list \<Rightarrow> io_event list \<Rightarrow> jfs_err_t \<Rightarrow> (io_event list \<times> jfs_err_t) run option" where
  "drain_loop [] recv_data out err = Some (Running (out, err))"
| "drain_loop (script # scripts) recv_data out err =
     (case jfs_ns_socket_recv script recv_data err of
        Running (n, recv_data, err) \<Rightarrow> Some (Running (out, err))
      | Returned (n, recv_data, err) \<Rightarrow>
          if err = JFS_ERR_NS_CONNECTION_CLOSE then Some (Returned (out @ [Line ''safe shutdown''], RES_ERR err))
          else if err \<noteq> JFS_OK then Some (Returned (out @ [Line ''unsafe shutdown''], err))
          else do {
            line \<leftarrow> print_test_data (test_data_of recv_data);
            drain_loop scripts recv_data (out @ [line]) err
          })"

section \<open>The daemon\<close>

definition daemon_send_data :: test_data where
  "daemon_send_data = \<lparr>td_a = 727, td_b = 76, td_c = 2, td_str = char_array ''hi from over there''\<rparr>"

definition daemon_cleanup ::
  "jfs_ns_socket option \<Rightarrow> io_event list \<Rightarrow> ns_world \<Rightarrow> jfs_err_t \<Rightarrow> (io_event list \<times> ns_world \<times> jfs_err_t) run option" where
  "daemon_cleanup client out w err = (let (client, w) = jfs_ns_socket_destroy client w in Some (Returned (out, w, err)))"

text \<open>What follows the drained connection.\<close>

definition daemon_finish ::
  "unit sys \<Rightarrow> jfs_ns_socket \<Rightarrow> (io_event list \<times> jfs_err_t) run \<Rightarrow> ns_world \<Rightarrow> (io_event list \<times> ns_world \<times> jfs_err_t) run option" where
  "daemon_finish r client drained w =
     (case drained of
        Running (out, err) \<Rightarrow> Some (Running (out, w, err))
      | Returned (out, err) \<Rightarrow>
          if err \<noteq> JFS_OK then daemon_cleanup (Some client) out w err
          else let (client, w, err) = jfs_ns_socket_close r (Some client) w err;
                   err = (if err \<noteq> JFS_OK then RES_ERR err else err);
                   (client, w) = jfs_ns_socket_destroy client w
               in Some (Returned (out, w, err)))"

text \<open>From the first message to the end, with a connected socket.\<close>

definition daemon_session ::
  "net_answers \<Rightarrow> jfs_ns_socket \<Rightarrow> io_event list \<Rightarrow> ns_world \<Rightarrow> jfs_err_t \<Rightarrow> (io_event list \<times> ns_world \<times> jfs_err_t) run option" where
  "daemon_session a client out w err =
     (case jfs_ns_socket_send (send_ans a) (test_data_bytes daemon_send_data) err of
        Running (n, sent, err) \<Rightarrow> Some (Running (out @ [Sent sent], w, err))
      | Returned (n, sent, err) \<Rightarrow>
     let out = out @ [Sent sent] in
     if err \<noteq> JFS_OK then daemon_cleanup (Some client) out w err
     else case jfs_ns_socket_recv (recv_ans a) recv_zero err of
        Running (n, recv_data, err) \<Rightarrow> Some (Running (out, w, err))
      | Returned (n, recv_data, err) \<Rightarrow>
     if err \<noteq> JFS_OK then daemon_cleanup (Some client) out w err
     else do {
       line \<leftarrow> print_test_data (test_data_of recv_data);
       let out = out @ [line];
       let err = jfs_ns_socket_shutdown (shutdown_ans a) err;
       if err \<noteq> JFS_OK then daemon_cleanup (Some client) out w err
       else do {
         drained \<leftarrow> drain_loop (drain_ans a) recv_data out err;
         daemon_finish (close_ans a) client drained w
       }
     })"

definition daemon_run :: "net_answers \<Rightarrow> ns_world \<Rightarrow> jfs_err_t \<Rightarrow> (io_event list \<times> ns_world \<times> jfs_err_t) run option" where
  "daemon_run a w err =
     (let (created, w, err) = jfs_ns_socket_create w err in
      if err \<noteq> JFS_OK then daemon_cleanup created [] w err
      else do {
        client \<leftarrow> created;
        let (client, w, err) = jfs_ns_socket_open (socket_ans a) client w err;
        if err \<noteq> JFS_OK then daemon_cleanup (Some client) [] w err
        else let (client, w, err) = jfs_ns_socket_set_hostname (lookup_ans a) client SERV_PORT w err in
        if err \<noteq> JFS_OK then daemon_cleanup (Some client) [] w err
        else case jfs_ns_socket_connect (connect_ans a) err of
          None \<Rightarrow> Some (Running ([], w, err))
        | Some err \<Rightarrow>
            if err \<noteq> JFS_OK then daemon_cleanup (Some client) [] w err
            else daemon_session a client [Line ''connected''] w err
      })"

section \<open>The server\<close>

definition server_send_data :: test_data where
  "server_send_data = \<lparr>td_a = 85, td_b = 69, td_c = 42, td_str = char_array ''uma musume: pretty derby''\<rparr>"

text \<open>
  The variable \<open>client\<close> holds no value (\<open>None\<close>) until \<open>accept\<close> has returned; destroying it then follows an
  indeterminate pointer.
\<close>

definition server_cleanup ::
  "jfs_ns_socket option \<Rightarrow> jfs_ns_socket option option \<Rightarrow> io_event list \<Rightarrow> ns_world \<Rightarrow> jfs_err_t
     \<Rightarrow> (io_event list \<times> ns_world \<times> jfs_err_t) run option" where
  "server_cleanup server client out w err = do {
     let (server, w) = jfs_ns_socket_destroy server w;
     client \<leftarrow> client;
     let (client, w) = jfs_ns_socket_destroy client w;
     Some (Returned (out, w, err))
   }"

definition server_finish ::
  "unit sys \<Rightarrow> jfs_ns_socket \<Rightarrow> jfs_ns_socket \<Rightarrow> (io_event list \<times> jfs_err_t) run \<Rightarrow> ns_world
     \<Rightarrow> (io_event list \<times> ns_world \<times> jfs_err_t) run option" where
  "server_finish r server client drained w =
     (case drained of
        Running (out, err) \<Rightarrow> Some (Running (out, w, err))
      | Returned (out, err) \<Rightarrow>
          if err \<noteq> JFS_OK then server_cleanup (Some server) (Some (Some client)) out w err
          else let (client, w, err) = jfs_ns_socket_close r (Some client) w err;
                   err = (if err \<noteq> JFS_OK then RES_ERR err else err);
                   (client, w) = jfs_ns_socket_destroy client w;
                   (server, w) = jfs_ns_socket_destroy (Some server) w
               in Some (Returned (out, w, err)))"

definition server_session ::
  "net_answers \<Rightarrow> jfs_ns_socket \<Rightarrow> jfs_ns_socket \<Rightarrow> ns_world \<Rightarrow> jfs_err_t \<Rightarrow> (io_event list \<times> ns_world \<times> jfs_err_t) run option" where
  "server_session a server client w err =
     (case jfs_ns_socket_recv (recv_ans a) recv_zero err of
        Running (n, recv_data, err) \<Rightarrow> Some (Running ([], w, err))
      | Returned (n, recv_data, err) \<Rightarrow>
     if err \<noteq> JFS_OK then server_cleanup (Some server) (Some (Some client)) [] w err
     else do {
       line \<leftarrow> print_test_data (test_data_of recv_data);
       let out = [line];
       case jfs_ns_socket_send (send_ans a) (test_data_bytes server_send_data) err of
         Running (n, sent, err) \<Rightarrow> Some (Running (out @ [Sent sent], w, err))
       | Returned (n, sent, err) \<Rightarrow>
       let out = out @ [Sent sent] in
       if err \<noteq> JFS_OK then server_cleanup (Some server) (Some (Some client)) out w err
       else let err = jfs_ns_socket_shutdown (shutdown_ans a) err in
       if err \<noteq> JFS_OK then server_cleanup (Some server) (Some (Some client)) out w err
       else do {
         drained \<leftarrow> drain_loop (drain_ans a) recv_data out err;
         server_finish (close_ans a) server client drained w
       }
     })"

definition server_accepting ::
  "net_answers \<Rightarrow> jfs_ns_socket \<Rightarrow> ns_world \<Rightarrow> jfs_err_t \<Rightarrow> (io_event list \<times> ns_world \<times> jfs_err_t) run option" where
  "server_accepting a server w err =
     (case jfs_ns_socket_accept (accept_ans a) w err of
        None \<Rightarrow> Some (Running ([], w, err))
      | Some (accepted, w, err) \<Rightarrow>
          if err \<noteq> JFS_OK then server_cleanup (Some server) (Some accepted) [] w err
          else do { client \<leftarrow> accepted; server_session a server client w err })"

definition server_run :: "net_answers \<Rightarrow> ns_world \<Rightarrow> jfs_err_t \<Rightarrow> (io_event list \<times> ns_world \<times> jfs_err_t) run option" where
  "server_run a w err =
     (let (created, w, err) = jfs_ns_socket_create w err in
      if err \<noteq> JFS_OK then server_cleanup created None [] w err
      else do {
        server \<leftarrow> created;
        let (server, w, err) = jfs_ns_socket_open (socket_ans a) server w err;
        if err \<noteq> JFS_OK then server_cleanup (Some server) None [] w err
        else let (server, err) = jfs_ns_socket_set_ip (pton_ans a) server SERV_PORT ''0.0.0.0'' err in
        if err \<noteq> JFS_OK then server_cleanup (Some server) None [] w err
        else case jfs_ns_socket_bind (bind_ans a) err of
          None \<Rightarrow> Some (Running ([], w, err))
        | Some err \<Rightarrow>
            if err \<noteq> JFS_OK then server_cleanup (Some server) None [] w err
            else let err = jfs_ns_socket_listen (listen_ans a) err in
            if err \<noteq> JFS_OK then server_cleanup (Some server) None [] w err
            else server_accepting a server w err
      })"


section \<open>Messages as bytes\<close>


lemma u32_roundtrip: "bytes_u32 (u32_bytes x @ ys) = x"
proof (rule bit_word_eqI)
  fix n assume "n < LENGTH(32)"
  then consider "n < 8" | "8 \<le> n" "n < 16" | "16 \<le> n" "n < 24" | "24 \<le> n" "n < 32" by fastforce
  then show "bit (bytes_u32 (u32_bytes x @ ys)) n \<longleftrightarrow> bit x n"
    by cases (auto simp: bytes_u32_def u32_bytes_def bit_simps)
qed

lemma length_u32_bytes [simp]: "length (u32_bytes x) = 4"
  by (simp add: u32_bytes_def)

lemma take_u32 [simp]: "bytes_u32 (take 4 (u32_bytes x @ ys)) = x"
  using u32_roundtrip [of x "[]"] by simp

lemma test_data_roundtrip: "test_data_of (test_data_bytes d) = d"
  using u32_roundtrip [where ys = "[]"] by (simp add: test_data_of_def test_data_bytes_def)

lemma length_test_data: "length (td_str d) = 100 \<Longrightarrow> length (test_data_bytes d) = 112"
  by (simp add: test_data_bytes_def)

lemma run_triple:
  obtains n d e where "r = Returned (n, d, e)" | n d e where "r = Running (n, d, e)"
  by (cases r) auto

section \<open>What the programs release\<close>

text \<open>What a socket holds: a block, and a descriptor unless it is closed.\<close>

definition sock_fds :: "jfs_ns_socket \<Rightarrow> int" where
  "sock_fds s = (if sock_fd s = -1 then 0 else 1)"

definition counts :: "ns_world \<Rightarrow> int \<times> int \<times> int" where
  "counts w = (live w, open_fds w, addr_lists w)"

lemma destroy_counts:
  "counts (snd (jfs_ns_socket_destroy None w)) = counts w"
  "counts (snd (jfs_ns_socket_destroy (Some s) w)) = (live w - 1, open_fds w - sock_fds s, addr_lists w)"
  by (simp_all add: counts_def jfs_ns_socket_destroy_def fd_closed_def heap_free_def sock_fds_def)

lemma close_destroy_counts:
  "jfs_ns_socket_close r (Some s) w err = (s', w', err') \<Longrightarrow>
     counts (snd (jfs_ns_socket_destroy s' w')) = (live w - 1, open_fds w - sock_fds s, addr_lists w)"
  by (auto simp: counts_def jfs_ns_socket_close_def jfs_ns_socket_destroy_def fd_closed_def heap_free_def sock_fds_def split: if_splits)

lemma open_counts:
  assumes "jfs_ns_socket_open r s w JFS_OK = (s', w', e)" and "sock_fd s = -1" and "r \<noteq> SysOk (-1)"
  shows "live w' = live w \<and> open_fds w' - sock_fds s' = open_fds w \<and> addr_lists w' = addr_lists w \<and> (e = JFS_OK \<longrightarrow> sock_fds s' = 1)"
  using assms by (cases r) (auto simp: jfs_ns_socket_open_def jfs_socket_def fd_opened_def sock_fds_def split: errno.splits)


lemma accept_counts:
  assumes run: "jfs_ns_socket_accept sc w JFS_OK = Some (c, w', e)" and fd: "\<forall>addr len. SysOk (-1, addr, len) \<notin> set sc"
  shows "(e \<noteq> JFS_OK \<and> c = None \<and> counts w' = counts w) \<or>
    (\<exists>s. e = JFS_OK \<and> c = Some s \<and> counts w' = (live w + 1, open_fds w + sock_fds s, addr_lists w))"
proof (cases "next_alloc w")
  case False
  then show ?thesis using run by (auto simp: jfs_ns_socket_accept_def jfs_ns_socket_create_def heap_malloc_def jfs_malloc_def counts_def)
next
  case True
  let ?w = "w\<lparr>alloc_script := tl (alloc_script w), live := live w + 1\<rparr>"
  have cr: "jfs_ns_socket_create w JFS_OK = (Some \<lparr>sock_fd = -1, sock_addr = sockaddr_zero\<rparr>, ?w, JFS_OK)"
    using True by (simp add: jfs_ns_socket_create_def heap_malloc_def jfs_malloc_def)
  obtain r fd err where r: "ns_retry ns_accept_call sc JFS_OK = Some (r, fd, err)"
    using run by (cases "ns_retry ns_accept_call sc JFS_OK") (auto simp: jfs_ns_socket_accept_def cr)
  note ans = retry_answer [OF r, simplified]
  show ?thesis
  proof (cases r)
    case (SysErr x)
    then have "fd = -1" "err \<noteq> JFS_OK" using ans by (auto simp: jfs_accept_def split: errno.splits)
    then show ?thesis using run r SysErr
      by (auto simp: jfs_ns_socket_accept_def cr fd_opened_def counts_def jfs_ns_socket_destroy_def heap_free_def)
  next
    case (SysOk x)
    obtain d addr len where x: "x = (d, addr, len)" by (cases x)
    then have "fd = d" "err = JFS_OK" "d \<noteq> -1" using ans SysOk fd by (auto simp: jfs_accept_def)
    then show ?thesis using run r SysOk x
      by (cases "sin_family addr = AF_INET \<and> len = sockaddr_in_size") (auto simp: jfs_ns_socket_accept_def cr fd_opened_def counts_def
          jfs_ns_socket_destroy_def heap_free_def fd_closed_def sock_fds_def)
  qed
qed

lemma hostname_counts:
  assumes "jfs_ns_socket_set_hostname lookup sock port w JFS_OK = (s', w', e)"
  shows "counts w' = counts w \<and> sock_fd s' = sock_fd sock"
  using assms by (cases lookup) (auto simp: counts_def jfs_ns_socket_set_hostname_def jfs_getaddrinfo_def split: eai.splits if_splits)

lemma set_ip_fd: "jfs_ns_socket_set_ip p sock port ip err = (s', e) \<Longrightarrow> sock_fd s' = sock_fd sock"
  by (auto simp: jfs_ns_socket_set_ip_def Let_def split: if_splits option.splits)

lemma daemon_cleanup_counts:
  "daemon_cleanup (Some client) out w e = Some (Returned (out', w', e')) \<Longrightarrow> counts w' = (live w - 1, open_fds w - sock_fds client, addr_lists w)"
  using destroy_counts(2) [of client w] by (auto simp: daemon_cleanup_def split: prod.splits)

lemma daemon_finish_counts:
  assumes "daemon_finish r client drained w = Some (Returned (out', w', e'))"
  shows "counts w' = (live w - 1, open_fds w - sock_fds client, addr_lists w)"
proof (cases drained)
  case (Returned x)
  obtain out err where x: "x = (out, err)" by (cases x)
  obtain c w1 e where cl: "jfs_ns_socket_close r (Some client) w err = (c, w1, e)" by (cases "jfs_ns_socket_close r (Some client) w err") auto
  show ?thesis using assms Returned x cl close_destroy_counts [OF cl]
    by (auto simp: daemon_finish_def dest!: daemon_cleanup_counts split: prod.splits if_splits)
qed (use assms in \<open>auto simp: daemon_finish_def\<close>)

lemma daemon_session_counts:
  assumes "daemon_session a client out w e = Some (Returned (out', w', e'))"
  shows "counts w' = (live w - 1, open_fds w - sock_fds client, addr_lists w)"
  using assms
  by (auto simp: daemon_session_def Let_def Option.bind_eq_Some_conv
      dest!: daemon_cleanup_counts daemon_finish_counts split: run.splits prod.splits if_splits)

lemma create_cases:
  obtains "jfs_ns_socket_create w JFS_OK = (None, w\<lparr>alloc_script := tl (alloc_script w)\<rparr>, JFS_ERR_SYS)" "\<not> next_alloc w"
  | "jfs_ns_socket_create w JFS_OK =
      (Some \<lparr>sock_fd = -1, sock_addr = sockaddr_zero\<rparr>, w\<lparr>alloc_script := tl (alloc_script w), live := live w + 1\<rparr>, JFS_OK)" "next_alloc w"
  by (cases "next_alloc w") (auto simp: jfs_ns_socket_create_def heap_malloc_def jfs_malloc_def)

lemma daemon_ok_releases:
  assumes "daemon_run a w JFS_OK = Some (Returned (out, w', e))" and "socket_ans a \<noteq> SysOk (-1)"
  shows "live w' = live w \<and> open_fds w' = open_fds w \<and> addr_lists w' = addr_lists w"
proof (rule create_cases [of w])
  assume "jfs_ns_socket_create w JFS_OK = (None, w\<lparr>alloc_script := tl (alloc_script w)\<rparr>, JFS_ERR_SYS)"
  then show ?thesis using assms(1) by (auto simp: daemon_run_def daemon_cleanup_def jfs_ns_socket_destroy_def)
next
  let ?w = "w\<lparr>alloc_script := tl (alloc_script w), live := live w + 1\<rparr>" and ?s = "\<lparr>sock_fd = -1, sock_addr = sockaddr_zero\<rparr>"
  assume cr: "jfs_ns_socket_create w JFS_OK = (Some ?s, ?w, JFS_OK)"
  obtain s1 w1 e1 where op: "jfs_ns_socket_open (socket_ans a) ?s ?w JFS_OK = (s1, w1, e1)" by (cases "jfs_ns_socket_open (socket_ans a) ?s ?w JFS_OK") auto
  have o: "counts w1 = (live w + 1, open_fds w + sock_fds s1, addr_lists w)" using open_counts [OF op _ assms(2)] by (simp add: counts_def)
  obtain s2 w2 e2 where ho: "jfs_ns_socket_set_hostname (lookup_ans a) s1 SERV_PORT w1 JFS_OK = (s2, w2, e2)"
    by (cases "jfs_ns_socket_set_hostname (lookup_ans a) s1 SERV_PORT w1 JFS_OK") auto
  have h: "counts w2 = counts w1" "sock_fds s2 = sock_fds s1" using hostname_counts [OF ho] by (simp_all add: sock_fds_def)
  have "counts w' = counts w"
  proof (cases "e1 = JFS_OK")
    case False
    then show ?thesis using assms(1) cr op o daemon_cleanup_counts [of s1 "[]" w1 e1 out w' e]
      by (simp add: daemon_run_def counts_def)
  next
    case True
    then have "counts w' = (live w2 - 1, open_fds w2 - sock_fds s2, addr_lists w2)"
      using assms(1) cr op ho by (auto simp: daemon_run_def dest!: daemon_cleanup_counts daemon_session_counts split: option.splits if_splits)
    then show ?thesis using o h by (simp add: counts_def)
  qed
  then show ?thesis by (simp add: counts_def)
qed

text \<open>The daemon, called with an error code that is already set, does nothing and leaks a block.\<close>

lemma daemon_stale_error:
  assumes "err \<noteq> JFS_OK"
  shows "\<exists>w' e. daemon_run a w err = Some (Returned ([], w', e)) \<and> live w' = live w + (if next_alloc w then 1 else 0) \<and>
    open_fds w' = open_fds w \<and> addr_lists w' = addr_lists w"
  using assms by (simp add: daemon_run_def jfs_ns_socket_create_def heap_malloc_def jfs_malloc_def daemon_cleanup_def jfs_ns_socket_destroy_def)

text \<open>C25. When the daemon returns, on the normal path or after any failure, it has closed its descriptor and freed the
  list of addresses, and it has freed its socket unless the error code was set before it started, as the variable that
  \<open>main\<close> leaves unset may be: then it returns at once and has lost the block it allocated. A descriptor the kernel returns
  is not -1.\<close>

theorem daemon_releases:
  assumes run: "daemon_run a w err = Some (Returned (out, w', e))" and fd: "socket_ans a \<noteq> SysOk (-1)"
  shows "live w' = live w + (if err \<noteq> JFS_OK \<and> next_alloc w then 1 else 0) \<and> open_fds w' = open_fds w \<and> addr_lists w' = addr_lists w"
proof (cases "err = JFS_OK")
  case False
  then show ?thesis using daemon_stale_error [of err a w] run by auto
next
  case True
  then show ?thesis using daemon_ok_releases [of a w out w' e] run fd by simp
qed

section \<open>The server\<close>

lemma server_cleanup_counts:
  "server_cleanup (Some server) (Some c) out w e = Some (Returned (out', w', e')) \<Longrightarrow>
     counts w' = (live w - 1 - (if c = None then 0 else 1), open_fds w - sock_fds server - (case c of None \<Rightarrow> 0 | Some client \<Rightarrow> sock_fds client), addr_lists w)"
  using destroy_counts(2) [of server w]
  by (cases c) (auto simp: server_cleanup_def counts_def jfs_ns_socket_destroy_def fd_closed_def heap_free_def sock_fds_def)

lemma server_cleanup_client:
  "server_cleanup (Some server) (Some (Some client)) out w e = Some (Returned (out', w', e')) \<Longrightarrow>
     counts w' = (live w - 2, open_fds w - sock_fds server - sock_fds client, addr_lists w)"
  by (drule server_cleanup_counts) simp

lemma server_finish_counts:
  assumes "server_finish r server client drained w = Some (Returned (out', w', e'))"
  shows "counts w' = (live w - 2, open_fds w - sock_fds server - sock_fds client, addr_lists w)"
proof (cases drained)
  case (Returned x)
  obtain out err where x: "x = (out, err)" by (cases x)
  obtain c w1 e where cl: "jfs_ns_socket_close r (Some client) w err = (c, w1, e)" by (cases "jfs_ns_socket_close r (Some client) w err") auto
  obtain d w2 where de: "jfs_ns_socket_destroy c w1 = (d, w2)" by (cases "jfs_ns_socket_destroy c w1")
  show ?thesis using assms Returned x cl de close_destroy_counts [OF cl] destroy_counts(2) [of server w2]
    by (auto simp: server_finish_def counts_def dest!: server_cleanup_client split: prod.splits if_splits)
qed (use assms in \<open>auto simp: server_finish_def\<close>)

lemma server_session_counts:
  assumes run: "server_session a server client w e = Some (Returned (out', w', e'))"
  shows "counts w' = (live w - 2, open_fds w - sock_fds server - sock_fds client, addr_lists w)"
proof -
  obtain n d e1 where r: "jfs_ns_socket_recv (recv_ans a) recv_zero e = Returned (n, d, e1)"
    using run by (auto simp: server_session_def split: run.splits)
  show ?thesis
  proof (cases "e1 = JFS_OK")
    case True
    obtain m x e2 where "jfs_ns_socket_send (send_ans a) (test_data_bytes server_send_data) JFS_OK = Returned (m, x, e2)"
      using run r True by (cases "jfs_ns_socket_send (send_ans a) (test_data_bytes server_send_data) JFS_OK" rule: run_triple)
        (auto simp: server_session_def Option.bind_eq_Some_conv)
    then show ?thesis using run r True
      by (auto simp: server_session_def Let_def Option.bind_eq_Some_conv
          dest!: server_cleanup_client server_finish_counts split: if_splits)
  qed (use run r in \<open>auto simp: server_session_def dest!: server_cleanup_client\<close>)
qed

lemma server_cleanup_early [simp]: "server_cleanup server None out w e = None"
  by (simp add: server_cleanup_def split: prod.splits)

lemma server_accepting_counts:
  assumes run: "server_accepting a server w JFS_OK = Some (Returned (out, w', e))"
    and fd: "\<forall>addr len. SysOk (-1, addr, len) \<notin> set (accept_ans a)"
  shows "counts w' = (live w - 1, open_fds w - sock_fds server, addr_lists w)"
proof (cases "jfs_ns_socket_accept (accept_ans a) w JFS_OK")
  case (Some r)
  obtain c w1 e1 where r: "r = (c, w1, e1)" by (cases r)
  from accept_counts [OF Some [unfolded r] fd] consider "e1 \<noteq> JFS_OK" "c = None" "counts w1 = counts w"
    | s where "e1 = JFS_OK" "c = Some s" "counts w1 = (live w + 1, open_fds w + sock_fds s, addr_lists w)" by blast
  then show ?thesis
  proof cases
    case 1
    then show ?thesis using run Some r by (auto simp: server_accepting_def counts_def dest!: server_cleanup_counts)
  next
    case 2
    then show ?thesis using run Some r by (auto simp: server_accepting_def counts_def dest!: server_session_counts)
  qed
qed (use run in \<open>simp add: server_accepting_def\<close>)

text \<open>C26. Whenever the server, started with the error code \<open>JFS_OK\<close>, returns, it has freed both sockets and closed both
  descriptors, whatever failed after the connection was accepted. Descriptors the kernel returns are not -1.\<close>

theorem server_releases:
  assumes "server_run a w JFS_OK = Some (Returned (out, w', e))" and "socket_ans a \<noteq> SysOk (-1)"
    and "\<forall>addr len. SysOk (-1, addr, len) \<notin> set (accept_ans a)"
  shows "live w' = live w \<and> open_fds w' = open_fds w \<and> addr_lists w' = addr_lists w"
proof (rule create_cases [of w])
  assume "jfs_ns_socket_create w JFS_OK = (None, w\<lparr>alloc_script := tl (alloc_script w)\<rparr>, JFS_ERR_SYS)"
  then show ?thesis using assms(1) by (simp add: server_run_def)
next
  let ?w = "w\<lparr>alloc_script := tl (alloc_script w), live := live w + 1\<rparr>" and ?s = "\<lparr>sock_fd = -1, sock_addr = sockaddr_zero\<rparr>"
  assume cr: "jfs_ns_socket_create w JFS_OK = (Some ?s, ?w, JFS_OK)"
  obtain s1 w1 e1 where op: "jfs_ns_socket_open (socket_ans a) ?s ?w JFS_OK = (s1, w1, e1)" by (cases "jfs_ns_socket_open (socket_ans a) ?s ?w JFS_OK") auto
  have o: "counts w1 = (live w + 1, open_fds w + sock_fds s1, addr_lists w)" using open_counts [OF op _ assms(2)] by (simp add: counts_def)
  obtain s2 e2 where ip: "jfs_ns_socket_set_ip (pton_ans a) s1 SERV_PORT ''0.0.0.0'' JFS_OK = (s2, e2)"
    by (cases "jfs_ns_socket_set_ip (pton_ans a) s1 SERV_PORT ''0.0.0.0'' JFS_OK")
  have h: "sock_fds s2 = sock_fds s1" using set_ip_fd [OF ip] by (simp add: sock_fds_def)
  have "counts w' = (live w1 - 1, open_fds w1 - sock_fds s2, addr_lists w1)"
    using assms(1) cr op ip by (auto simp: server_run_def Let_def dest!: server_accepting_counts [OF _ assms(3)] split: option.splits if_splits)
  then show ?thesis using o h by (simp add: counts_def)
qed

text \<open>A server that fails before it has accepted a connection (an error code that is set on entry, no memory,
  no descriptor, no address, \<open>bind\<close> or \<open>listen\<close> refused) destroys the variable \<open>client\<close>, which was never set: its
  behaviour is undefined.\<close>

theorem server_fails_before_accept:
  assumes "bind_ans a \<noteq> []" and "err \<noteq> JFS_OK \<or> \<not> next_alloc w \<or> \<not> is_ok (socket_ans a) \<or> pton_ans a ''0.0.0.0'' = None \<or>
      \<not> is_ok (hd (bind_ans a)) \<or> \<not> is_ok (listen_ans a)"
  shows "server_run a w err = None"
proof (cases "err = JFS_OK \<and> next_alloc w")
  case False
  then show ?thesis by (auto simp: server_run_def jfs_ns_socket_create_def heap_malloc_def jfs_malloc_def)
next
  case True
  obtain r sc where b: "bind_ans a = r # sc" using assms(1) by (cases "bind_ans a") auto
  show ?thesis using assms(2) True b
    by (cases "socket_ans a"; cases "pton_ans a ''0.0.0.0''"; cases r; cases "listen_ans a")
       (auto simp: server_run_def jfs_ns_socket_create_def heap_malloc_def jfs_malloc_def jfs_ns_socket_open_def jfs_socket_def
         jfs_ns_socket_set_ip_def SERV_PORT_def jfs_ns_socket_bind_def jfs_bind_def jfs_ns_socket_listen_def jfs_listen_def)
qed

section \<open>Both programs together\<close>

text \<open>
  What a run has sent so far, and a byte stream that delivers it: \<open>delivers a incoming\<close> says that the answers to the receiving
  calls are the bytes of \<open>incoming\<close>, in order, in pieces of any size and with any interruptions.
\<close>

definition sent_bytes :: "io_event list \<Rightarrow> byte list" where
  "sent_bytes out = concat (map (\<lambda>e. case e of Sent bs \<Rightarrow> bs | _ \<Rightarrow> []) out)"

definition wire_of :: "(io_event list \<times> ns_world \<times> jfs_err_t) run option \<Rightarrow> byte list" where
  "wire_of r = (case r of Some (Returned (out, _, _)) \<Rightarrow> sent_bytes out | Some (Running (out, _, _)) \<Rightarrow> sent_bytes out | None \<Rightarrow> [])"

definition delivers :: "net_answers \<Rightarrow> byte list \<Rightarrow> bool" where
  "delivers a incoming \<longleftrightarrow>
     (\<exists>cs. filter (\<lambda>r. r \<noteq> SysErr EINTR) (recv_ans a) = map SysOk cs \<and> [] \<notin> set cs \<and> concat cs = incoming)"

text \<open>The kernel takes what is sent, in pieces of any size and with any interruptions, and after the shutdown the peer's
  side of the connection ends.\<close>

definition carries :: "net_answers \<Rightarrow> bool" where
  "carries a \<longleftrightarrow>
     (\<exists>ns. filter (\<lambda>r. r \<noteq> SysErr EINTR) (send_ans a) = map SysOk ns \<and> 112 \<le> sum_list ns) \<and>
     shutdown_ans a = SysOk () \<and> (\<exists>rs rss. drain_ans a = (SysOk [] # rs) # rss)"

definition server_connects :: "net_answers \<Rightarrow> bool" where
  "server_connects a \<longleftrightarrow> is_ok (socket_ans a) \<and> pton_ans a ''0.0.0.0'' \<noteq> None \<and> (\<exists>rs. bind_ans a = SysOk () # rs) \<and>
     listen_ans a = SysOk () \<and>
     (\<exists>ints fd addr rs. accept_ans a = ints @ SysOk (fd, addr, sockaddr_in_size) # rs \<and> set ints \<subseteq> {SysErr EINTR} \<and> sin_family addr = AF_INET)"

definition daemon_connects :: "net_answers \<Rightarrow> bool" where
  "daemon_connects a \<longleftrightarrow> is_ok (socket_ans a) \<and>
     (\<exists>ai. lookup_ans a = Inr ai \<and> ai_family ai = AF_INET \<and> ai_addrlen ai = sockaddr_in_size) \<and>
     (\<exists>ints rs. connect_ans a = ints @ SysOk () # rs \<and> set ints \<subseteq> {SysErr EINTR})"

lemma delivered_recv:
  assumes "delivers a (test_data_bytes d)" and "length (td_str d) = 100"
  shows "jfs_ns_socket_recv (recv_ans a) recv_zero JFS_OK = Returned (112, test_data_bytes d, JFS_OK)"
proof -
  obtain cs where "filter (\<lambda>r. r \<noteq> SysErr EINTR) (recv_ans a) = map SysOk cs" "[] \<notin> set cs" "concat cs = test_data_bytes d"
    using assms(1) unfolding delivers_def by blast
  then show ?thesis using recv_complete [of "recv_ans a" cs recv_zero] length_test_data [OF assms(2)] by (simp add: recv_zero_def)
qed

lemma recv_only_interrupted:
  "filter (\<lambda>r. r \<noteq> SysErr EINTR) sc = [] \<Longrightarrow> 0 < length buf \<Longrightarrow> \<exists>x. jfs_ns_socket_recv sc buf JFS_OK = Running x"
  using recv_in.in_ignores_interrupts [of 0 buf sc] by (simp add: jfs_ns_socket_recv_def ns_recv_loop.simps)

lemma carried_send:
  assumes "carries a" and "length (td_str d) = 100"
  shows "jfs_ns_socket_send (send_ans a) (test_data_bytes d) JFS_OK = Returned (112, test_data_bytes d, JFS_OK)"
  using assms(1) send_complete [of "send_ans a" _ "test_data_bytes d"] length_test_data [OF assms(2)] by (auto simp: carries_def)

lemma carried_drain:
  assumes "carries a" and "recv_data \<noteq> []"
  shows "drain_loop (drain_ans a) recv_data out JFS_OK = Some (Returned (out @ [Line ''safe shutdown''], JFS_OK))"
proof -
  obtain rs rss where d: "drain_ans a = (SysOk [] # rs) # rss" using assms(1) by (auto simp: carries_def)
  have "jfs_ns_socket_recv (SysOk [] # rs) recv_data JFS_OK = Returned (0, recv_data, JFS_ERR_NS_CONNECTION_CLOSE)"
    using recv_in.in_eof [of 0 recv_data rs] assms(2) by (simp add: jfs_ns_socket_recv_def)
  then show ?thesis by (simp add: d RES_ERR_def)
qed

lemma messages:
  "length (td_str daemon_send_data) = 100" "length (td_str server_send_data) = 100"
  "print_test_data daemon_send_data = Some (Data 727 76 2 ''hi from over there'')"
  "print_test_data server_send_data = Some (Data 85 69 42 ''uma musume: pretty derby'')"
  by code_simp+

lemma message_bytes: "length (td_str d) = 100 \<Longrightarrow> test_data_bytes d \<noteq> []"
  using length_test_data by fastforce

lemma finish_ok:
  "\<exists>w'. daemon_finish r client (Returned (out, JFS_OK)) w = Some (Returned (out, w', JFS_OK))"
  "\<exists>w'. server_finish r server client (Returned (out, JFS_OK)) w = Some (Returned (out, w', JFS_OK))"
  by (cases "jfs_ns_socket_close r (Some client) w JFS_OK"; auto simp: daemon_finish_def server_finish_def RES_ERR_def split: prod.splits)+

abbreviation daemon_trace :: "io_event list" where
  "daemon_trace \<equiv> [Line ''connected'', Sent (test_data_bytes daemon_send_data), Data 85 69 42 ''uma musume: pretty derby'', Line ''safe shutdown'']"

abbreviation server_trace :: "io_event list" where
  "server_trace \<equiv> [Data 727 76 2 ''hi from over there'', Sent (test_data_bytes server_send_data), Line ''safe shutdown'']"

lemma daemon_session_ok:
  assumes "carries a" and "delivers a (test_data_bytes server_send_data)"
  shows "\<exists>w'. daemon_session a client [Line ''connected''] w JFS_OK = Some (Returned (daemon_trace, w', JFS_OK))"
proof -
  have "shutdown_ans a = SysOk ()" using assms by (simp add: carries_def)
  then show ?thesis
    using delivered_recv [OF assms(2) messages(2)] carried_send [OF assms(1) messages(1)]
      carried_drain [OF assms(1) message_bytes [OF messages(2)]] finish_ok(1) [of "close_ans a" client daemon_trace w]
    by (simp add: daemon_session_def test_data_roundtrip messages jfs_ns_socket_shutdown_def jfs_shutdown_def)
qed

lemma server_session_ok:
  assumes "carries a" and "delivers a (test_data_bytes daemon_send_data)"
  shows "\<exists>w'. server_session a server client w JFS_OK = Some (Returned (server_trace, w', JFS_OK))"
proof -
  have "shutdown_ans a = SysOk ()" using assms by (simp add: carries_def)
  then show ?thesis
    using delivered_recv [OF assms(2) messages(1)] carried_send [OF assms(1) messages(2)]
      carried_drain [OF assms(1) message_bytes [OF messages(1)]] finish_ok(2) [of "close_ans a" server client server_trace w]
    by (simp add: server_session_def test_data_roundtrip messages jfs_ns_socket_shutdown_def jfs_shutdown_def)
qed

lemma next_alloc_always [simp]: "alloc_script w = [] \<Longrightarrow> next_alloc w"
  by (simp add: next_alloc_def)

text \<open>Setting the connection up leads to the session.\<close>

lemma server_reaches_session:
  assumes "server_connects a" and "alloc_script w = []"
  shows "\<exists>server client w'. server_run a w JFS_OK = server_session a server client w' JFS_OK"
proof -
  obtain sfd ip rs where s: "socket_ans a = SysOk sfd" "pton_ans a ''0.0.0.0'' = Some ip" "bind_ans a = SysOk () # rs" "listen_ans a = SysOk ()"
    using assms(1) by (auto simp: server_connects_def is_ok_conv)
  obtain ints fd addr rs where a: "accept_ans a = ints @ SysOk (fd, addr, sockaddr_in_size) # rs" "set ints \<subseteq> {SysErr EINTR}" "sin_family addr = AF_INET"
    using assms(1) by (auto simp: server_connects_def)
  have "\<forall>x\<in>set ints. snd (ns_accept_call x JFS_OK) = JFS_ERR_INTER" using a(2) by (auto simp: jfs_accept_def)
  from retry_skips [where call = ns_accept_call, OF this, of "SysOk (fd, addr, sockaddr_in_size)" JFS_OK rs]
  have "\<exists>c w'. jfs_ns_socket_accept (accept_ans a) w1 JFS_OK = Some (Some c, w', JFS_OK)" if "next_alloc w1" for w1
    using a that by (auto simp: jfs_ns_socket_accept_def jfs_ns_socket_create_def heap_malloc_def jfs_malloc_def jfs_accept_def)
  then have acc: "\<exists>client w'. server_accepting a server w1 JFS_OK = server_session a server client w' JFS_OK" if "alloc_script w1 = []" for server w1
    using \<open>alloc_script w1 = []\<close> next_alloc_always [of w1] by (fastforce simp: server_accepting_def)
  have run: "server_run a w JFS_OK = server_accepting a
      \<lparr>sock_fd = sfd, sock_addr = sockaddr_zero\<lparr>sin_family := AF_INET, sin_port := htons SERV_PORT, sin_addr := ip\<rparr>\<rparr>
      (w\<lparr>alloc_script := [], live := live w + 1, open_fds := open_fds w + 1\<rparr>) JFS_OK"
    using s assms(2)
    by (simp add: server_run_def jfs_ns_socket_create_def heap_malloc_def jfs_malloc_def jfs_ns_socket_open_def jfs_socket_def fd_opened_def
        jfs_ns_socket_set_ip_def SERV_PORT_def jfs_ns_socket_bind_def jfs_bind_def jfs_ns_socket_listen_def jfs_listen_def)
  show ?thesis unfolding run by (rule exI) (rule acc, simp)
qed

lemma daemon_reaches_session:
  assumes "daemon_connects a" and "alloc_script w = []"
  shows "\<exists>client w'. daemon_run a w JFS_OK = daemon_session a client [Line ''connected''] w' JFS_OK"
proof -
  obtain fd ai ints rs where d: "socket_ans a = SysOk fd" "lookup_ans a = Inr ai" "ai_family ai = AF_INET" "ai_addrlen ai = sockaddr_in_size"
      "connect_ans a = ints @ SysOk () # rs" "set ints \<subseteq> {SysErr EINTR}"
    using assms(1) by (auto simp: daemon_connects_def is_ok_conv)
  have "\<forall>x\<in>set ints. snd ((\<lambda>r err. ((), jfs_connect r err)) x JFS_OK) = JFS_ERR_INTER" using d(6) by (auto simp: jfs_connect_def)
  then have "jfs_ns_socket_connect (connect_ans a) JFS_OK = Some JFS_OK"
    using retry_skips [of ints "\<lambda>r err. ((), jfs_connect r err)" "SysOk ()" JFS_OK rs] d(5)
    by (simp add: jfs_ns_socket_connect_def jfs_connect_def)
  then show ?thesis using d(1-4) assms(2)
    by (simp add: daemon_run_def jfs_ns_socket_create_def heap_malloc_def jfs_malloc_def jfs_ns_socket_open_def jfs_socket_def fd_opened_def
        jfs_ns_socket_set_hostname_def jfs_getaddrinfo_def SERV_PORT_def) blast
qed

lemma daemon_run_ok:
  assumes "daemon_connects a" and "carries a" and "delivers a (test_data_bytes server_send_data)" and "alloc_script w = []"
  shows "\<exists>w'. daemon_run a w JFS_OK = Some (Returned (daemon_trace, w', JFS_OK))"
  using daemon_reaches_session [OF assms(1,4)] daemon_session_ok [OF assms(2,3)] by metis

lemma server_run_ok:
  assumes "server_connects a" and "carries a" and "delivers a (test_data_bytes daemon_send_data)" and "alloc_script w = []"
  shows "\<exists>w'. server_run a w JFS_OK = Some (Returned (server_trace, w', JFS_OK))"
  using server_reaches_session [OF assms(1,4)] server_session_ok [OF assms(2,3)] by metis

lemma wire_of_simps [simp]:
  "wire_of (Some (Returned (out, w, e))) = sent_bytes out" "wire_of (Some (Running (out, w, e))) = sent_bytes out" "wire_of None = []"
  by (simp_all add: wire_of_def)

lemma sent_bytes_simps [simp]:
  "sent_bytes [] = []" "sent_bytes (Sent bs # out) = bs @ sent_bytes out" "sent_bytes (Line l # out) = sent_bytes out"
  "sent_bytes (Data x y z str # out) = sent_bytes out" "sent_bytes (xs @ ys) = sent_bytes xs @ sent_bytes ys"
  by (simp_all add: sent_bytes_def)

text \<open>Before the other side is known: the server has sent nothing or its message, and a daemon that has received nothing
  has sent its message.\<close>

lemma print_sends_nothing: "print_test_data d = Some line \<Longrightarrow> sent_bytes (out @ [line]) = sent_bytes out"
  by (auto simp: print_test_data_def split: if_splits)

lemma line_sends_nothing: "sent_bytes (out @ [Line l]) = sent_bytes out"
  by simp

lemma drain_sends_nothing:
  "drain_loop scs recv_data out err = Some (Returned (out', e)) \<Longrightarrow> sent_bytes out' = sent_bytes out"
  "drain_loop scs recv_data out err = Some (Running (out', e)) \<Longrightarrow> sent_bytes out' = sent_bytes out"
  by (induction scs recv_data out err rule: drain_loop.induct)
    (auto simp: print_sends_nothing line_sends_nothing simp del: sent_bytes_simps(5) split: run.splits if_splits prod.splits bind_splits)

lemma server_cleanup_wire: "wire_of (server_cleanup server client out w e) \<in> {[], sent_bytes out}"
  by (cases client) (auto simp: server_cleanup_def split: prod.splits)

lemma server_finish_wire: "wire_of (server_finish r server client (Returned (out, e)) w) \<in> {[], sent_bytes out}"
  "wire_of (server_finish r server client (Running (out, e)) w) \<in> {[], sent_bytes out}"
  using server_cleanup_wire [of "Some server" "Some (Some client)" out w e]
  by (auto simp: server_finish_def split: prod.splits)

lemma drain_finish_wire:
  "wire_of (drain_loop scs recv_data out err \<bind> (\<lambda>drained. server_finish r server client drained w)) \<in> {[], sent_bytes out}"
proof (cases "drain_loop scs recv_data out err")
  case (Some d)
  obtain out' e where "d = Returned (out', e) \<or> d = Running (out', e)" by (cases d) auto
  then show ?thesis using Some drain_sends_nothing [of scs recv_data out err out' e] server_finish_wire [of r server client out' e w] by auto
qed simp

lemma server_session_wire:
  assumes "carries a"
  shows "wire_of (server_session a server client w JFS_OK) \<in> {[], test_data_bytes server_send_data}"
proof -
  have shut: "shutdown_ans a = SysOk ()" using assms by (simp add: carries_def)
  note send = carried_send [OF assms messages(2)]
  obtain n d e where r: "jfs_ns_socket_recv (recv_ans a) recv_zero JFS_OK = Returned (n, d, e) \<or>
      jfs_ns_socket_recv (recv_ans a) recv_zero JFS_OK = Running (n, d, e)"
    by (cases "jfs_ns_socket_recv (recv_ans a) recv_zero JFS_OK" rule: run_triple) auto
  show ?thesis
  proof (cases "e = JFS_OK \<and> print_test_data (test_data_of d) \<noteq> None")
    case True
    then obtain line where line: "print_test_data (test_data_of d) = Some line" by auto
    let ?out = "[line, Sent (test_data_bytes server_send_data)]"
    have "sent_bytes ?out = test_data_bytes server_send_data" using print_sends_nothing [OF line, of "[]"] by (cases line) auto
    then show ?thesis using r True line send shut drain_finish_wire [of "drain_ans a" d ?out JFS_OK "close_ans a" server client w]
      by (auto simp: server_session_def jfs_ns_socket_shutdown_def jfs_shutdown_def)
  next
    case False
    then show ?thesis using r server_cleanup_wire [of "Some server" "Some (Some client)" "[]" w e] by (auto simp: server_session_def)
  qed
qed

lemma daemon_session_wire:
  assumes "carries a" and "delivers a []"
  shows "wire_of (daemon_session a client out w JFS_OK) = sent_bytes out @ test_data_bytes daemon_send_data"
proof -
  obtain cs where cs: "filter (\<lambda>r. r \<noteq> SysErr EINTR) (recv_ans a) = map SysOk cs" "[] \<notin> set cs" "concat cs = []"
    using assms(2) unfolding delivers_def by blast
  then have "cs = []" by (cases cs) auto
  with cs(1) obtain x where "jfs_ns_socket_recv (recv_ans a) recv_zero JFS_OK = Running x"
    using recv_only_interrupted [of "recv_ans a" recv_zero] by (auto simp: recv_zero_def)
  then obtain n d e where "jfs_ns_socket_recv (recv_ans a) recv_zero JFS_OK = Running (n, d, e)" by (cases x) auto
  then show ?thesis using carried_send [OF assms(1) messages(1)] by (simp add: daemon_session_def)
qed

text \<open>C16. The server and the daemon understand each other. Both are started with the error code \<open>JFS_OK\<close> (\<open>main\<close> leaves
  the variable unset), no allocation fails, and the system sets the connection up, takes what they send, and ends the streams
  after the shutdown. If each of them receives exactly the bytes that the other one sends, in pieces of any size and with any
  interruptions, then the server prints the daemon's message, the daemon prints the server's, and both report a safe shutdown and
  return without an error.\<close>

theorem peers_exchange:
  assumes "server_connects s" and "carries s" and "daemon_connects d" and "carries d"
    and "alloc_script ws = []" and "alloc_script wd = []"
    and "from_daemon = wire_of (daemon_run d wd JFS_OK)" and "delivers s from_daemon"
    and "from_server = wire_of (server_run s ws JFS_OK)" and "delivers d from_server"
  shows "(\<exists>ws'. server_run s ws JFS_OK =
      Some (Returned ([Data 727 76 2 ''hi from over there'', Sent (test_data_bytes server_send_data), Line ''safe shutdown''], ws', JFS_OK))) \<and>
    (\<exists>wd'. daemon_run d wd JFS_OK =
      Some (Returned ([Line ''connected'', Sent (test_data_bytes daemon_send_data), Data 85 69 42 ''uma musume: pretty derby'',
        Line ''safe shutdown''], wd', JFS_OK)))"
proof -
  have "from_server \<in> {[], test_data_bytes server_send_data}"
    using server_reaches_session [OF assms(1,5)] server_session_wire [OF assms(2)] assms(9) by metis
  then have "from_daemon = test_data_bytes daemon_send_data"
  proof
    assume "from_server = []"
    then show ?thesis using daemon_reaches_session [OF assms(3,6)] daemon_session_wire [OF assms(4)] assms(7,10) by force
  next
    assume "from_server \<in> {test_data_bytes server_send_data}"
    then show ?thesis using daemon_run_ok [OF assms(3,4) _ assms(6)] assms(7,10) by auto
  qed
  then have server: "\<exists>ws'. server_run s ws JFS_OK = Some (Returned (server_trace, ws', JFS_OK))"
    using server_run_ok [OF assms(1,2) _ assms(5)] assms(8) by simp
  then have "from_server = test_data_bytes server_send_data" using assms(9) by auto
  with server show ?thesis using daemon_run_ok [OF assms(3,4) _ assms(6)] assms(10) by simp
qed


section \<open>Concrete runs\<close>

definition demo_ns_world :: ns_world where
  "demo_ns_world = \<lparr>alloc_script = [], live = 0, open_fds = 0, addr_lists = 0\<rparr>"

definition demo_addr :: sockaddr_in where
  "demo_addr = \<lparr>sin_family = 2, sin_port = htons SERV_PORT, sin_addr = 1\<rparr>"

definition demo_net :: "byte list \<Rightarrow> net_answers" where
  "demo_net incoming = \<lparr>pton_ans = (\<lambda>_. Some 0), lookup_ans = Inr \<lparr>ai_family = 2, ai_addrlen = 16, ai_addr = demo_addr\<rparr>,
     socket_ans = SysOk 3, bind_ans = [SysOk ()], listen_ans = SysOk (), accept_ans = [SysErr EINTR, SysOk (4, demo_addr, 16)],
     connect_ans = [SysErr EINTR, SysOk ()], send_ans = [SysOk 100, SysErr EINTR, SysOk 100],
     recv_ans = [SysOk (take 50 incoming), SysErr EINTR, SysOk (drop 50 incoming)],
     shutdown_ans = SysOk (), drain_ans = [[SysOk []]], close_ans = SysOk ()\<rparr>"

lemma demo_carries: "carries (demo_net incoming)"
  unfolding carries_def
proof (intro conjI)
  show "\<exists>ns. filter (\<lambda>r. r \<noteq> SysErr EINTR) (send_ans (demo_net incoming)) = map SysOk ns \<and> 112 \<le> sum_list ns"
    by (intro exI [of _ "[100, 100]"]) (simp add: demo_net_def)
qed (simp_all add: demo_net_def)

lemma demo_delivers:
  assumes "length incoming = 112"
  shows "delivers (demo_net incoming) incoming"
  unfolding delivers_def using assms by (intro exI [of _ "[take 50 incoming, drop 50 incoming]"]) (auto simp: demo_net_def)

lemma demo_connects: "server_connects (demo_net incoming)" "daemon_connects (demo_net incoming)"
proof -
  have "\<exists>ints fd addr rs. accept_ans (demo_net incoming) = ints @ SysOk (fd, addr, sockaddr_in_size) # rs \<and> set ints \<subseteq> {SysErr EINTR} \<and> sin_family addr = AF_INET"
    by (intro exI [of _ "[SysErr EINTR]"] exI [of _ 4] exI [of _ demo_addr] exI [of _ "[]"]) (simp add: demo_net_def demo_addr_def sockaddr_in_size_def AF_INET_def)
  then show "server_connects (demo_net incoming)" by (simp add: server_connects_def) (simp add: demo_net_def)
  have "\<exists>ints rs. connect_ans (demo_net incoming) = ints @ SysOk () # rs \<and> set ints \<subseteq> {SysErr EINTR}"
    by (intro exI [of _ "[SysErr EINTR]"] exI [of _ "[]"]) (simp add: demo_net_def)
  then show "daemon_connects (demo_net incoming)"
    by (simp add: daemon_connects_def) (simp add: demo_net_def sockaddr_in_size_def AF_INET_def)
qed

theorem peers_exchange_witness:
  "\<exists>w. daemon_run (demo_net (test_data_bytes server_send_data)) demo_ns_world JFS_OK =
    Some (Returned ([Line ''connected'', Sent (test_data_bytes daemon_send_data), Data 85 69 42 ''uma musume: pretty derby'', Line ''safe shutdown''], w, JFS_OK))"
proof -
  let ?s = "demo_net (test_data_bytes daemon_send_data)" and ?d = "demo_net (test_data_bytes server_send_data)"
  have w: "alloc_script demo_ns_world = []" by (simp add: demo_ns_world_def)
  note len = length_test_data [OF messages(1)] length_test_data [OF messages(2)]
  have "wire_of (daemon_run ?d demo_ns_world JFS_OK) = test_data_bytes daemon_send_data"
    using daemon_run_ok [OF demo_connects(2) demo_carries demo_delivers [OF len(2)] w] by auto
  moreover have "wire_of (server_run ?s demo_ns_world JFS_OK) = test_data_bytes server_send_data"
    using server_run_ok [OF demo_connects(1) demo_carries demo_delivers [OF len(1)] w] by auto
  ultimately have "delivers ?s (wire_of (daemon_run ?d demo_ns_world JFS_OK))" "delivers ?d (wire_of (server_run ?s demo_ns_world JFS_OK))"
    using demo_delivers [OF len(1)] demo_delivers [OF len(2)] by simp_all
  from peers_exchange [OF demo_connects(1) demo_carries demo_connects(2) demo_carries w w refl this(1) refl this(2)]
  show ?thesis by (rule conjunct2)
qed

definition outcome :: "(io_event list \<times> ns_world \<times> jfs_err_t) run option \<Rightarrow> (io_event list \<times> jfs_err_t) option" where
  "outcome r = (case r of Some (Returned (out, w, e)) \<Rightarrow> Some (out, e) | _ \<Rightarrow> None)"

lemma outcome_returned: "outcome r = Some (out, e) \<Longrightarrow> \<exists>w. r = Some (Returned (out, w, e))"
  by (auto simp: outcome_def split: option.splits run.splits prod.splits)

theorem daemon_releases_witness:
  "\<exists>w. daemon_run ((demo_net [])\<lparr>recv_ans := [SysOk []]\<rparr>) demo_ns_world JFS_OK =
      Some (Returned ([Line ''connected'', Sent (test_data_bytes daemon_send_data)], w, JFS_ERR_NS_CONNECTION_CLOSE)) \<and> live w = 0 \<and> open_fds w = 0"
proof -
  have "outcome (daemon_run ((demo_net [])\<lparr>recv_ans := [SysOk []]\<rparr>) demo_ns_world JFS_OK) = Some ([Line ''connected'', Sent (test_data_bytes daemon_send_data)], JFS_ERR_NS_CONNECTION_CLOSE)" by code_simp
  from outcome_returned [OF this] obtain w where
    "daemon_run ((demo_net [])\<lparr>recv_ans := [SysOk []]\<rparr>) demo_ns_world JFS_OK = Some (Returned ([Line ''connected'', Sent (test_data_bytes daemon_send_data)], w, JFS_ERR_NS_CONNECTION_CLOSE))" by blast
  with daemon_releases [OF this] show ?thesis by (auto simp: demo_net_def demo_ns_world_def)
qed

theorem server_releases_witness:
  "\<exists>w. server_run ((demo_net [])\<lparr>recv_ans := [SysOk []]\<rparr>) demo_ns_world JFS_OK =
      Some (Returned ([], w, JFS_ERR_NS_CONNECTION_CLOSE)) \<and> live w = 0 \<and> open_fds w = 0"
proof -
  have "outcome (server_run ((demo_net [])\<lparr>recv_ans := [SysOk []]\<rparr>) demo_ns_world JFS_OK) = Some ([], JFS_ERR_NS_CONNECTION_CLOSE)" by code_simp
  from outcome_returned [OF this] obtain w where
    "server_run ((demo_net [])\<lparr>recv_ans := [SysOk []]\<rparr>) demo_ns_world JFS_OK = Some (Returned ([], w, JFS_ERR_NS_CONNECTION_CLOSE))" by blast
  with server_releases [OF this] show ?thesis by (auto simp: demo_net_def demo_ns_world_def)
qed

theorem server_fails_before_accept_witness:
  "server_run ((demo_net [])\<lparr>bind_ans := [SysErr (E_OTHER 98)]\<rparr>) demo_ns_world JFS_OK = None"
  using server_fails_before_accept [of "(demo_net [])\<lparr>bind_ans := [SysErr (E_OTHER 98)]\<rparr>"] by simp

end
