(* ===== verification/Jfs_Tsq.thy ===== *)
theory Jfs_Tsq
  imports Jfs_Net_Socket
begin

text \<open>
  The thread-safe queue (\<open>src/src/modules/thread_safe_queue.c\<close>, \<open>src/src/include/thread_safe_queue.h\<close>): a list of chunks,
  each a ring of 64 items. The module is unfinished and not part of the build. The queue is modelled with the chunks
  from front to back as a list; the mutex the code locks is a field (the struct of the header lacks it), and locking it
  twice is \<open>None\<close>, a thread that waits forever. \<open>jfs_tsq_chunk_enqueue\<close> is not a complete function in the source, so the
  queue takes it as an argument, of which nothing is assumed. The theorems say what keeps the module from working: no
  queue is ever initialised, the indices of a new chunk are addresses, and an error leaves the queue locked.
\<close>

section \<open>Chunks\<close>

definition JFS_TSQ_CHUNK_SIZE :: size_t where
  "JFS_TSQ_CHUNK_SIZE = 64"

record jfs_tsq_chunk =
  ck_head :: size_t
  ck_tail :: size_t
  ck_count :: size_t
  ck_items :: "addr list"

record jfs_tsq_queue =
  chunks :: "jfs_tsq_chunk list"
  chunk_count :: size_t
  tsq_eventfd :: int
  tsq_lock :: bool

text \<open>\<open>items\<close> is the address of the array of the new chunk: the code initialises the indices \<open>head\<close> and \<open>tail\<close> with it.\<close>

definition jfs_tsq_chunk_create :: "addr \<Rightarrow> ns_world \<Rightarrow> jfs_err_t \<Rightarrow> jfs_tsq_chunk option \<times> ns_world \<times> jfs_err_t" where
  "jfs_tsq_chunk_create items w err =
     (let (p, w, err) = heap_malloc w err
      in if err \<noteq> JFS_OK then (None, w, err)
         else (Some \<lparr>ck_head = items, ck_tail = items, ck_count = 0, ck_items = replicate 64 NULL\<rparr>, w, err))"

text \<open>Only an empty chunk is given a meaning: the loop over the items of another one takes an index for a pointer.\<close>

definition jfs_tsq_chunk_destroy :: "jfs_tsq_chunk \<Rightarrow> ns_world \<Rightarrow> ns_world option" where
  "jfs_tsq_chunk_destroy chunk w = (if ck_count chunk \<noteq> 0 then None else Some (heap_free False w))"

text \<open>An index outside the array is \<open>None\<close>.\<close>

definition jfs_tsq_chunk_dequeue :: "jfs_tsq_chunk \<Rightarrow> (addr \<times> jfs_tsq_chunk) option" where
  "jfs_tsq_chunk_dequeue chunk = do {
     c_assert (unat (ck_head chunk) < length (ck_items chunk));
     let item = ck_items chunk ! unat (ck_head chunk);
     let chunk = chunk\<lparr>ck_head := (ck_head chunk + 1) mod JFS_TSQ_CHUNK_SIZE\<rparr>;
     let chunk = chunk\<lparr>ck_count := ck_count chunk - 1\<rparr>;
     Some (item, chunk)
   }"

section \<open>The queue\<close>

definition tsq_mutex_lock :: "jfs_tsq_queue \<Rightarrow> jfs_tsq_queue option" where
  "tsq_mutex_lock queue = do { c_assert (\<not> tsq_lock queue); Some (queue\<lparr>tsq_lock := True\<rparr>) }"

definition tsq_mutex_unlock :: "jfs_tsq_queue \<Rightarrow> jfs_tsq_queue" where
  "tsq_mutex_unlock queue = queue\<lparr>tsq_lock := False\<rparr>"

text \<open>\<open>err_ptr\<close> is the address of the caller's error variable, which the code compares with \<open>JFS_OK\<close>. The descriptor is not
  stored in the queue. The result is \<open>None\<close> when the fields of the queue were not set.\<close>

definition jfs_tsq_init ::
  "addr \<Rightarrow> jfs_tsq_queue \<Rightarrow> bool \<Rightarrow> int sys \<Rightarrow> errno \<Rightarrow> errno \<Rightarrow> addr \<Rightarrow> ns_world \<Rightarrow> jfs_err_t
     \<Rightarrow> (jfs_tsq_queue option \<times> ns_world \<times> jfs_err_t) option" where
  "jfs_tsq_init items queue_init free_item_null event_ans mutex_ret errno_now err_ptr w err =
     (if free_item_null then Some (None, w, JFS_ERR_ARG)
      else let (created, w, err) = jfs_tsq_chunk_create items w err in
      if err \<noteq> JFS_OK then Some (None, w, err)
      else do {
        first_chunk \<leftarrow> created;
        let (event_fd, err) = jfs_eventfd event_ans err;
        let w = fd_opened event_ans w;
        if err_ptr \<noteq> NULL then do {
          w \<leftarrow> jfs_tsq_chunk_destroy first_chunk w;
          Some (None, w, err)
        } else do {
          let err = jfs_mutex_init mutex_ret errno_now err;
          if err_ptr \<noteq> NULL then do {
            w \<leftarrow> jfs_tsq_chunk_destroy first_chunk w;
            Some (None, fd_closed w, err)
          } else Some (Some (queue_init\<lparr>chunks := [first_chunk], chunk_count := 1, tsq_lock := False\<rparr>), w, err)
        }
      })"

fun tsq_free_loop :: "jfs_tsq_chunk list \<Rightarrow> ns_world \<Rightarrow> ns_world option" where
  "tsq_free_loop [] w = Some w"
| "tsq_free_loop (front # rest) w = do {
     w \<leftarrow> jfs_tsq_chunk_destroy front w;
     tsq_free_loop rest w
   }"

definition jfs_tsq_free ::
  "errno \<Rightarrow> errno \<Rightarrow> jfs_tsq_queue \<Rightarrow> ns_world \<Rightarrow> jfs_err_t \<Rightarrow> (jfs_tsq_queue \<times> ns_world \<times> jfs_err_t) option" where
  "jfs_tsq_free mutex_ret errno_now queue_free w err = do {
     queue_free \<leftarrow> tsq_mutex_lock queue_free;
     if err \<noteq> JFS_OK then Some (tsq_mutex_unlock queue_free, w, err)
     else do {
       w \<leftarrow> tsq_free_loop (chunks queue_free) w;
       let queue_free = tsq_mutex_unlock (queue_free\<lparr>chunks := []\<rparr>);
       Some (queue_free, w, jfs_mutex_destroy mutex_ret errno_now err)
     }
   }"

text \<open>The eight bytes of \<open>(uint64_t) {1}\<close>.\<close>

definition event_one :: "byte list" where
  "event_one = [1, 0, 0, 0, 0, 0, 0, 0]"

definition jfs_tsq_enqueue ::
  "(jfs_tsq_chunk \<Rightarrow> addr \<Rightarrow> jfs_tsq_chunk option) \<Rightarrow> addr \<Rightarrow> nat sys list \<Rightarrow> jfs_tsq_queue \<Rightarrow> addr \<Rightarrow> ns_world \<Rightarrow> jfs_err_t
     \<Rightarrow> (jfs_tsq_queue \<times> ns_world \<times> jfs_err_t) run option" where
  "jfs_tsq_enqueue chunk_enqueue items script queue item w err = do {
     queue \<leftarrow> tsq_mutex_lock queue;
     c_assert (chunks queue \<noteq> []);
     let full = (ck_count (last (chunks queue)) = JFS_TSQ_CHUNK_SIZE);
     let (new_chunk, w, err) = (if full then jfs_tsq_chunk_create items w err else (None, w, err));
     if full \<and> err \<noteq> JFS_OK then Some (Returned (tsq_mutex_unlock queue, w, err))
     else do {
       queue \<leftarrow> (if full then do {
                   new_chunk \<leftarrow> new_chunk;
                   Some (queue\<lparr>chunks := chunks queue @ [new_chunk], chunk_count := chunk_count queue + 1\<rparr>)
                 } else Some queue);
       case jfs_fio_write script event_one err of
         Running (n, written, err) \<Rightarrow> Some (Running (queue, w, err))
       | Returned (n, written, err) \<Rightarrow>
           if err \<noteq> JFS_OK then Some (Returned (queue, w, err))
           else do {
             back \<leftarrow> chunk_enqueue (last (chunks queue)) item;
             let queue = queue\<lparr>chunks := butlast (chunks queue) @ [back]\<rparr>;
             Some (Returned (tsq_mutex_unlock queue, w, err))
           }
     }
   }"

definition jfs_tsq_dequeue ::
  "jfs_tsq_queue \<Rightarrow> ns_world \<Rightarrow> jfs_err_t \<Rightarrow> (addr \<times> jfs_tsq_queue \<times> ns_world \<times> jfs_err_t) option" where
  "jfs_tsq_dequeue queue w err = do {
     queue \<leftarrow> tsq_mutex_lock queue;
     c_assert (chunks queue \<noteq> []);
     if ck_count (hd (chunks queue)) = 0 then Some (NULL, tsq_mutex_unlock queue, w, JFS_ERR_EMPTY)
     else do {
       (item, front) \<leftarrow> jfs_tsq_chunk_dequeue (hd (chunks queue));
       let queue = queue\<lparr>chunks := front # tl (chunks queue)\<rparr>;
       (queue, w) \<leftarrow>
         (if chunk_count queue > 1 \<and> ck_count front = 0 then do {
            w \<leftarrow> jfs_tsq_chunk_destroy front w;
            Some (queue\<lparr>chunks := tl (chunks queue), chunk_count := chunk_count queue - 1\<rparr>, w)
          } else Some (queue, w));
       Some (item, tsq_mutex_unlock queue, w, err)
     }
   }"

definition jfs_tsq_is_empty :: "jfs_tsq_queue \<Rightarrow> (bool \<times> jfs_tsq_queue) option" where
  "jfs_tsq_is_empty queue = do {
     queue \<leftarrow> tsq_mutex_lock queue;
     c_assert (chunks queue \<noteq> []);
     let is_free_ready = (ck_count (hd (chunks queue)) = 0 \<and> chunk_count queue = 1);
     Some (is_free_ready, tsq_mutex_unlock queue)
   }"

section \<open>Properties\<close>

lemma tsq_init_outcome:
  assumes "err_ptr \<noteq> NULL"
  shows "\<exists>w' e. jfs_tsq_init items queue False event_ans mutex_ret errno_now err_ptr w JFS_OK = Some (None, w', e) \<and>
    (e = JFS_OK \<longleftrightarrow> next_alloc w \<and> is_ok event_ans) \<and> live w' = live w \<and>
    open_fds w' = open_fds w + (if e = JFS_OK then 1 else 0)"
proof (cases "next_alloc w")
  case False
  then show ?thesis by (simp add: jfs_tsq_init_def jfs_tsq_chunk_create_def heap_malloc_def jfs_malloc_def)
next
  case True
  have "jfs_eventfd (SysErr x) JFS_OK = (-1, e) \<Longrightarrow> e \<noteq> JFS_OK" for x e
    by (simp add: jfs_eventfd_def split: errno.splits)
  with assms True show ?thesis
    by (cases event_ans) (auto simp: jfs_tsq_init_def jfs_tsq_chunk_create_def heap_malloc_def jfs_malloc_def jfs_eventfd_def fd_opened_def
      jfs_tsq_chunk_destroy_def heap_free_def split: errno.splits)
qed

text \<open>C36. \<open>jfs_tsq_init\<close> compares the address of the error code with \<open>JFS_OK\<close> instead of the code, and so never sets a field of the
  queue, whatever the allocator and the kernel answer: it destroys the chunk it created, if any. When the chunk and the event descriptor
  were created it reports no error, and the descriptor stays open and is stored nowhere; otherwise it reports an error.\<close>

theorem tsq_init_never_initialises:
  assumes "err_ptr \<noteq> NULL"
  shows "\<exists>w' e. jfs_tsq_init items queue False event_ans mutex_ret errno_now err_ptr w JFS_OK = Some (None, w', e) \<and>
    (e = JFS_OK \<longleftrightarrow> next_alloc w \<and> is_ok event_ans) \<and> live w' = live w \<and>
    open_fds w' = open_fds w + (if e = JFS_OK then 1 else 0)"
  using assms by (rule tsq_init_outcome)

text \<open>A new chunk has addresses for indices: taking an item from it reads outside its array, of 64 items, unless the array lies
  in the first 64 bytes of memory.\<close>

theorem tsq_chunk_create_bad_index:
  assumes "jfs_tsq_chunk_create items w JFS_OK = (Some c, w', JFS_OK)" and "64 \<le> unat items"
  shows "\<not> unat (ck_tail c) < length (ck_items c) \<and> jfs_tsq_chunk_dequeue c = None"
  using assms by (auto simp: jfs_tsq_chunk_create_def jfs_tsq_chunk_dequeue_def heap_malloc_def jfs_malloc_def split: if_splits)

text \<open>An enqueue whose write to the event descriptor fails returns with the lock held: whatever is called on the queue next
  waits for it forever.\<close>

theorem tsq_enqueue_error_keeps_lock:
  assumes "\<not> tsq_lock q" and "chunks q \<noteq> []" and "ck_count (last (chunks q)) \<noteq> JFS_TSQ_CHUNK_SIZE"
    and "jfs_fio_write script event_one JFS_OK = Returned (n, written, e)" and "e \<noteq> JFS_OK"
  shows "\<exists>q'. jfs_tsq_enqueue enq items script q x w JFS_OK = Some (Returned (q', w, e)) \<and> chunks q' = chunks q \<and>
    jfs_tsq_dequeue q' w1 e1 = None \<and> jfs_tsq_is_empty q' = None \<and> jfs_tsq_enqueue enq items script' q' y w2 e2 = None \<and>
    jfs_tsq_free r en q' w3 e3 = None"
  using assms by (auto simp: jfs_tsq_enqueue_def jfs_tsq_dequeue_def jfs_tsq_is_empty_def jfs_tsq_free_def tsq_mutex_lock_def)

section \<open>A concrete queue\<close>

definition demo_queue :: jfs_tsq_queue where
  "demo_queue = \<lparr>chunks = [\<lparr>ck_head = 63, ck_tail = 0, ck_count = 1, ck_items = replicate 63 NULL @ [7]\<rparr>],
     chunk_count = 1, tsq_eventfd = 3, tsq_lock = False\<rparr>"

definition demo_world :: ns_world where
  "demo_world = \<lparr>alloc_script = [], live = 1, open_fds = 1, addr_lists = 0\<rparr>"

theorem tsq_init_never_initialises_witness:
  "\<exists>w'. jfs_tsq_init 4096 demo_queue False (SysOk 3) E_NONE E_NONE 4096 demo_world JFS_OK = Some (None, w', JFS_OK) \<and> open_fds w' = 2"
  using tsq_init_never_initialises [of 4096 4096 demo_queue "SysOk 3" E_NONE E_NONE demo_world]
  by (auto simp: next_alloc_def demo_world_def)

theorem tsq_chunk_create_bad_index_witness:
  "\<exists>c w'. jfs_tsq_chunk_create 4096 demo_world JFS_OK = (Some c, w', JFS_OK) \<and> jfs_tsq_chunk_dequeue c = None"
proof -
  obtain c w' where c: "jfs_tsq_chunk_create 4096 demo_world JFS_OK = (Some c, w', JFS_OK)"
    by (simp add: jfs_tsq_chunk_create_def heap_malloc_def jfs_malloc_def next_alloc_def demo_world_def)
  with tsq_chunk_create_bad_index [OF c] show ?thesis by simp
qed

theorem tsq_enqueue_error_keeps_lock_witness:
  "\<exists>q' w. jfs_tsq_enqueue (\<lambda>c x. Some c) 4096 [SysErr (E_OTHER 9)] demo_queue 9 w JFS_OK = Some (Returned (q', w, JFS_ERR_SYS)) \<and>
     jfs_tsq_dequeue q' w JFS_OK = None"
proof -
  have q: "\<not> tsq_lock demo_queue" "chunks demo_queue \<noteq> []" "ck_count (last (chunks demo_queue)) \<noteq> JFS_TSQ_CHUNK_SIZE"
    by (simp_all add: demo_queue_def JFS_TSQ_CHUNK_SIZE_def)
  have "jfs_fio_write [SysErr (E_OTHER 9)] event_one JFS_OK = Returned (0, [], JFS_ERR_SYS)" by code_simp
  from tsq_enqueue_error_keeps_lock [OF q this] show ?thesis by blast
qed

end
