(* ===== verification/Jfs_Tm.thy ===== *)
theory Jfs_Tm
  imports Jfs_Tsq
begin

text \<open>
  Messages between the threads of the daemon (\<open>src/src/modules/thread_message.c\<close>, \<open>src/src/include/thread_message.h\<close>): queues of
  messages over \<open>Jfs_Tsq\<close> and a router with one queue for each location. The module is unfinished and not part of the build: the
  operations \<open>jfs_tsq_fast_dequeue\<close>, \<open>jfs_tsq_timed_dequeue\<close> and \<open>jfs_tsq_shutdown\<close> and the error code
  \<open>JFS_ERR_TM_NOT_SHUTDOWN\<close> are declared nowhere and are arguments here. A null queue that is used is \<open>None\<close>, a location that is
  no index of the array too. The queues that the module creates are not usable, because of \<open>jfs_tsq_init\<close>
  (\<open>tm_queue_create_unusable\<close>), so what is shown of the router does not depend on what its queues hold. The broadcast on the
  condition variable in the retry of \<open>jfs_tm_router_destroy\<close> is left out.
\<close>

section \<open>Messages\<close>

datatype jfs_tm_msg_type = JFS_TM_NORM | JFS_TM_RET

datatype jfs_tm_location = JFS_TM_DATABASE | JFS_TM_GENERAL | JFS_TM_MAIN | JFS_TM_NETWORK | JFS_TM_QUEUE_ID_COUNT

fun loc_index :: "jfs_tm_location \<Rightarrow> nat" where
  "loc_index JFS_TM_DATABASE = 0"
| "loc_index JFS_TM_GENERAL = 1"
| "loc_index JFS_TM_MAIN = 2"
| "loc_index JFS_TM_NETWORK = 3"
| "loc_index JFS_TM_QUEUE_ID_COUNT = 4"

record jfs_tm_msg_route =
  route_sender :: jfs_tm_location
  route_target :: jfs_tm_location
  route_forward :: jfs_tm_location

text \<open>\<open>kind\<close> is an empty union.\<close>

record jfs_tm_msg =
  msg_type :: jfs_tm_msg_type
  msg_sender :: jfs_tm_location
  msg_target :: jfs_tm_location
  msg_context :: addr
  msg_context_free :: addr

definition jfs_tm_msg_create :: "ns_world \<Rightarrow> jfs_err_t \<Rightarrow> jfs_tm_msg option \<times> ns_world \<times> jfs_err_t" where
  "jfs_tm_msg_create w err =
     (let (p, w, err) = heap_malloc w err
      in if err \<noteq> JFS_OK then (None, w, err)
         else (Some \<lparr>msg_type = JFS_TM_NORM, msg_sender = JFS_TM_DATABASE, msg_target = JFS_TM_DATABASE,
                     msg_context = NULL, msg_context_free = NULL\<rparr>, w, err))"

text \<open>\<open>call f x\<close> is the call of the function at \<open>f\<close> with the argument \<open>x\<close>.\<close>

definition jfs_tm_msg_destroy :: "(addr \<Rightarrow> addr \<Rightarrow> ns_world \<Rightarrow> ns_world) \<Rightarrow> jfs_tm_msg option \<Rightarrow> ns_world \<Rightarrow> ns_world" where
  "jfs_tm_msg_destroy call msg_move w =
     (case msg_move of
        None \<Rightarrow> w
      | Some msg \<Rightarrow>
          let w = (if msg_context_free msg \<noteq> NULL then call (msg_context_free msg) (msg_context msg) w
                   else heap_free (msg_context msg = NULL) w)
          in heap_free False w)"

section \<open>Queues\<close>

record jfs_tm_queue =
  tsq :: jfs_tsq_queue

text \<open>\<open>fresh\<close> is what the allocated memory holds.\<close>

definition jfs_tm_queue_create ::
  "addr \<Rightarrow> jfs_tsq_queue \<Rightarrow> int sys \<Rightarrow> errno \<Rightarrow> errno \<Rightarrow> addr \<Rightarrow> ns_world \<Rightarrow> jfs_err_t \<Rightarrow> (jfs_tm_queue option \<times> ns_world \<times> jfs_err_t) option" where
  "jfs_tm_queue_create items fresh event_ans mutex_ret errno_now err_ptr w err =
     (let (p, w, err) = heap_malloc w err in
      if err \<noteq> JFS_OK then Some (None, w, err)
      else do {
        (init, w, err) \<leftarrow> jfs_tsq_init items fresh False event_ans mutex_ret errno_now err_ptr w err;
        if err \<noteq> JFS_OK then Some (None, heap_free False w, err)
        else Some (Some \<lparr>tsq = (case init of Some q \<Rightarrow> q | None \<Rightarrow> fresh)\<rparr>, w, err)
      })"

text \<open>The queue that is left: none after it was freed.\<close>

definition jfs_tm_queue_destroy ::
  "errno \<Rightarrow> errno \<Rightarrow> jfs_tm_queue option \<Rightarrow> ns_world \<Rightarrow> jfs_err_t \<Rightarrow> (jfs_tm_queue option \<times> ns_world \<times> jfs_err_t) option" where
  "jfs_tm_queue_destroy mutex_ret errno_now queue_move w err =
     (case queue_move of
        None \<Rightarrow> Some (None, w, err)
      | Some queue \<Rightarrow> do {
          (t, w, err) \<leftarrow> jfs_tsq_free mutex_ret errno_now (tsq queue) w err;
          if err \<noteq> JFS_OK then Some (Some (queue\<lparr>tsq := t\<rparr>), w, err)
          else Some (None, heap_free False w, err)
        })"

definition jfs_tm_queue_push ::
  "(jfs_tsq_chunk \<Rightarrow> addr \<Rightarrow> jfs_tsq_chunk option) \<Rightarrow> addr \<Rightarrow> nat sys list \<Rightarrow> jfs_tm_queue \<Rightarrow> addr \<Rightarrow> ns_world \<Rightarrow> jfs_err_t
     \<Rightarrow> (jfs_tm_queue \<times> ns_world \<times> jfs_err_t) run option" where
  "jfs_tm_queue_push chunk_enqueue items script queue msg_move w err = do {
     r \<leftarrow> jfs_tsq_enqueue chunk_enqueue items script (tsq queue) msg_move w err;
     Some (case r of
             Running (t, w, err) \<Rightarrow> Running (queue\<lparr>tsq := t\<rparr>, w, err)
           | Returned (t, w, err) \<Rightarrow> Returned (queue\<lparr>tsq := t\<rparr>, w, err))
   }"

type_synonym tsq_take = "jfs_tsq_queue \<Rightarrow> ns_world \<Rightarrow> jfs_err_t \<Rightarrow> (addr \<times> jfs_tsq_queue \<times> ns_world \<times> jfs_err_t) option"
type_synonym tm_take = "jfs_tm_queue \<Rightarrow> ns_world \<Rightarrow> jfs_err_t \<Rightarrow> (addr \<times> jfs_tm_queue \<times> ns_world \<times> jfs_err_t) option"

definition jfs_tm_queue_pop :: tm_take where
  "jfs_tm_queue_pop queue w err = do {
     (msg, t, w, err) \<leftarrow> jfs_tsq_dequeue (tsq queue) w err;
     Some (if err \<noteq> JFS_OK then NULL else msg, queue\<lparr>tsq := t\<rparr>, w, err)
   }"

definition jfs_tm_queue_fast_pop :: "tsq_take \<Rightarrow> tm_take" where
  "jfs_tm_queue_fast_pop fast_dequeue queue w err = do {
     (msg, t, w, err) \<leftarrow> fast_dequeue (tsq queue) w err;
     Some (if err \<noteq> JFS_OK then NULL else msg, queue\<lparr>tsq := t\<rparr>, w, err)
   }"

definition jfs_tm_queue_timed_pop :: "('time \<Rightarrow> tsq_take) \<Rightarrow> 'time \<Rightarrow> tm_take" where
  "jfs_tm_queue_timed_pop timed_dequeue time queue w err = do {
     (msg, t, w, err) \<leftarrow> timed_dequeue time (tsq queue) w err;
     Some (if err \<noteq> JFS_OK then NULL else msg, queue\<lparr>tsq := t\<rparr>, w, err)
   }"

definition jfs_tm_queue_shutdown :: "(jfs_tsq_queue \<Rightarrow> jfs_tsq_queue) \<Rightarrow> jfs_tm_queue \<Rightarrow> jfs_tm_queue" where
  "jfs_tm_queue_shutdown shutdown queue = queue\<lparr>tsq := shutdown (tsq queue)\<rparr>"

section \<open>The router\<close>

record jfs_tm_router =
  queues :: "jfs_tm_queue option list"

text \<open>\<open>router->queues[queue_id]\<close>, used as a queue.\<close>

definition router_queue :: "jfs_tm_router \<Rightarrow> jfs_tm_location \<Rightarrow> jfs_tm_queue option" where
  "router_queue router queue_id =
     (if loc_index queue_id < length (queues router) then queues router ! loc_index queue_id else None)"

definition jfs_tm_router_create :: "ns_world \<Rightarrow> jfs_err_t \<Rightarrow> jfs_tm_router option \<times> ns_world \<times> jfs_err_t" where
  "jfs_tm_router_create w err =
     (let (p, w, err) = heap_malloc w err
      in if err \<noteq> JFS_OK then (None, w, err)
         else (Some \<lparr>queues = replicate (loc_index JFS_TM_QUEUE_ID_COUNT) None\<rparr>, w, err))"

text \<open>The first loop of \<open>jfs_tm_router_destroy\<close>: whether all queues are empty, and the queues after the calls.\<close>

fun tm_all_empty :: "jfs_tm_queue option list \<Rightarrow> (bool \<times> jfs_tm_queue option list) option" where
  "tm_all_empty [] = Some (True, [])"
| "tm_all_empty (q # qs) = do {
     queue \<leftarrow> q;
     (empty, t) \<leftarrow> jfs_tsq_is_empty (tsq queue);
     let q = Some (queue\<lparr>tsq := t\<rparr>);
     if \<not> empty then Some (False, q # qs)
     else do { (empty, qs) \<leftarrow> tm_all_empty qs; Some (empty, q # qs) }
   }"

text \<open>The second loop, over the answers of \<open>pthread_mutex_destroy\<close> and \<open>errno\<close>. After a failure the error is reset and
  the same queue is destroyed again.\<close>

fun tm_destroy_loop :: "(errno \<times> errno) list \<Rightarrow> jfs_tm_queue option list \<Rightarrow> ns_world \<Rightarrow> jfs_err_t
     \<Rightarrow> (jfs_tm_queue option list \<times> ns_world \<times> jfs_err_t) run option" where
  "tm_destroy_loop answers [] w err = Some (Returned ([], w, err))"
| "tm_destroy_loop [] (q # qs) w err = Some (Running (q # qs, w, err))"
| "tm_destroy_loop ((mutex_ret, errno_now) # answers) (q # qs) w err = do {
     (q, w, err) \<leftarrow> jfs_tm_queue_destroy mutex_ret errno_now q w err;
     if err \<noteq> JFS_OK then tm_destroy_loop answers (q # qs) w JFS_OK
     else tm_destroy_loop answers qs w err
   }"

definition jfs_tm_router_destroy ::
  "jfs_err_t \<Rightarrow> (errno \<times> errno) list \<Rightarrow> jfs_tm_router \<Rightarrow> ns_world \<Rightarrow> jfs_err_t
     \<Rightarrow> (jfs_tm_router option \<times> ns_world \<times> jfs_err_t) run option" where
  "jfs_tm_router_destroy err_not_shutdown answers router w err = do {
     (empty, qs) \<leftarrow> tm_all_empty (queues router);
     if \<not> empty then Some (Returned (Some (router\<lparr>queues := qs\<rparr>), w, err_not_shutdown))
     else do {
       r \<leftarrow> tm_destroy_loop answers qs w err;
       Some (case r of
               Running (qs, w, err) \<Rightarrow> Running (Some (router\<lparr>queues := qs\<rparr>), w, err)
             | Returned (qs, w, err) \<Rightarrow> Returned (None, heap_free False w, err))
     }
   }"

definition jfs_tm_router_add ::
  "jfs_tm_router \<Rightarrow> jfs_tm_location \<Rightarrow> jfs_tm_queue option \<Rightarrow> jfs_err_t \<Rightarrow> (jfs_tm_router \<times> jfs_err_t) option" where
  "jfs_tm_router_add router queue_id queue_move err =
     (if queue_move = None then Some (router, JFS_ERR_ARG)
      else do {
        c_assert (loc_index queue_id < length (queues router));
        if queues router ! loc_index queue_id \<noteq> None then Some (router, JFS_ERR_ARG)
        else Some (router\<lparr>queues := (queues router)[loc_index queue_id := queue_move]\<rparr>, err)
      })"

definition jfs_tm_router_send ::
  "(jfs_tsq_chunk \<Rightarrow> addr \<Rightarrow> jfs_tsq_chunk option) \<Rightarrow> addr \<Rightarrow> nat sys list \<Rightarrow> jfs_tm_router \<Rightarrow> jfs_tm_location \<Rightarrow> addr \<Rightarrow> ns_world \<Rightarrow> jfs_err_t
     \<Rightarrow> (jfs_tm_router \<times> ns_world \<times> jfs_err_t) run option" where
  "jfs_tm_router_send chunk_enqueue items script router queue_id msg_move w err = do {
     queue \<leftarrow> router_queue router queue_id;
     r \<leftarrow> jfs_tm_queue_push chunk_enqueue items script queue msg_move w err;
     Some (case r of
             Running (q, w, err) \<Rightarrow> Running (router\<lparr>queues := (queues router)[loc_index queue_id := Some q]\<rparr>, w, err)
           | Returned (q, w, err) \<Rightarrow> Returned (router\<lparr>queues := (queues router)[loc_index queue_id := Some q]\<rparr>, w, err))
   }"

definition jfs_tm_router_recv ::
  "jfs_tm_router \<Rightarrow> jfs_tm_location \<Rightarrow> ns_world \<Rightarrow> jfs_err_t \<Rightarrow> (addr \<times> jfs_tm_router \<times> ns_world \<times> jfs_err_t) option" where
  "jfs_tm_router_recv router queue_id w err = do {
     queue \<leftarrow> router_queue router queue_id;
     (msg, q, w, err) \<leftarrow> jfs_tm_queue_pop queue w err;
     Some (if err \<noteq> JFS_OK then NULL else msg, router\<lparr>queues := (queues router)[loc_index queue_id := Some q]\<rparr>, w, err)
   }"

section \<open>Building and destroying a router\<close>

fun add_all :: "(jfs_tm_location \<times> jfs_tm_queue) list \<Rightarrow> jfs_tm_router \<Rightarrow> jfs_tm_router option" where
  "add_all [] r = Some r"
| "add_all ((l, q) # qs) r =
     (case jfs_tm_router_add r l (Some q) JFS_OK of Some (r, JFS_OK) \<Rightarrow> add_all qs r | _ \<Rightarrow> None)"

lemma four_slots: "replicate 4 None = [None, None, None, None]"
  by (simp add: numeral_eq_Suc)

lemma add_four:
  "add_all [(JFS_TM_DATABASE, qd), (JFS_TM_GENERAL, qg), (JFS_TM_MAIN, qm), (JFS_TM_NETWORK, qn)] \<lparr>queues = replicate 4 None\<rparr> =
     Some \<lparr>queues = [Some qd, Some qg, Some qm, Some qn]\<rparr>"
  by (simp add: jfs_tm_router_add_def four_slots)

lemma add_refused:
  assumes "l \<noteq> JFS_TM_QUEUE_ID_COUNT" and "queues r = [Some qd, Some qg, Some qm, Some qn]"
  shows "jfs_tm_router_add r l q JFS_OK = Some (r, JFS_ERR_ARG)"
  using assms by (cases l) (simp_all add: jfs_tm_router_add_def)

text \<open>Destroying a router with an empty slot after queues that are empty follows a null pointer.\<close>

lemma all_empty_null:
  "\<forall>q\<in>set qs. \<exists>t. jfs_tsq_is_empty (tsq q) = Some (True, t) \<Longrightarrow> tm_all_empty (map Some qs @ None # rest) = None"
  by (induction qs) auto

theorem tm_router_destroy_null:
  assumes "queues r = map Some qs @ None # rest" and "\<forall>q\<in>set qs. \<exists>t. jfs_tsq_is_empty (tsq q) = Some (True, t)"
  shows "jfs_tm_router_destroy e answers r w err = None"
  using all_empty_null [OF assms(2)] assms(1) by (simp add: jfs_tm_router_destroy_def)

text \<open>C27. A router that \<open>jfs_tm_router_create\<close> allocated has an empty slot for each of the four locations and none for the count;
  destroying it follows a null pointer. Adding four queues, whatever they hold, puts each into the slot of its location; then a further
  queue for any location is refused with \<open>JFS_ERR_ARG\<close>, as is a null queue on any router, and the count of locations is outside
  the array.\<close>

theorem tm_router_build:
  assumes "next_alloc w"
  shows "\<exists>r0 w' r. jfs_tm_router_create w JFS_OK = (Some r0, w', JFS_OK) \<and> live w' = live w + 1 \<and>
    queues r0 = replicate 4 None \<and> (\<forall>e answers w err. jfs_tm_router_destroy e answers r0 w err = None) \<and>
    add_all [(JFS_TM_DATABASE, qd), (JFS_TM_GENERAL, qg), (JFS_TM_MAIN, qm), (JFS_TM_NETWORK, qn)] r0 = Some r \<and>
    router_queue r JFS_TM_DATABASE = Some qd \<and> router_queue r JFS_TM_GENERAL = Some qg \<and> router_queue r JFS_TM_MAIN = Some qm \<and>
    router_queue r JFS_TM_NETWORK = Some qn \<and>
    (\<forall>l q. l = JFS_TM_QUEUE_ID_COUNT \<or> jfs_tm_router_add r l q JFS_OK = Some (r, JFS_ERR_ARG)) \<and>
    (\<forall>r' l. jfs_tm_router_add r' l None JFS_OK = Some (r', JFS_ERR_ARG)) \<and>
    (\<forall>q. jfs_tm_router_add r0 JFS_TM_QUEUE_ID_COUNT (Some q) JFS_OK = None)"
proof -
  let ?r = "\<lparr>queues = [Some qd, Some qg, Some qm, Some qn]\<rparr>" and ?new = "\<lparr>queues = replicate 4 None\<rparr>"
    and ?w = "w\<lparr>alloc_script := tl (alloc_script w), live := live w + 1\<rparr>"
  have c: "jfs_tm_router_create w JFS_OK = (Some ?new, ?w, JFS_OK)"
    using assms by (simp add: jfs_tm_router_create_def heap_malloc_def jfs_malloc_def)
  have b: "add_all [(JFS_TM_DATABASE, qd), (JFS_TM_GENERAL, qg), (JFS_TM_MAIN, qm), (JFS_TM_NETWORK, qn)] ?new = Some ?r"
    by (rule add_four)
  have d: "jfs_tm_router_destroy e answers ?new w err = None" for e answers w err
    using all_empty_null [of "[]" "replicate 3 None"] by (simp add: jfs_tm_router_destroy_def numeral_eq_Suc)
  have again: "l = JFS_TM_QUEUE_ID_COUNT \<or> jfs_tm_router_add ?r l q JFS_OK = Some (?r, JFS_ERR_ARG)" for l q
    using add_refused [of l ?r] by auto
  show ?thesis using c b d again
    by (intro exI [of _ ?new] exI [of _ ?w] exI [of _ ?r]) (simp add: router_queue_def jfs_tm_router_add_def)
qed

text \<open>\<open>jfs_tm_queue_create\<close> relies on \<open>jfs_tsq_init\<close> to report a failure. That function leaves the queue uninitialised without
  an error when both allocations and \<open>eventfd\<close> succeed, so the queue that is returned as created holds what the memory held before, and the
  event descriptor is lost; otherwise an error is reported and nothing is kept.\<close>

theorem tm_queue_create_unusable:
  assumes "err_ptr \<noteq> NULL"
  shows "\<exists>q w' e. jfs_tm_queue_create items fresh event_ans mutex_ret errno_now err_ptr w JFS_OK = Some (q, w', e) \<and>
    (e = JFS_OK \<longleftrightarrow> next_alloc w \<and> next_alloc (w\<lparr>alloc_script := tl (alloc_script w)\<rparr>) \<and> is_ok event_ans) \<and>
    q = (if e = JFS_OK then Some \<lparr>tsq = fresh\<rparr> else None) \<and>
    live w' = live w + (if e = JFS_OK then 1 else 0) \<and> open_fds w' = open_fds w + (if e = JFS_OK then 1 else 0)"
proof (cases "next_alloc w")
  case False
  then show ?thesis by (simp add: jfs_tm_queue_create_def heap_malloc_def jfs_malloc_def)
next
  case True
  let ?w = "w\<lparr>alloc_script := tl (alloc_script w), live := live w + 1\<rparr>"
  have n: "next_alloc ?w = next_alloc (w\<lparr>alloc_script := tl (alloc_script w)\<rparr>)" by (simp add: next_alloc_def)
  obtain w' e where "jfs_tsq_init items fresh False event_ans mutex_ret errno_now err_ptr ?w JFS_OK = Some (None, w', e)"
    "e = JFS_OK \<longleftrightarrow> next_alloc ?w \<and> is_ok event_ans" "live w' = live ?w" "open_fds w' = open_fds ?w + (if e = JFS_OK then 1 else 0)"
    using tsq_init_outcome [OF assms, of items fresh event_ans mutex_ret errno_now ?w] by blast
  then show ?thesis using True n by (simp add: jfs_tm_queue_create_def heap_malloc_def jfs_malloc_def heap_free_def)
qed

text \<open>A message that was created has no context and is released by \<open>jfs_tm_msg_destroy\<close> without a call of its destructor.\<close>

theorem tm_msg_lifetime:
  assumes "jfs_tm_msg_create w JFS_OK = (Some msg, w', JFS_OK)"
  shows "live (jfs_tm_msg_destroy call (Some msg) w') = live w"
  using assms by (auto simp: jfs_tm_msg_create_def jfs_tm_msg_destroy_def heap_malloc_def heap_free_def jfs_malloc_def Let_def split: if_splits)

section \<open>Concrete runs\<close>

theorem tm_router_build_witness:
  "\<exists>r0 w' r. jfs_tm_router_create demo_world JFS_OK = (Some r0, w', JFS_OK) \<and>
     jfs_tm_router_add r JFS_TM_MAIN (Some \<lparr>tsq = demo_queue\<rparr>) JFS_OK = Some (r, JFS_ERR_ARG) \<and>
     router_queue r JFS_TM_NETWORK = Some \<lparr>tsq = demo_queue\<rparr>"
proof -
  let ?q = "\<lparr>tsq = demo_queue\<rparr>"
  have "next_alloc demo_world" by (simp add: next_alloc_def demo_world_def)
  from tm_router_build [OF this, of ?q ?q ?q ?q] show ?thesis by (metis jfs_tm_location.distinct(17))
qed

theorem tm_queue_create_unusable_witness:
  "\<exists>w'. jfs_tm_queue_create 4096 demo_queue (SysOk 3) E_NONE E_NONE 4096 demo_world JFS_OK = Some (Some \<lparr>tsq = demo_queue\<rparr>, w', JFS_OK) \<and>
     open_fds w' = 2"
  using tm_queue_create_unusable [of 4096 4096 demo_queue "SysOk 3" E_NONE E_NONE demo_world] by (auto simp: demo_world_def next_alloc_def)

end
