(* ===== verification/Jfs_Tss.thy ===== *)
theory Jfs_Tss
  imports Complex_Main Jfs_Slab
begin

text \<open>
  The thread-safe slab allocator (\<open>src/src/modules/old_thread_safe_slab.c\<close>,
  \<open>src/src/include/old_thread_safe_slab.h\<close>): slabs of objects obtained from the kernel, a list of
  active slabs under a mutex, and caches that exchange batches of objects with it.

  The record \<open>tss\<close> is the struct \<open>jfs_tss_allocator\<close> together with the memory it works on: the
  fields of the slab headers and the \<open>next\<close> words of free objects as maps from addresses, and the
  mappings of the process. Reading or writing through a null pointer or through one that is not
  mapped is \<open>None\<close>, like a failed assertion, and so is locking the mutex twice. The loops over linked
  lists take fuel; \<open>2 ^ 64\<close> is always enough, since a list has fewer elements than there are
  addresses. One allocator is modelled with any number of caches; an operation of a cache runs from
  its call to its return, its critical section in between, as one step. The field \<open>alloc\<close> of a cache is
  the state the operation is applied to.

  The ratio compared with \<open>percent_to_retire\<close> is computed in single precision: \<open>f32_of_int\<close> and
  \<open>f32_div\<close> round to 24 significant bits, ties to even, which is exact here because the operands are
  integers below \<open>2 ^ 64\<close> (no overflow and no subnormal results). \<open>sizeof (tss_slab_t)\<close> is 32.

  Two things are left out. A configuration whose \<open>percent_to_retire\<close> is not a number has no counterpart: the field is
  rational here, while the tests of \<open>jfs_tss_allocator_create\<close> let such a value through. And the page size of the
  system is taken to be \<open>TSS_PAGE_SIZE\<close>, so the assertion of \<open>tss_slab_link_block\<close> that compares them holds.
\<close>

section \<open>Data\<close>

record jfs_tss_allocator_config =
  cfg_obj_size :: size_t
  cfg_obj_align :: size_t
  cfg_retire_threshold :: size_t
  cfg_percent_to_retire :: rat
  cfg_pages_per_slab :: u32
  cfg_cache_cap :: u32
  cfg_cache_acquire :: u32
  cfg_cache_release :: u32

record tss_slab_config =
  obj_align :: size_t
  padded_obj_size :: size_t
  slab_size :: size_t
  obj_per_slab :: size_t
  retire_threshold :: size_t
  slab_offset :: uintptr

record tss_cache_config =
  cache_cap :: u32
  cache_acquire :: u32
  cache_release :: u32

record tss_batch =
  batch_head :: addr
  batch_tail :: addr
  current_count :: u32
  target_count :: u32

record tss = vm +
  obj_next :: "addr \<Rightarrow> addr"
  used_count :: "addr \<Rightarrow> size_t"
  free_list_head :: "addr \<Rightarrow> addr"
  slab_next :: "addr \<Rightarrow> addr"
  retired_flag :: "addr \<Rightarrow> bool"
  lock :: bool
  active_list_head :: addr
  active_list_count :: size_t
  used_obj_count :: size_t
  slab_conf :: tss_slab_config
  cache_conf :: tss_cache_config
  percent_to_retire :: rat

record jfs_tss_cache =
  cache_head :: addr
  cache_count :: u32

text \<open>A pointer that may be dereferenced, and the accesses to the \<open>next\<close> word of an object.\<close>

definition valid_ptr :: "tss \<Rightarrow> addr \<Rightarrow> bool" where
  "valid_ptr s p \<longleftrightarrow> p \<noteq> NULL \<and> mapped s p"

definition get_next :: "tss \<Rightarrow> addr \<Rightarrow> addr option" where
  "get_next s p = do { c_assert (valid_ptr s p); Some (obj_next s p) }"

definition set_next :: "tss \<Rightarrow> addr \<Rightarrow> addr \<Rightarrow> tss option" where
  "set_next s p q = do { c_assert (valid_ptr s p); Some (s\<lparr>obj_next := (obj_next s)(p := q)\<rparr>) }"

definition mutex_lock :: "tss \<Rightarrow> tss option" where
  "mutex_lock s = do { c_assert (\<not> lock s); Some (s\<lparr>lock := True\<rparr>) }"

definition mutex_unlock :: "tss \<Rightarrow> tss" where
  "mutex_unlock s = s\<lparr>lock := False\<rparr>"

section \<open>Configuration\<close>

definition tss_slab_config_init :: "jfs_tss_allocator_config \<Rightarrow> tss_slab_config option" where
  "tss_slab_config_init alloc_config = do {
     let align = cfg_obj_align alloc_config;
     c_assert (align > 0);
     let padded_size = (if cfg_obj_size alloc_config > 8 then cfg_obj_size alloc_config else 8);
     let padded = (padded_size + align - 1) AND NOT (align - 1);
     let pages_per_slab = or_default (cfg_pages_per_slab alloc_config) 8;
     let slab_sz = ucast pages_per_slab * 4096;
     let offset = (32 + align - 1) AND NOT (align - 1);
     c_assert (offset mod align = 0);
     c_assert ((slab_sz - offset) mod align = 0);
     let per_slab = (slab_sz - offset) div padded;
     c_assert (per_slab > 0);
     let threshold = cfg_retire_threshold alloc_config;
     c_assert (per_slab > threshold);
     Some \<lparr>obj_align = align, padded_obj_size = padded, slab_size = slab_sz, obj_per_slab = per_slab,
           retire_threshold = threshold, slab_offset = offset\<rparr>
   }"

definition tss_cache_config_init :: "jfs_tss_allocator_config \<Rightarrow> tss_cache_config option" where
  "tss_cache_config_init alloc_conf = do {
     let cap = or_default (cfg_cache_cap alloc_conf) 64;
     let acquire = or_default (cfg_cache_acquire alloc_conf) 32;
     c_assert (cap \<ge> acquire);
     let release = or_default (cfg_cache_release alloc_conf) 32;
     c_assert (cap \<ge> release);
     Some \<lparr>cache_cap = cap, cache_acquire = acquire, cache_release = release\<rparr>
   }"

section \<open>Single-precision division\<close>

fun bits :: "int \<Rightarrow> nat" where
  "bits n = (if n \<le> 0 then 0 else Suc (bits (n div 2)))"

declare bits.simps [simp del]

definition round_div_even :: "int \<Rightarrow> int \<Rightarrow> int" where
  "round_div_even n d = (let q = n div d; r = n mod d
     in if 2 * r < d \<or> (2 * r = d \<and> even q) then q else q + 1)"

definition f32_of_int :: "int \<Rightarrow> int" where
  "f32_of_int n = (let e = bits n - 24 in round_div_even n (2 ^ e) * 2 ^ e)"

definition f32_div :: "int \<Rightarrow> int \<Rightarrow> rat" where
  "f32_div n d =
     (if n = 0 then 0
      else let s = bits d + 24; e = bits (n * 2 ^ s div d) - 24
           in of_int (round_div_even (n * 2 ^ s) (d * 2 ^ e) * 2 ^ e) / 2 ^ s)"

section \<open>Slabs\<close>

definition tss_aligned_mmap :: "tss_slab_config \<Rightarrow> tss \<Rightarrow> jfs_err_t \<Rightarrow> (addr \<times> tss \<times> jfs_err_t) option" where
  "tss_aligned_mmap conf s err = aligned_mmap (slab_size conf) s err"

fun tss_link_loop :: "addr \<Rightarrow> size_t \<Rightarrow> nat \<Rightarrow> size_t \<Rightarrow> addr \<Rightarrow> tss \<Rightarrow> (addr \<times> tss) option" where
  "tss_link_loop bytes padded 0 i list s = Some (list, s)"
| "tss_link_loop bytes padded (Suc n) i list s = do {
     let obj = bytes + i * padded;
     s \<leftarrow> set_next s obj list;
     tss_link_loop bytes padded n (i + 1) obj s
   }"

definition tss_slab_link_block :: "addr \<Rightarrow> tss_slab_config \<Rightarrow> tss \<Rightarrow> (addr \<times> tss) option" where
  "tss_slab_link_block raw_block conf s = do {
     c_assert (raw_block \<noteq> NULL);
     tss_link_loop (raw_block + slab_offset conf) (padded_obj_size conf) (unat (obj_per_slab conf)) 0 NULL s
   }"

definition tss_slab_create :: "tss_slab_config \<Rightarrow> tss \<Rightarrow> jfs_err_t \<Rightarrow> (addr \<times> tss \<times> jfs_err_t) option" where
  "tss_slab_create conf s err = do {
     (raw_block, s, err) \<leftarrow> tss_aligned_mmap conf s err;
     if err \<noteq> JFS_OK then Some (NULL, s, err)
     else do {
       (list, s) \<leftarrow> tss_slab_link_block raw_block conf s;
       c_assert (valid_ptr s raw_block);
       Some (raw_block, s\<lparr>free_list_head := (free_list_head s)(raw_block := list),
         slab_next := (slab_next s)(raw_block := NULL), used_count := (used_count s)(raw_block := 0),
         retired_flag := (retired_flag s)(raw_block := False)\<rparr>, err)
     }
   }"

definition tss_slab_destroy :: "addr \<Rightarrow> tss_slab_config \<Rightarrow> tss \<Rightarrow> tss option" where
  "tss_slab_destroy slab_move conf s =
     (if slab_move = NULL then Some s
      else do {
        c_assert (slab_size conf > 0);
        let (ret, s) = vm_munmap slab_move (slab_size conf) s;
        c_assert (ret = 0);
        Some s
      })"

section \<open>Batches\<close>

definition tss_batch_init :: "u32 \<Rightarrow> tss_batch" where
  "tss_batch_init target = \<lparr>batch_head = NULL, batch_tail = NULL, current_count = 0, target_count = target\<rparr>"

function tss_load_loop :: "tss \<Rightarrow> u32 \<Rightarrow> u32 \<Rightarrow> addr \<Rightarrow> (u32 \<times> addr) option" where
  "tss_load_loop s total_count target list_tail =
     (if total_count < target then do {
        nx \<leftarrow> get_next s list_tail;
        if nx \<noteq> NULL then tss_load_loop s (total_count + 1) target nx else Some (total_count, list_tail)
      } else Some (total_count, list_tail))"
  by pat_completeness auto

termination
proof (relation "measure (\<lambda>(s, total_count, target, list_tail). unat target - unat total_count)")
  fix s and total_count target :: u32 and list_tail x
  assume "total_count < target"
  then have "unat total_count < unat target" "unat (total_count + 1) = Suc (unat total_count)"
    by (simp_all add: word_less_nat_alt unat_Suc_less)
  then show "((s, total_count + 1, target, x), s, total_count, target, list_tail) \<in> measure (\<lambda>(s, total_count, target, list_tail). unat target - unat total_count)"
    by simp
qed simp

declare tss_load_loop.simps [simp del]

definition tss_batch_load ::
  "tss_batch \<Rightarrow> addr \<Rightarrow> tss \<Rightarrow> (u32 \<times> tss_batch \<times> addr \<times> tss) option" where
  "tss_batch_load batch list_head s = do {
     c_assert (target_count batch > current_count batch);
     if list_head = NULL then Some (0, batch, list_head, s)
     else do {
       let target = target_count batch - current_count batch;
       (total_count, list_tail) \<leftarrow> tss_load_loop s 1 target list_head;
       (batch, s) \<leftarrow>
         (if current_count batch = 0 then do {
            c_assert (batch_head batch = NULL);
            c_assert (batch_tail batch = NULL);
            Some (batch\<lparr>batch_head := list_head\<rparr>, s)
          } else do {
            nx \<leftarrow> get_next s (batch_tail batch);
            c_assert (nx = NULL);
            s \<leftarrow> set_next s (batch_tail batch) list_head;
            Some (batch, s)
          });
       let batch = batch\<lparr>batch_tail := list_tail\<rparr>;
       list_head \<leftarrow> get_next s list_tail;
       s \<leftarrow> set_next s list_tail NULL;
       Some (total_count, batch\<lparr>current_count := current_count batch + total_count\<rparr>, list_head, s)
     }
   }"

definition tss_batch_unload ::
  "tss_batch \<Rightarrow> addr \<Rightarrow> tss \<Rightarrow> (u32 \<times> tss_batch \<times> addr \<times> tss) option" where
  "tss_batch_unload batch list_head s =
     (if target_count batch = 0 then Some (0, batch, list_head, s)
      else do {
        c_assert (batch_head batch \<noteq> NULL);
        c_assert (batch_tail batch \<noteq> NULL);
        nx \<leftarrow> get_next s (batch_tail batch);
        c_assert (nx = NULL);
        s \<leftarrow> set_next s (batch_tail batch) list_head;
        Some (current_count batch,
              batch\<lparr>current_count := 0, batch_head := NULL, batch_tail := NULL\<rparr>, batch_head batch, s)
      })"

definition tss_batch_met_target :: "tss_batch \<Rightarrow> bool" where
  "tss_batch_met_target batch \<longleftrightarrow> current_count batch \<ge> target_count batch"

section \<open>The allocator\<close>

definition tss_allocator_find_slab :: "tss \<Rightarrow> addr \<Rightarrow> addr" where
  "tss_allocator_find_slab s obj = obj AND NOT (slab_size (slab_conf s) - 1)"

definition tss_allocator_add_slab :: "tss \<Rightarrow> jfs_err_t \<Rightarrow> (tss \<times> jfs_err_t) option" where
  "tss_allocator_add_slab s err = do {
     (new_slab, s, err) \<leftarrow> tss_slab_create (slab_conf s) s err;
     if err \<noteq> JFS_OK then Some (s, err)
     else Some (s\<lparr>slab_next := (slab_next s)(new_slab := active_list_head s),
                  active_list_head := new_slab, active_list_count := active_list_count s + 1\<rparr>, err)
   }"

text \<open>The loop of \<open>tss_allocator_batch_acquire\<close> that adds slabs, and the one that fills the batch.\<close>

fun tss_add_slabs :: "nat \<Rightarrow> tss \<Rightarrow> jfs_err_t \<Rightarrow> (tss \<times> jfs_err_t) option" where
  "tss_add_slabs 0 s err = Some (s, err)"
| "tss_add_slabs (Suc n) s err = do {
     (s, err) \<leftarrow> tss_allocator_add_slab s err;
     if err \<noteq> JFS_OK then Some (s, err) else tss_add_slabs n s err
   }"

fun tss_acquire_loop :: "nat \<Rightarrow> tss_batch \<Rightarrow> addr \<Rightarrow> tss \<Rightarrow> (tss_batch \<times> tss) option" where
  "tss_acquire_loop 0 batch current_slab s = None"
| "tss_acquire_loop (Suc n) batch current_slab s =
     (if current_count batch < target_count batch \<and> current_slab \<noteq> NULL then do {
        c_assert (valid_ptr s current_slab);
        (load_count, batch, list_head, s) \<leftarrow> tss_batch_load batch (free_list_head s current_slab) s;
        let s = s\<lparr>free_list_head := (free_list_head s)(current_slab := list_head)\<rparr>;
        let s = s\<lparr>used_count := (used_count s)(current_slab := used_count s current_slab + ucast load_count)\<rparr>;
        let s = s\<lparr>used_obj_count := used_obj_count s + ucast load_count\<rparr>;
        tss_acquire_loop n batch (slab_next s current_slab) s
      } else Some (batch, s))"

definition tss_allocator_batch_acquire ::
  "nat \<Rightarrow> tss_batch \<Rightarrow> tss \<Rightarrow> jfs_err_t \<Rightarrow> (tss_batch \<times> tss \<times> jfs_err_t) option" where
  "tss_allocator_batch_acquire fuel batch s err = do {
     c_assert (target_count batch > 0);
     c_assert (current_count batch = 0);
     c_assert (batch_head batch = NULL);
     c_assert (batch_tail batch = NULL);
     let obj_remaining = obj_per_slab (slab_conf s) * active_list_count s - used_obj_count s;
     (s, err, failed) \<leftarrow>
       (if obj_remaining < ucast (target_count batch) then do {
          let obj_needed = ucast (target_count batch) - obj_remaining;
          let number_of_slabs = obj_needed div obj_per_slab (slab_conf s) + 1;
          (s, err) \<leftarrow> tss_add_slabs (unat number_of_slabs) s err;
          Some (s, err, err \<noteq> JFS_OK)
        } else Some (s, err, False));
     if failed then Some (batch, s, err)
     else do {
       (batch, s) \<leftarrow> tss_acquire_loop fuel batch (active_list_head s) s;
       c_assert (tss_batch_met_target batch);
       Some (batch, s, err)
     }
   }"

definition tss_allocator_release_obj :: "addr \<Rightarrow> tss \<Rightarrow> tss option" where
  "tss_allocator_release_obj obj_free s = do {
     let slab = tss_allocator_find_slab s obj_free;
     c_assert (valid_ptr s slab);
     s \<leftarrow> set_next s obj_free (free_list_head s slab);
     let s = s\<lparr>free_list_head := (free_list_head s)(slab := obj_free),
               used_count := (used_count s)(slab := used_count s slab - 1),
               used_obj_count := used_obj_count s - 1\<rparr>;
     if used_count s slab = 0 \<and> retired_flag s slab then tss_slab_destroy slab (slab_conf s) s else Some s
   }"

fun tss_release_loop :: "nat \<Rightarrow> addr \<Rightarrow> tss \<Rightarrow> tss option" where
  "tss_release_loop 0 current_obj s = None"
| "tss_release_loop (Suc n) current_obj s =
     (if current_obj = NULL then Some s
      else do {
        nx \<leftarrow> get_next s current_obj;
        s \<leftarrow> tss_allocator_release_obj current_obj s;
        tss_release_loop n nx s
      })"

definition tss_allocator_batch_release :: "nat \<Rightarrow> tss_batch \<Rightarrow> tss \<Rightarrow> (tss_batch \<times> tss) option" where
  "tss_allocator_batch_release fuel batch s = do {
     s \<leftarrow> tss_release_loop fuel (batch_head batch) s;
     Some (batch\<lparr>current_count := 0, batch_head := NULL, batch_tail := NULL\<rparr>, s)
   }"

definition tss_allocator_ready_for_retire :: "tss \<Rightarrow> bool" where
  "tss_allocator_ready_for_retire s \<longleftrightarrow>
     (let total_count = active_list_count s * obj_per_slab (slab_conf s)
      in total_count \<noteq> 0 \<and> f32_div (f32_of_int (uint (used_obj_count s))) (f32_of_int (uint total_count)) \<le> percent_to_retire s)"

text \<open>\<open>prev_next\<close> points to \<open>active_list_head\<close> (\<open>None\<close>) or to the \<open>next\<close> field of a slab.\<close>

definition load_link :: "addr option \<Rightarrow> tss \<Rightarrow> addr" where
  "load_link prev_next s = (case prev_next of None \<Rightarrow> active_list_head s | Some b \<Rightarrow> slab_next s b)"

definition store_link :: "addr option \<Rightarrow> addr \<Rightarrow> tss \<Rightarrow> tss" where
  "store_link prev_next p s =
     (case prev_next of None \<Rightarrow> s\<lparr>active_list_head := p\<rparr> | Some b \<Rightarrow> s\<lparr>slab_next := (slab_next s)(b := p)\<rparr>)"

fun tss_retire_loop :: "nat \<Rightarrow> addr option \<Rightarrow> tss \<Rightarrow> tss option" where
  "tss_retire_loop 0 prev_next s = None"
| "tss_retire_loop (Suc n) prev_next s =
     (let slab = load_link prev_next s in
      if slab = NULL then Some s
      else do {
        c_assert (valid_ptr s slab);
        if used_count s slab = 0 then do {
          let s = store_link prev_next (slab_next s slab) s;
          s \<leftarrow> tss_slab_destroy slab (slab_conf s) s;
          tss_retire_loop n prev_next s
        } else if used_count s slab \<le> retire_threshold (slab_conf s) then do {
          let s = store_link prev_next (slab_next s slab) s;
          let s = s\<lparr>slab_next := (slab_next s)(slab := NULL), retired_flag := (retired_flag s)(slab := True)\<rparr>;
          let s = s\<lparr>active_list_count := active_list_count s - 1\<rparr>;
          tss_retire_loop n prev_next s
        } else tss_retire_loop n (Some slab) s
      })"

definition tss_allocator_retire_slabs :: "nat \<Rightarrow> tss \<Rightarrow> tss option" where
  "tss_allocator_retire_slabs fuel s = tss_retire_loop fuel None s"

section \<open>Caches\<close>

definition tss_alloc_slow_path ::
  "nat \<Rightarrow> jfs_tss_cache \<Rightarrow> tss \<Rightarrow> jfs_err_t \<Rightarrow> (jfs_tss_cache \<times> tss \<times> jfs_err_t) option" where
  "tss_alloc_slow_path fuel cache s err = do {
     let batch = tss_batch_init (cache_acquire (cache_conf s));
     s \<leftarrow> mutex_lock s;
     (batch, s, err) \<leftarrow> tss_allocator_batch_acquire fuel batch s err;
     if err \<noteq> JFS_OK then do {
       (batch, s) \<leftarrow> tss_allocator_batch_release fuel batch s;
       Some (cache, mutex_unlock s, err)
     } else do {
       s \<leftarrow> (if tss_allocator_ready_for_retire s then tss_allocator_retire_slabs fuel s else Some s);
       let s = mutex_unlock s;
       c_assert (tss_batch_met_target batch);
       (unload_count, batch, list_head, s) \<leftarrow> tss_batch_unload batch (cache_head cache) s;
       Some (cache\<lparr>cache_head := list_head, cache_count := cache_count cache + unload_count\<rparr>, s, err)
     }
   }"

definition tss_free_slow_path :: "nat \<Rightarrow> jfs_tss_cache \<Rightarrow> tss \<Rightarrow> (jfs_tss_cache \<times> tss) option" where
  "tss_free_slow_path fuel cache s = do {
     let batch = tss_batch_init (cache_release (cache_conf s));
     (load_count, batch, list_head, s) \<leftarrow> tss_batch_load batch (cache_head cache) s;
     let cache = cache\<lparr>cache_head := list_head\<rparr>;
     c_assert (tss_batch_met_target batch);
     let cache = cache\<lparr>cache_count := cache_count cache - load_count\<rparr>;
     s \<leftarrow> mutex_lock s;
     (batch, s) \<leftarrow> tss_allocator_batch_release fuel batch s;
     Some (cache, mutex_unlock s)
   }"

definition jfs_tss_alloc ::
  "nat \<Rightarrow> jfs_tss_cache \<Rightarrow> tss \<Rightarrow> jfs_err_t \<Rightarrow> (addr \<times> jfs_tss_cache \<times> tss \<times> jfs_err_t) option" where
  "jfs_tss_alloc fuel cache s err = do {
     (cache, s, err, failed) \<leftarrow>
       (if cache_count cache = 0 then do {
          (cache, s, err) \<leftarrow> tss_alloc_slow_path fuel cache s err;
          Some (cache, s, err, err \<noteq> JFS_OK)
        } else Some (cache, s, err, False));
     if failed then Some (NULL, cache, s, err)
     else do {
       let ret = cache_head cache;
       nx \<leftarrow> get_next s (cache_head cache);
       Some (ret, cache\<lparr>cache_head := nx, cache_count := cache_count cache - 1\<rparr>, s, err)
     }
   }"

definition jfs_tss_free :: "nat \<Rightarrow> jfs_tss_cache \<Rightarrow> addr \<Rightarrow> tss \<Rightarrow> (jfs_tss_cache \<times> tss) option" where
  "jfs_tss_free fuel cache obj s =
     (if obj = NULL then Some (cache, s)
      else do {
        s \<leftarrow> set_next s obj (cache_head cache);
        let cache = cache\<lparr>cache_head := obj, cache_count := cache_count cache + 1\<rparr>;
        if cache_count cache \<ge> cache_cap (cache_conf s) then tss_free_slow_path fuel cache s
        else Some (cache, s)
      })"

definition jfs_tss_cache_init :: jfs_tss_cache where
  "jfs_tss_cache_init = \<lparr>cache_head = NULL, cache_count = 0\<rparr>"

definition jfs_tss_cache_full_release :: "nat \<Rightarrow> jfs_tss_cache \<Rightarrow> tss \<Rightarrow> (jfs_tss_cache \<times> tss) option" where
  "jfs_tss_cache_full_release fuel cache s =
     (if cache_count cache = 0 then Some (cache, s)
      else do {
        let batch = tss_batch_init (cache_count cache);
        (load_count, batch, list_head, s) \<leftarrow> tss_batch_load batch (cache_head cache) s;
        let cache = cache\<lparr>cache_head := list_head, cache_count := cache_count cache - load_count\<rparr>;
        c_assert (cache_head cache = NULL);
        c_assert (cache_count cache = 0);
        s \<leftarrow> mutex_lock s;
        (batch, s) \<leftarrow> tss_allocator_batch_release fuel batch s;
        Some (cache, mutex_unlock s)
      })"

definition jfs_tss_cache_refresh ::
  "nat \<Rightarrow> jfs_tss_cache \<Rightarrow> tss \<Rightarrow> jfs_err_t \<Rightarrow> (jfs_tss_cache \<times> tss \<times> jfs_err_t) option" where
  "jfs_tss_cache_refresh fuel cache s err = do {
     let batch = tss_batch_init (cache_count cache);
     (total_loaded, batch, list_head, s) \<leftarrow> tss_batch_load batch (cache_head cache) s;
     let cache = cache\<lparr>cache_head := list_head\<rparr>;
     c_assert (total_loaded = cache_count cache);
     s \<leftarrow> mutex_lock s;
     (batch, s) \<leftarrow> tss_allocator_batch_release fuel batch s;
     c_assert (current_count batch = 0);
     let batch = tss_batch_init (cache_acquire (cache_conf s));
     (batch, s, err) \<leftarrow> tss_allocator_batch_acquire fuel batch s err;
     if err \<noteq> JFS_OK then do {
       (batch, s) \<leftarrow> tss_allocator_batch_release fuel batch s;
       Some (cache, mutex_unlock s, err)
     } else do {
       let s = mutex_unlock s;
       c_assert (tss_batch_met_target batch);
       (unload_count, batch, list_head, s) \<leftarrow> tss_batch_unload batch (cache_head cache) s;
       Some (cache\<lparr>cache_head := list_head, cache_count := cache_count cache + unload_count\<rparr>, s, err)
     }
   }"

section \<open>Life of an allocator\<close>

text \<open>\<open>malloc_ret\<close> is the answer of \<open>malloc\<close>; 13421773 / 134217728 is \<open>0.1F\<close>.\<close>

definition jfs_tss_allocator_create ::
  "unit option \<Rightarrow> tss \<Rightarrow> jfs_tss_allocator_config \<Rightarrow> jfs_err_t \<Rightarrow> (unit option \<times> tss \<times> jfs_err_t) option" where
  "jfs_tss_allocator_create malloc_ret s config err = do {
     let (alloc, err) = jfs_malloc malloc_ret err;
     if err \<noteq> JFS_OK then Some (None, s, err)
     else do {
       let s = s\<lparr>lock := False, active_list_head := NULL, active_list_count := 0, used_obj_count := 0\<rparr>;
       sconf \<leftarrow> tss_slab_config_init config;
       cconf \<leftarrow> tss_cache_config_init config;
       let s = s\<lparr>slab_conf := sconf, cache_conf := cconf\<rparr>;
       let s = (if cfg_percent_to_retire config > 1 \<or> cfg_percent_to_retire config \<le> 0
                then s\<lparr>percent_to_retire := 13421773 / 134217728\<rparr>
                else s\<lparr>percent_to_retire := cfg_percent_to_retire config\<rparr>);
       Some (alloc, s, err)
     }
   }"

fun tss_destroy_loop :: "nat \<Rightarrow> tss \<Rightarrow> tss option" where
  "tss_destroy_loop 0 s = None"
| "tss_destroy_loop (Suc n) s =
     (if active_list_head s = NULL then Some s
      else do {
        let temp = active_list_head s;
        c_assert (valid_ptr s temp);
        let s = s\<lparr>active_list_head := slab_next s (active_list_head s)\<rparr>;
        s \<leftarrow> tss_slab_destroy temp (slab_conf s) s;
        tss_destroy_loop n s
      })"

definition jfs_tss_allocator_destroy :: "nat \<Rightarrow> tss \<Rightarrow> tss option" where
  "jfs_tss_allocator_destroy fuel s = do {
     s \<leftarrow> mutex_lock s;
     s \<leftarrow> tss_destroy_loop fuel s;
     c_assert (active_list_head s = NULL);
     Some (mutex_unlock s)
   }"

definition jfs_tss_allocator_explicit_retire :: "nat \<Rightarrow> tss \<Rightarrow> tss option" where
  "jfs_tss_allocator_explicit_retire fuel s = do {
     s \<leftarrow> mutex_lock s;
     s \<leftarrow> tss_allocator_retire_slabs fuel s;
     Some (mutex_unlock s)
   }"

end
