(* ===== verification/Jfs_Tss_Inv.thy ===== *)
theory Jfs_Tss_Inv
  imports Jfs_Tss
begin

text \<open>
  The invariant of the thread-safe slab allocator and what every step of it does to the invariant.
  \<open>tss_inv s A R F\<close> says that the active list holds the slabs \<open>A\<close>, that the slabs \<open>R\<close> are retired, that
  every slab \<open>b\<close> is mapped and aligned and has the free objects \<open>F b\<close> on its list, and that the use
  counts are right; \<open>outs\<close> are the objects on no free list, which are the ones in caches and with
  clients. A batch acquired from the allocator adds fresh objects to \<open>outs\<close>, a batch released takes its
  objects away, and a retiring pass changes neither \<open>outs\<close> nor any object in it. The invariant does
  not mention the number of active slabs: \<open>counts_ok\<close> does, and the code loses it when it
  drops a slab.
\<close>

section \<open>Objects of a slab\<close>

definition slab_objs :: "tss_slab_config \<Rightarrow> addr \<Rightarrow> addr list" where
  "slab_objs conf b = map (\<lambda>i. b + slab_offset conf + of_nat i * padded_obj_size conf) [0..<unat (obj_per_slab conf)]"

definition conf_ok :: "tss_slab_config \<Rightarrow> bool" where
  "conf_ok conf \<longleftrightarrow> slab_size_ok (slab_size conf) \<and> 32 \<le> unat (slab_offset conf) \<and> 8 \<le> unat (padded_obj_size conf) \<and>
     0 < unat (obj_per_slab conf) \<and>
     unat (slab_offset conf) + unat (obj_per_slab conf) * unat (padded_obj_size conf) \<le> unat (slab_size conf)"

definition base_ok :: "tss_slab_config \<Rightarrow> addr \<Rightarrow> bool" where
  "base_ok conf b \<longleftrightarrow> b \<noteq> NULL \<and> unat (slab_size conf) dvd unat b \<and> unat b + unat (slab_size conf) \<le> 2 ^ 64"

lemma obj_unat:
  assumes c: "conf_ok conf" and b: "base_ok conf b" and i: "i < unat (obj_per_slab conf)"
  shows "unat (b + slab_offset conf + of_nat i * padded_obj_size conf) =
      unat b + unat (slab_offset conf) + i * unat (padded_obj_size conf)"
    and "unat b + unat (slab_offset conf) + i * unat (padded_obj_size conf) + 8 \<le> unat b + unat (slab_size conf)"
proof -
  let ?p = "unat (padded_obj_size conf)" and ?o = "unat (slab_offset conf)"
  have "Suc i * ?p \<le> unat (obj_per_slab conf) * ?p" using i by (intro mult_le_mono1) simp
  then show le: "unat b + ?o + i * ?p + 8 \<le> unat b + unat (slab_size conf)" using c by (simp add: conf_ok_def)
  then have lt: "unat b + ?o + i * ?p < 2 ^ 64" using b by (simp add: base_ok_def)
  have "unat (of_nat i :: size_t) = i" using i by (rule of_nat64_below)
  then have "unat (of_nat i * padded_obj_size conf) = i * ?p" using lt by (simp add: unat_word_ariths)
  then show "unat (b + slab_offset conf + of_nat i * padded_obj_size conf) = unat b + ?o + i * ?p"
    using lt by (simp add: unat_word_ariths)
qed

lemma objs_range:
  assumes c: "conf_ok conf" and b: "base_ok conf b" and p: "p \<in> set (slab_objs conf b)"
  shows "in_range b (slab_size conf) p" and "p \<noteq> NULL" and "b \<noteq> p"
proof -
  obtain i where i: "i < unat (obj_per_slab conf)" "p = b + slab_offset conf + of_nat i * padded_obj_size conf"
    using p by (auto simp: slab_objs_def)
  note u = obj_unat [OF c b i(1), folded i(2)]
  have off: "32 \<le> unat (slab_offset conf)" and fit: "unat b + unat (slab_size conf) \<le> 2 ^ 64"
    using c b by (simp_all add: conf_ok_def base_ok_def)
  show "in_range b (slab_size conf) p" unfolding in_range_iff [OF fit] using u by linarith
  have "unat p \<noteq> 0" "unat p \<noteq> unat b" using u(1) off by linarith+
  then show "p \<noteq> NULL" "b \<noteq> p" by auto
qed

lemma objs_distinct:
  assumes c: "conf_ok conf" and b: "base_ok conf b"
  shows "distinct (slab_objs conf b)"
proof -
  have "0 < unat (padded_obj_size conf)" using c by (simp add: conf_ok_def)
  then have "inj_on (\<lambda>i. b + slab_offset conf + of_nat i * padded_obj_size conf) {0..<unat (obj_per_slab conf)}"
    using obj_unat(1) [OF c b] by (intro inj_onI) (metis (no_types, lifting) add_left_cancel atLeastLessThan_iff mult_right_cancel neq0_conv)
  then show ?thesis by (simp add: slab_objs_def distinct_map)
qed

lemma length_slab_objs [simp]: "length (slab_objs conf b) = unat (obj_per_slab conf)"
  by (simp add: slab_objs_def)

lemma objs_find:
  assumes "conf_ok conf" and "base_ok conf b" and "p \<in> set (slab_objs conf b)"
  shows "p AND NOT (slab_size conf - 1) = b"
  using assms objs_range(1) [OF assms] by (intro mask_slab) (auto simp: conf_ok_def base_ok_def)

lemma objs_disjoint:
  assumes "conf_ok conf" and "base_ok conf b" and "base_ok conf b'" and "b \<noteq> b'"
  shows "set (slab_objs conf b) \<inter> set (slab_objs conf b') = {}"
  using objs_find [OF assms(1)] assms(2-4) by blast

section \<open>The invariant\<close>

definition slab_inv :: "tss \<Rightarrow> addr \<Rightarrow> addr list \<Rightarrow> bool" where
  "slab_inv s b fs \<longleftrightarrow> base_ok (slab_conf s) b \<and> (\<forall>x. in_range b (slab_size (slab_conf s)) x \<longrightarrow> mapped s x) \<and>
     heap_list (obj_next s) (free_list_head s b) fs \<and> set fs \<subseteq> set (slab_objs (slab_conf s) b) \<and>
     unat (used_count s b) + length fs = unat (obj_per_slab (slab_conf s))"

definition tss_inv :: "tss \<Rightarrow> addr list \<Rightarrow> addr list \<Rightarrow> (addr \<Rightarrow> addr list) \<Rightarrow> bool" where
  "tss_inv s A R F \<longleftrightarrow> conf_ok (slab_conf s) \<and> heap_list (slab_next s) (active_list_head s) A \<and> distinct (A @ R) \<and>
     (\<forall>b\<in>set A \<union> set R. slab_inv s b (F b)) \<and> (\<forall>b\<in>set A. \<not> retired_flag s b) \<and>
     (\<forall>b\<in>set R. retired_flag s b \<and> used_count s b \<noteq> 0) \<and>
     unat (used_obj_count s) = (\<Sum>b\<in>set A \<union> set R. unat (used_count s b))"

text \<open>The objects that are not on a free list of a slab.\<close>

definition outs :: "tss \<Rightarrow> addr set \<Rightarrow> (addr \<Rightarrow> addr list) \<Rightarrow> addr set" where
  "outs s B F = (\<Union>b\<in>B. set (slab_objs (slab_conf s) b) - set (F b))"

lemma tss_invD:
  assumes "tss_inv s A R F"
  shows "conf_ok (slab_conf s)" and "heap_list (slab_next s) (active_list_head s) A" and "distinct (A @ R)"
    and "b \<in> set A \<union> set R \<Longrightarrow> slab_inv s b (F b)" and "b \<in> set A \<Longrightarrow> \<not> retired_flag s b"
    and "b \<in> set R \<Longrightarrow> retired_flag s b \<and> used_count s b \<noteq> 0"
    and "unat (used_obj_count s) = (\<Sum>b\<in>set A \<union> set R. unat (used_count s b))"
  using assms by (auto simp: tss_inv_def)

lemma slab_invD:
  assumes "slab_inv s b fs"
  shows "base_ok (slab_conf s) b" and "in_range b (slab_size (slab_conf s)) x \<Longrightarrow> mapped s x"
    and "heap_list (obj_next s) (free_list_head s b) fs" and "set fs \<subseteq> set (slab_objs (slab_conf s) b)"
    and "unat (used_count s b) + length fs = unat (obj_per_slab (slab_conf s))"
  using assms by (auto simp: slab_inv_def)

lemma slab_mapped:
  assumes inv: "tss_inv s A R F" and b: "b \<in> set A \<union> set R" and p: "p \<in> set (slab_objs (slab_conf s) b)"
  shows "valid_ptr s p"
proof -
  note sl = tss_invD(4) [OF inv b]
  show ?thesis using objs_range [OF tss_invD(1) [OF inv] slab_invD(1) [OF sl] p] slab_invD(2) [OF sl]
    by (simp add: valid_ptr_def)
qed

lemma base_mapped:
  assumes inv: "tss_inv s A R F" and b: "b \<in> set A \<union> set R"
  shows "valid_ptr s b"
proof -
  note sl = tss_invD(4) [OF inv b] and c = tss_invD(1) [OF inv]
  have "in_range b (slab_size (slab_conf s)) b"
    using c by (simp add: in_range_def conf_ok_def slab_size_ok_def jfs_mlg_valid_align_def word_greater_zero_iff)
  then show ?thesis using slab_invD(1,2) [OF sl] by (simp add: valid_ptr_def base_ok_def)
qed

lemma all_objs_bound:
  assumes c: "conf_ok conf" and B: "finite B" "\<forall>b\<in>B. base_ok conf b"
  shows "card B * unat (obj_per_slab conf) < 2 ^ 64"
proof -
  have "card (\<Union>b\<in>B. set (slab_objs conf b)) = (\<Sum>b\<in>B. card (set (slab_objs conf b)))"
    using B objs_disjoint [OF c] by (intro card_UN_disjoint) auto
  also have "\<dots> = card B * unat (obj_per_slab conf)"
    using B(2) by (simp add: distinct_card [OF objs_distinct [OF c]])
  finally have e: "card (\<Union>b\<in>B. set (slab_objs conf b)) = card B * unat (obj_per_slab conf)" .
  obtain xs where xs: "set xs = (\<Union>b\<in>B. set (slab_objs conf b))" "distinct xs"
    using finite_distinct_list [of "\<Union>b\<in>B. set (slab_objs conf b)"] B(1) by auto
  have "0 \<notin> set xs" using xs(1) objs_range(2) [OF c] B(2) by auto
  then show ?thesis using distinct_addr_length [OF xs(2)] distinct_card [OF xs(2)] e xs(1) by metis
qed


section \<open>Batches\<close>

lemma heap_list_cut:
  assumes "heap_list nxt p (xs @ ys)" and "xs \<noteq> []"
  shows "heap_list (nxt(last xs := NULL)) p xs" and "heap_list nxt (nxt (last xs)) ys" and "last xs \<notin> set ys"
proof -
  have d: "distinct (xs @ ys)" by (rule heap_list_distinct [OF assms(1)])
  then show "last xs \<notin> set ys" using assms(2) by (auto simp: disjoint_iff)
  from assms d show "heap_list (nxt(last xs := NULL)) p xs" "heap_list nxt (nxt (last xs)) ys"
  proof (induction xs arbitrary: p)
    case (Cons a xs)
    { case 1 then show ?case using Cons.IH(1) [of "nxt a"] by (cases "xs = []") auto }
    { case 2 then show ?case using Cons.IH(2) [of "nxt a"] by (cases "xs = []") auto }
  qed auto
qed

lemma heap_list_join:
  assumes "heap_list nxt p xs" and "heap_list nxt q ys" and "xs \<noteq> []" and "set xs \<inter> set ys = {}"
  shows "heap_list (nxt(last xs := q)) p (xs @ ys)"
  using assms heap_list_distinct [OF assms(1)]
proof (induction xs arbitrary: p)
  case (Cons a xs)
  show ?case
  proof (cases "xs = []")
    case False
    then have "heap_list (nxt(last xs := q)) (nxt a) (xs @ ys)" using Cons.prems by (intro Cons.IH) auto
    moreover have "a \<noteq> last xs" using False Cons.prems(5) by auto
    moreover have "last (a # xs) = last xs" using False by simp
    ultimately show ?thesis using Cons.prems(1) by (simp del: last.simps fun_upd_apply add: fun_upd_other)
  qed (use Cons.prems in \<open>simp del: fun_upd_apply add: fun_upd_same\<close>)
qed simp

lemma heap_list_last: "heap_list nxt p xs \<Longrightarrow> xs \<noteq> [] \<Longrightarrow> nxt (last xs) = NULL"
  by (induction xs arbitrary: p) auto

lemma load_loop:
  assumes "heap_list (obj_next s) p xs" and "xs \<noteq> []" and "\<forall>x\<in>set xs. valid_ptr s x" and "t \<le> target"
  shows "tss_load_loop s t target p =
    Some (t + of_nat (min (unat target - unat t) (length xs - 1)), xs ! min (unat target - unat t) (length xs - 1))"
  using assms
proof (induction xs arbitrary: p t)
  case (Cons a xs)
  have p: "p = a" "valid_ptr s a" using Cons.prems by auto
  show ?case
  proof (cases "t < target \<and> xs \<noteq> []")
    case True
    then have nz: "obj_next s a \<noteq> NULL" using Cons.prems(1) by (cases xs) auto
    have u: "unat (t + 1) = Suc (unat t)" using True by (intro unat_Suc_less [of t target]) simp
    have lt: "unat t < unat target" using True by (simp add: word_less_nat_alt)
    then have le: "t + 1 \<le> target" using u by (simp add: word_le_nat_alt)
    have "tss_load_loop s t target p = tss_load_loop s (t + 1) target (obj_next s a)"
      using True nz p by (subst tss_load_loop.simps) (simp add: get_next_def)
    moreover have "min (unat target - unat t) (length (a # xs) - 1) = Suc (min (unat target - unat (t + 1)) (length xs - 1))"
      using u lt True by (cases xs) auto
    ultimately show ?thesis
      using Cons.IH [of "obj_next s a" "t + 1"] Cons.prems True le by (simp add: add.commute add.left_commute)
  next
    case False
    then have "min (unat target - unat t) (length (a # xs) - 1) = 0" by (auto simp: word_less_nat_alt)
    moreover have "tss_load_loop s t target p = Some (t, p)"
      using False p Cons.prems(1) by (subst tss_load_loop.simps) (auto simp: get_next_def)
    ultimately show ?thesis using p by simp
  qed
qed simp

definition batch_rep :: "tss \<Rightarrow> tss_batch \<Rightarrow> addr list \<Rightarrow> bool" where
  "batch_rep s batch bs \<longleftrightarrow> heap_list (obj_next s) (batch_head batch) bs \<and> unat (current_count batch) = length bs \<and>
     batch_tail batch = (if bs = [] then NULL else last bs)"


lemma batch_rep_init [simp]: "batch_rep s (tss_batch_init n) []"
  by (simp add: batch_rep_def tss_batch_init_def)

lemma batch_load:
  assumes batch: "batch_rep s batch bs" and xs: "heap_list (obj_next s) p xs" and dj: "set bs \<inter> set xs = {}"
    and valid: "\<forall>x\<in>set (bs @ xs). valid_ptr s x" and room: "length bs < unat (target_count batch)"
  defines "k \<equiv> min (unat (target_count batch) - length bs) (length xs)"
  shows "\<exists>batch' q f. tss_batch_load batch p s = Some (of_nat k, batch', q, s\<lparr>obj_next := f\<rparr>) \<and>
    batch_rep (s\<lparr>obj_next := f\<rparr>) batch' (bs @ take k xs) \<and> heap_list f q (drop k xs) \<and>
    target_count batch' = target_count batch \<and> (\<forall>x. x \<notin> set bs \<union> set (take k xs) \<longrightarrow> f x = obj_next s x)"
proof (cases "xs = []")
  case True
  then show ?thesis
    using assms by (auto simp: tss_batch_load_def word_less_nat_alt batch_rep_def intro!: exI [of _ batch] exI [of _ p] exI [of _ "obj_next s"])
next
  case False
  let ?T = "unat (target_count batch)"
  have cur: "unat (current_count batch) = length bs" and tail: "batch_tail batch = (if bs = [] then NULL else last bs)"
    and bs: "heap_list (obj_next s) (batch_head batch) bs" using batch by (auto simp: batch_rep_def)
  have lt: "current_count batch < target_count batch" using room cur by (simp add: word_less_nat_alt)
  have diff: "unat (target_count batch - current_count batch) = ?T - length bs" using lt cur by (simp add: unat_sub)
  have k: "0 < k" "k \<le> length xs" "k \<le> ?T - length bs" using False room by (auto simp: k_def)
  define ys where "ys = take k xs"
  have ys: "ys \<noteq> []" "xs = ys @ drop k xs" "xs ! (k - 1) = last ys" "length ys = k"
    using k False by (auto simp: ys_def last_conv_nth min_def)
  have m: "min (unat (target_count batch - current_count batch) - unat (1::u32)) (length xs - 1) = k - 1"
    using False unfolding diff k_def by (cases xs) auto
  have one: "(1 :: u32) + of_nat (k - 1) = of_nat k" using k(1) by (cases k) auto
  have le1: "1 \<le> target_count batch - current_count batch" using diff room by (simp add: word_le_nat_alt)
  have loop: "tss_load_loop s 1 (target_count batch - current_count batch) p = Some (of_nat k, last ys)"
    using load_loop [OF xs False _ le1, unfolded m one ys(3)] valid by simp
  have pn: "p \<noteq> NULL" using xs False by (cases xs) auto
  have cut: "heap_list ((obj_next s)(last ys := NULL)) p ys" "heap_list (obj_next s) (obj_next s (last ys)) (drop k xs)"
      "last ys \<notin> set (drop k xs)"
    using heap_list_cut [of "obj_next s" p ys "drop k xs"] xs ys(1,2) by simp_all
  have vy: "last ys \<in> set ys" "set ys \<subseteq> set xs" using ys(1) by (auto simp: ys_def dest: in_set_takeD)
  then have vl: "valid_ptr s (last ys)" using valid by auto
  have cnt: "unat (current_count batch + of_nat k) = length (bs @ ys)"
  proof -
    have "length bs + k \<le> ?T" using k(3) room by simp
    then have "length bs + k < 2 ^ 32" using unat32_less [of "target_count batch"] by linarith
    then show ?thesis using cur ys(4) by (simp add: unat_word_ariths unat_of_nat)
  qed
  show ?thesis
  proof (cases "bs = []")
    case True
    let ?f = "(obj_next s)(last ys := NULL)"
    show ?thesis
      using True lt pn loop cur tail bs vy vl cut cnt
      by (intro exI [of _ "batch\<lparr>batch_head := p, batch_tail := last ys, current_count := current_count batch + of_nat k\<rparr>"]
            exI [of _ "obj_next s (last ys)"] exI [of _ ?f])
        (auto simp: tss_batch_load_def get_next_def set_next_def unat_eq_0 batch_rep_def ys(1) valid_ptr_def simp flip: ys_def)
  next
    case False
    let ?f = "(obj_next s)(last bs := p, last ys := NULL)"
    have b1: "last bs \<in> set bs" using False by simp
    then have "last bs \<notin> set xs" "last ys \<notin> set bs" using dj vy by auto
    then have b: "last bs \<notin> set ys" "last bs \<notin> set (drop k xs)" "last bs \<noteq> last ys" "last ys \<notin> set bs" "current_count batch \<noteq> 0"
      using vy b1 False cur by (auto dest: in_set_dropD)
    have "heap_list (((obj_next s)(last ys := NULL))(last bs := p)) (batch_head batch) (bs @ ys)"
      using bs cut(1) b dj vy False by (intro heap_list_join) auto
    then have join: "heap_list ?f (batch_head batch) (bs @ ys)" using b(3) by (simp add: fun_upd_twist)
    have nl: "obj_next s (last bs) = NULL" "valid_ptr s (last bs)" using heap_list_last [OF bs False] b1 valid by auto
    show ?thesis
      using False lt pn loop cur tail vy vl cut b b1 cnt join nl
      by (intro exI [of _ "batch\<lparr>batch_tail := last ys, current_count := current_count batch + of_nat k\<rparr>"]
            exI [of _ "obj_next s (last ys)"] exI [of _ ?f])
        (auto simp: tss_batch_load_def get_next_def set_next_def unat_eq_0 batch_rep_def ys(1) valid_ptr_def simp flip: ys_def)
  qed
qed


section \<open>Objects leave and enter a slab\<close>

lemma slab_update:
  assumes inv: "tss_inv s A R F" and b: "b \<in> set A \<union> set R" and fs: "heap_list f q fs" "set fs \<subseteq> set (slab_objs (slab_conf s) b)"
    and u: "unat u + length fs = unat (obj_per_slab (slab_conf s))" "b \<in> set R \<Longrightarrow> u \<noteq> 0"
    and n: "unat n + unat (used_count s b) = unat (used_obj_count s) + unat u"
    and f: "\<And>b' x. b' \<in> set A \<union> set R \<Longrightarrow> b' \<noteq> b \<Longrightarrow> x \<in> set (F b') \<Longrightarrow> f x = obj_next s x"
  shows "tss_inv (s\<lparr>obj_next := f, free_list_head := (free_list_head s)(b := q), used_count := (used_count s)(b := u),
      used_obj_count := n\<rparr>) A R (F(b := fs))" (is "tss_inv ?s A R ?F")
proof -
  have sl: "slab_inv ?s b' (?F b')" if "b' \<in> set A \<union> set R" for b'
  proof (cases "b' = b")
    case True
    then show ?thesis using tss_invD(4) [OF inv b] fs u(1) by (auto simp: slab_inv_def)
  next
    case False
    note s0 = tss_invD(4) [OF inv that]
    have "heap_list f (free_list_head s b') (F b')"
      using slab_invD(3) [OF s0] heap_list_cong [of "F b'" f "obj_next s"] f [OF that False] by simp
    then show ?thesis using s0 False by (auto simp: slab_inv_def)
  qed
  let ?B = "set A \<union> set R"
  have "(\<Sum>b'\<in>?B - {b}. unat (((used_count s)(b := u)) b')) = (\<Sum>b'\<in>?B - {b}. unat (used_count s b'))"
    by (rule sum.cong) auto
  then have "(\<Sum>b'\<in>?B. unat (((used_count s)(b := u)) b')) + unat (used_count s b) = (\<Sum>b'\<in>?B. unat (used_count s b')) + unat u"
    using sum.remove [of ?B b "\<lambda>b'. unat (((used_count s)(b := u)) b')"] sum.remove [of ?B b "\<lambda>b'. unat (used_count s b')"] b by simp
  then have "unat n = (\<Sum>b'\<in>?B. unat (((used_count s)(b := u)) b'))" using n tss_invD(7) [OF inv] by linarith
  moreover have "\<forall>b'\<in>set R. retired_flag s b' \<and> ((used_count s)(b := u)) b' \<noteq> 0" using tss_invD(6) [OF inv] u(2) by simp
  ultimately show ?thesis using tss_invD(1-3,5) [OF inv] sl by (simp add: tss_inv_def del: fun_upd_apply)
qed

lemma used_bound:
  assumes inv: "tss_inv s A R F"
  shows "(\<Sum>b\<in>set A \<union> set R. unat (obj_per_slab (slab_conf s))) < 2 ^ 64"
  using all_objs_bound [OF tss_invD(1) [OF inv], of "set A \<union> set R"] slab_invD(1) [OF tss_invD(4) [OF inv]] by simp

lemma used_le:
  assumes inv: "tss_inv s A R F" and b: "b \<in> set A \<union> set R"
  shows "unat (used_obj_count s) + length (F b) < 2 ^ 64"
proof -
  let ?B = "set A \<union> set R" and ?per = "unat (obj_per_slab (slab_conf s))"
  have le: "unat (used_count s b') + (if b' = b then length (F b) else 0) \<le> ?per" if "b' \<in> ?B" for b'
    using slab_invD(5) [OF tss_invD(4) [OF inv that]] by auto
  have "(\<Sum>b'\<in>?B. unat (used_count s b') + (if b' = b then length (F b) else 0)) \<le> (\<Sum>b'\<in>?B. ?per)"
    by (intro sum_mono le)
  then show ?thesis using used_bound [OF inv] tss_invD(7) [OF inv] b by (simp add: sum.distrib)
qed

lemma outs_disjoint:
  assumes inv: "tss_inv s A R F" and b: "b \<in> set A \<union> set R"
  shows "outs s (set A \<union> set R) F \<inter> set (F b) = {}"
proof -
  note c = tss_invD(1) [OF inv] and sl = tss_invD(4) [OF inv]
  have "set (F b) \<subseteq> set (slab_objs (slab_conf s) b)" by (rule slab_invD(4) [OF sl [OF b]])
  moreover have "set (slab_objs (slab_conf s) b') \<inter> set (slab_objs (slab_conf s) b) = {}" if "b' \<in> set A \<union> set R" "b' \<noteq> b" for b'
    using objs_disjoint [OF c slab_invD(1) [OF sl [OF that(1)]] slab_invD(1) [OF sl [OF b]] that(2)] .
  ultimately show ?thesis unfolding outs_def by blast
qed

lemma outs_valid: "tss_inv s A R F \<Longrightarrow> p \<in> outs s (set A \<union> set R) F \<Longrightarrow> valid_ptr s p"
  using slab_mapped unfolding outs_def by blast

lemma outs_insert: "outs s (insert b B) F = (set (slab_objs (slab_conf s) b) - set (F b)) \<union> outs s B F"
  by (simp add: outs_def)

lemma outs_cong: "(\<And>b. b \<in> B \<Longrightarrow> F b = G b) \<Longrightarrow> outs s B F = outs s B G"
  by (simp add: outs_def)

lemma outs_at:
  assumes "b \<in> B"
  shows "outs s B (F(b := fs)) = (set (slab_objs (slab_conf s) b) - set fs) \<union> outs s (B - {b}) F"
  using outs_insert [of s b "B - {b}" "F(b := fs)"] outs_cong [of "B - {b}" "F(b := fs)" F s] insert_Diff [OF assms] by simp

lemma outs_self: "b \<in> B \<Longrightarrow> outs s B F = (set (slab_objs (slab_conf s) b) - set (F b)) \<union> outs s (B - {b}) F"
  using outs_at [of b B s F "F b"] by simp

lemma outs_upd:
  assumes inv: "tss_inv s A R F" and b: "b \<in> set A \<union> set R"
  shows "outs s (set A \<union> set R) (F(b := drop k (F b))) = outs s (set A \<union> set R) F \<union> set (take k (F b))"
proof -
  have d: "distinct (F b)" by (rule heap_list_distinct [OF slab_invD(3) [OF tss_invD(4) [OF inv b]]])
  then have "set (F b) = set (take k (F b)) \<union> set (drop k (F b))" "set (take k (F b)) \<inter> set (drop k (F b)) = {}"
    by (metis append_take_drop_id set_append, metis append_take_drop_id distinct_append)
  moreover have "set (F b) \<subseteq> set (slab_objs (slab_conf s) b)" by (rule slab_invD(4) [OF tss_invD(4) [OF inv b]])
  moreover have "outs s (set A \<union> set R) F = (set (slab_objs (slab_conf s) b) - set (F b)) \<union> outs s (set A \<union> set R - {b}) F"
    using outs_at [OF b, of s F "F b"] by simp
  ultimately show ?thesis unfolding outs_at [OF b] by blast
qed

text \<open>One round of the loop that fills a batch: objects move from a slab to the batch.\<close>

lemma acquire_step:
  assumes inv: "tss_inv s A R F" and b: "b \<in> set A" and batch: "batch_rep s batch bs"
    and bs: "set bs \<subseteq> outs s (set A \<union> set R) F" and room: "length bs < unat (target_count batch)"
  defines "k \<equiv> min (unat (target_count batch) - length bs) (length (F b))"
  shows "\<exists>batch' q f. tss_batch_load batch (free_list_head s b) s = Some (of_nat k, batch', q, s\<lparr>obj_next := f\<rparr>) \<and>
    (let s' = s\<lparr>obj_next := f, free_list_head := (free_list_head s)(b := q),
         used_count := (used_count s)(b := used_count s b + ucast (of_nat k :: u32)),
         used_obj_count := used_obj_count s + ucast (of_nat k :: u32)\<rparr>
     in tss_inv s' A R (F(b := drop k (F b))) \<and> batch_rep s' batch' (bs @ take k (F b)) \<and>
       target_count batch' = target_count batch \<and> (\<forall>x. x \<notin> set bs \<union> set (take k (F b)) \<longrightarrow> f x = obj_next s x))"
proof -
  have b': "b \<in> set A \<union> set R" using b by simp
  note sl = tss_invD(4) [OF inv b'] and dj = outs_disjoint [OF inv]
  have valid: "\<forall>x\<in>set (bs @ F b). valid_ptr s x"
    using slab_mapped [OF inv b'] slab_invD(4) [OF sl] outs_valid [OF inv] bs by auto
  have "set bs \<inter> set (F b) = {}" using dj [OF b'] bs by blast
  from batch_load [OF batch slab_invD(3) [OF sl] this valid room] obtain batch' q f
    where load: "tss_batch_load batch (free_list_head s b) s = Some (of_nat k, batch', q, s\<lparr>obj_next := f\<rparr>)"
      and rep: "batch_rep (s\<lparr>obj_next := f\<rparr>) batch' (bs @ take k (F b))" "heap_list f q (drop k (F b))"
        "target_count batch' = target_count batch" and f: "\<forall>x. x \<notin> set bs \<union> set (take k (F b)) \<longrightarrow> f x = obj_next s x"
    unfolding k_def by blast
  have k: "k \<le> length (F b)" "k < 2 ^ 32" using unat32_less [of "target_count batch"] by (auto simp: k_def)
  have uk: "unat (ucast (of_nat k :: u32) :: size_t) = k" using k(2) by (simp add: unat_ucast32 unat_of_nat)
  have "unat (used_count s b) + k < 2 ^ 64"
    using slab_invD(5) [OF sl] k(1) by (intro le_less_trans [OF _ unat64_less [of "obj_per_slab (slab_conf s)"]]) linarith
  then have u: "unat (used_count s b + ucast (of_nat k :: u32)) = unat (used_count s b) + k"
    using uk unat_add64 [of "used_count s b" "ucast (of_nat k :: u32)"] by simp
  have n: "unat (used_obj_count s + ucast (of_nat k :: u32)) = unat (used_obj_count s) + k"
    using used_le [OF inv b'] k uk by (intro trans [OF unat_add64]) simp_all
  have "f x = obj_next s x" if "c \<in> set A \<union> set R" "c \<noteq> b" "x \<in> set (F c)" for c x
  proof -
    have "x \<notin> set (F b)" using objs_disjoint [OF tss_invD(1) [OF inv] slab_invD(1) [OF tss_invD(4) [OF inv that(1)]] slab_invD(1) [OF sl] that(2)]
        slab_invD(4) [OF tss_invD(4) [OF inv that(1)]] slab_invD(4) [OF sl] that(3) by blast
    moreover have "x \<notin> set bs" using dj [OF that(1)] bs that(3) by blast
    ultimately show ?thesis using f by (auto dest: in_set_takeD)
  qed
  then have "tss_inv (s\<lparr>obj_next := f, free_list_head := (free_list_head s)(b := q),
         used_count := (used_count s)(b := used_count s b + ucast (of_nat k :: u32)),
         used_obj_count := used_obj_count s + ucast (of_nat k :: u32)\<rparr>) A R (F(b := drop k (F b)))"
    using rep(2) slab_invD(4,5) [OF sl] u n k b tss_invD(3) [OF inv]
    by (intro slab_update [OF inv b']) (auto dest: in_set_dropD)
  then show ?thesis using load rep f unfolding Let_def by (intro exI [of _ batch'] exI [of _ q] exI [of _ f]) (simp add: batch_rep_def)
qed


definition moved :: "tss \<Rightarrow> tss \<Rightarrow> bool" where
  "moved s s' \<longleftrightarrow> (\<exists>f g u n. s' = s\<lparr>obj_next := f, free_list_head := g, used_count := u, used_obj_count := n\<rparr>)"

lemma moved_refl [simp]: "moved s s"
  unfolding moved_def
  by (intro exI [of _ "obj_next s"] exI [of _ "free_list_head s"] exI [of _ "used_count s"] exI [of _ "used_obj_count s"]) simp

lemma movedI [simp]: "moved s (s\<lparr>obj_next := f, free_list_head := g, used_count := u, used_obj_count := n\<rparr>)"
  by (auto simp: moved_def)

lemma moved_trans: "moved s s' \<Longrightarrow> moved s' s'' \<Longrightarrow> moved s s''"
  unfolding moved_def by fastforce

lemma moved_fields:
  assumes "moved s s'"
  shows "mapped s' = mapped s" "mmap_script s' = mmap_script s" "slab_next s' = slab_next s" "retired_flag s' = retired_flag s"
    "lock s' = lock s" "active_list_head s' = active_list_head s" "active_list_count s' = active_list_count s"
    "slab_conf s' = slab_conf s" "cache_conf s' = cache_conf s" "percent_to_retire s' = percent_to_retire s"
  using assms by (auto simp: moved_def)

lemma outs_moved: "moved s s' \<Longrightarrow> outs s' B F = outs s B F"
  by (simp add: outs_def moved_fields)

lemma acquire_round:
  assumes inv: "tss_inv s A R F" and b: "b \<in> set A" and batch: "batch_rep s batch bs"
    and bs: "set bs \<subseteq> outs s (set A \<union> set R) F" and room: "length bs < unat (target_count batch)"
  obtains batch' s' G ys where "tss_acquire_loop (Suc n) batch b s = tss_acquire_loop n batch' (slab_next s b) s'"
    "tss_inv s' A R G" "batch_rep s' batch' (bs @ ys)" "target_count batch' = target_count batch" "moved s s'"
    "\<And>c. c \<noteq> b \<Longrightarrow> G c = F c" "length ys = min (unat (target_count batch) - length bs) (length (F b))"
    "outs s (set A \<union> set R) G = outs s (set A \<union> set R) F \<union> set ys" "set ys \<inter> outs s (set A \<union> set R) F = {}"
    "\<And>x. x \<in> outs s (set A \<union> set R) F - set bs \<Longrightarrow> obj_next s' x = obj_next s x"
proof -
  define k where "k = min (unat (target_count batch) - length bs) (length (F b))"
  obtain batch1 q f where load: "tss_batch_load batch (free_list_head s b) s = Some (of_nat k, batch1, q, s\<lparr>obj_next := f\<rparr>)"
    and st: "let s' = s\<lparr>obj_next := f, free_list_head := (free_list_head s)(b := q),
         used_count := (used_count s)(b := used_count s b + ucast (of_nat k :: u32)),
         used_obj_count := used_obj_count s + ucast (of_nat k :: u32)\<rparr>
       in tss_inv s' A R (F(b := drop k (F b))) \<and> batch_rep s' batch1 (bs @ take k (F b)) \<and>
         target_count batch1 = target_count batch \<and> (\<forall>x. x \<notin> set bs \<union> set (take k (F b)) \<longrightarrow> f x = obj_next s x)"
    using acquire_step [OF inv b batch bs room] unfolding k_def by blast
  define s1 where "s1 = s\<lparr>obj_next := f, free_list_head := (free_list_head s)(b := q),
         used_count := (used_count s)(b := used_count s b + ucast (of_nat k :: u32)),
         used_obj_count := used_obj_count s + ucast (of_nat k :: u32)\<rparr>"
  note st1 = st [unfolded Let_def, folded s1_def]
  have bR: "b \<in> set A \<union> set R" using b by simp
  have dj: "set (take k (F b)) \<inter> outs s (set A \<union> set R) F = {}" using outs_disjoint [OF inv bR] by (auto dest: in_set_takeD)
  have "b \<noteq> NULL" "valid_ptr s b" "current_count batch < target_count batch"
    using base_mapped [OF inv bR] batch room by (auto simp: valid_ptr_def batch_rep_def word_less_nat_alt)
  then have "tss_acquire_loop (Suc n) batch b s = tss_acquire_loop n batch1 (slab_next s b) s1"
    using load by (simp add: s1_def Let_def)
  moreover have "moved s s1" by (simp add: s1_def)
  moreover have "obj_next s1 x = obj_next s x" if "x \<in> outs s (set A \<union> set R) F - set bs" for x
  proof -
    have "x \<notin> set (take k (F b))" using that dj by blast
    then show ?thesis using that st1 by (auto simp: s1_def)
  qed
  moreover have "length (take k (F b)) = k" by (simp add: k_def)
  ultimately show thesis
    using st1 dj outs_upd [OF inv bR, of k] by (intro that [of batch1 s1 "F(b := drop k (F b))" "take k (F b)"]) (simp_all add: k_def)
qed

lemma min_room: "(a::nat) < t \<Longrightarrow> min t (a + min (t - a) f + r) = min t (a + (f + r))"
  by (auto simp: min_def)

lemma acquire_loop:
  assumes "tss_inv s A R F" and "heap_list (slab_next s) cur B" and "set B \<subseteq> set A" and "batch_rep s batch bs"
    and "set bs \<subseteq> outs s (set A \<union> set R) F" and "length bs \<le> unat (target_count batch)" and "length B < fuel"
  shows "\<exists>batch' s' F' xs. tss_acquire_loop fuel batch cur s = Some (batch', s') \<and> tss_inv s' A R F' \<and>
    batch_rep s' batch' (bs @ xs) \<and> target_count batch' = target_count batch \<and> moved s s' \<and>
    length (bs @ xs) = min (unat (target_count batch)) (length bs + (\<Sum>b\<leftarrow>B. length (F b))) \<and>
    outs s (set A \<union> set R) F' = outs s (set A \<union> set R) F \<union> set xs \<and> set xs \<inter> outs s (set A \<union> set R) F = {} \<and>
    (\<forall>x\<in>outs s (set A \<union> set R) F - set bs. obj_next s' x = obj_next s x)"
  using assms
proof (induction B arbitrary: s cur batch bs F fuel)
  case Nil
  obtain n where "fuel = Suc n" using Nil.prems(7) by (cases fuel) auto
  then show ?case using Nil.prems by (intro exI [of _ batch] exI [of _ s] exI [of _ F] exI [of _ "[]"]) auto
next
  case (Cons b B)
  let ?B = "set A \<union> set R"
  obtain n where n: "fuel = Suc n" "length B < n" using Cons.prems(7) by (cases fuel) auto
  have cur: "cur = b" "heap_list (slab_next s) (slab_next s b) B" and bA: "b \<in> set A" using Cons.prems(2,3) by auto
  have cnt: "unat (current_count batch) = length bs" using Cons.prems(4) by (simp add: batch_rep_def)
  show ?case
  proof (cases "current_count batch < target_count batch")
    case False
    then have "length bs = unat (target_count batch)" using cnt Cons.prems(6) by (simp add: word_less_nat_alt)
    then show ?thesis using False n Cons.prems by (intro exI [of _ batch] exI [of _ s] exI [of _ F] exI [of _ "[]"]) auto
  next
    case True
    then have room: "length bs < unat (target_count batch)" using cnt by (simp add: word_less_nat_alt)
    obtain batch1 s1 G ys where r1: "tss_acquire_loop (Suc n) batch b s = tss_acquire_loop n batch1 (slab_next s b) s1"
        "tss_inv s1 A R G" "batch_rep s1 batch1 (bs @ ys)" "target_count batch1 = target_count batch" "moved s s1"
        "\<And>c. c \<noteq> b \<Longrightarrow> G c = F c" "length ys = min (unat (target_count batch) - length bs) (length (F b))"
        "outs s ?B G = outs s ?B F \<union> set ys" "set ys \<inter> outs s ?B F = {}"
        "\<And>x. x \<in> outs s ?B F - set bs \<Longrightarrow> obj_next s1 x = obj_next s x"
      by (rule acquire_round [where n = n, OF Cons.prems(1) bA Cons.prems(4,5) room]) (rule that)
    have "heap_list (slab_next s1) (slab_next s b) B" "set (bs @ ys) \<subseteq> outs s1 ?B G" "set B \<subseteq> set A"
        "length (bs @ ys) \<le> unat (target_count batch1)"
      using cur(2) Cons.prems(3,5) room r1(4,7,8) by (auto simp: moved_fields [OF r1(5)] outs_moved [OF r1(5)])
    from Cons.IH [OF r1(2) this(1,3) r1(3) this(2,4) n(2)] obtain batch' s' F' xs
      where r: "tss_acquire_loop n batch1 (slab_next s b) s1 = Some (batch', s')" "tss_inv s' A R F'"
        "batch_rep s' batch' ((bs @ ys) @ xs)" "target_count batch' = target_count batch" "moved s1 s'"
        "length ((bs @ ys) @ xs) = min (unat (target_count batch)) (length (bs @ ys) + (\<Sum>b\<leftarrow>B. length (G b)))"
        "outs s ?B F' = outs s ?B G \<union> set xs" "set xs \<inter> outs s ?B G = {}"
        "\<forall>x\<in>outs s ?B G - set (bs @ ys). obj_next s' x = obj_next s1 x"
      unfolding outs_moved [OF r1(5)] r1(4) by auto
    have "b \<notin> set B" using heap_list_distinct [OF Cons.prems(2)] by simp
    then have "map (\<lambda>b. length (G b)) B = map (\<lambda>b. length (F b)) B" using r1(6) by (intro map_cong) (auto, metis)
    then have "(\<Sum>b\<leftarrow>B. length (G b)) = (\<Sum>b\<leftarrow>B. length (F b))" by (rule arg_cong)
    then have "length (bs @ ys @ xs) = min (unat (target_count batch)) (length bs + (\<Sum>b\<leftarrow>b # B. length (F b)))"
      using r(6) r1(7) room min_room [OF room, of "length (F b)" "\<Sum>b\<leftarrow>B. length (F b)"] by simp
    moreover have "\<forall>x\<in>outs s ?B F - set bs. obj_next s' x = obj_next s x"
    proof
      fix x
      assume x: "x \<in> outs s ?B F - set bs"
      then have "x \<in> outs s ?B G - set (bs @ ys)" using r1(8,9) by auto
      then show "obj_next s' x = obj_next s x" using r(9) r1(10) [OF x] by simp
    qed
    ultimately show ?thesis
      using r(1-5,7,8) r1(1,8,9) moved_trans [OF r1(5) r(5)] n(1) cur(1)
      by (intro exI [of _ batch'] exI [of _ s'] exI [of _ F'] exI [of _ "ys @ xs"]) auto
  qed
qed


section \<open>New slabs\<close>

lemma link_loop_eq:
  assumes "\<forall>j < i + n. valid_ptr s (bytes + of_nat j * padded)"
  shows "tss_link_loop bytes padded n (of_nat i) list s =
    (let (list', nxt) = fl_link_loop bytes padded n (of_nat i) list (obj_next s) in Some (list', s\<lparr>obj_next := nxt\<rparr>))"
  using assms
proof (induction n arbitrary: i list s)
  case (Suc n)
  let ?obj = "bytes + of_nat i * padded"
  have "\<forall>j < Suc i + n. valid_ptr (s\<lparr>obj_next := (obj_next s)(?obj := list)\<rparr>) (bytes + of_nat j * padded)"
    using Suc.prems by (simp add: valid_ptr_def)
  from Suc.IH [OF this, of ?obj] Suc.prems show ?case by (simp add: set_next_def Let_def add.commute case_prod_beta del: fun_upd_apply)
qed simp

lemma link_loop_frame:
  "p \<notin> (\<lambda>j. bytes + of_nat j * sz) ` {i..<i + n} \<Longrightarrow> snd (fl_link_loop bytes sz n (of_nat i) list nxt) p = nxt p"
proof (induction n arbitrary: i list nxt)
  case (Suc n)
  have "p \<noteq> bytes + of_nat i * sz" "p \<notin> (\<lambda>j. bytes + of_nat j * sz) ` {Suc i..<Suc i + n}" using Suc.prems by auto
  then show ?case using Suc.IH [of "Suc i" "bytes + of_nat i * sz" "nxt(bytes + of_nat i * sz := list)"]
    by (simp add: Let_def add.commute fun_upd_other del: fun_upd_apply)
qed simp

lemma link_block:
  assumes c: "conf_ok conf" and b: "base_ok conf b" and v: "\<forall>p\<in>set (slab_objs conf b). valid_ptr s p"
  shows "\<exists>list f. tss_slab_link_block b conf s = Some (list, s\<lparr>obj_next := f\<rparr>) \<and> heap_list f list (rev (slab_objs conf b)) \<and>
    (\<forall>p. p \<notin> set (slab_objs conf b) \<longrightarrow> f p = obj_next s p)"
proof -
  let ?bytes = "b + slab_offset conf" and ?n = "unat (obj_per_slab conf)"
  let ?o = "\<lambda>j. ?bytes + of_nat j * padded_obj_size conf"
  obtain list f where lf: "fl_link_loop ?bytes (padded_obj_size conf) ?n (of_nat 0) NULL (obj_next s) = (list, f)"
    by fastforce
  have objs: "slab_objs conf b = map ?o [0..<0 + ?n]" by (simp add: slab_objs_def)
  have "\<forall>j < 0 + ?n. valid_ptr s (?o j)" "\<forall>j < 0 + ?n. ?o j \<noteq> NULL" "distinct (map ?o [0..<0 + ?n])"
    using v objs_range(2) [OF c b] objs_distinct [OF c b] unfolding objs by auto
  note h = link_loop_eq [of 0, OF this(1)] link_loop_inv [of "obj_next s" NULL "[]" ?bytes "padded_obj_size conf" 0, OF _ this(3,2)]
  have "heap_list f list (rev (slab_objs conf b))" using h(2) lf unfolding objs by simp
  moreover have "tss_slab_link_block b conf s = Some (list, s\<lparr>obj_next := f\<rparr>)"
    using h(1) lf b by (simp add: tss_slab_link_block_def base_ok_def)
  moreover have "f p = obj_next s p" if "p \<notin> set (slab_objs conf b)" for p
    using link_loop_frame [of p ?bytes "padded_obj_size conf" 0 ?n NULL "obj_next s"] lf that unfolding objs by simp
  ultimately show ?thesis by blast
qed


text \<open>
  The answers of the kernel to the coming calls for slabs of size \<open>n\<close>, when \<open>m\<close> is mapped: every block
  it grants is fresh at the time of the call.
\<close>

fun honest :: "size_t \<Rightarrow> addr sys list \<Rightarrow> (addr \<Rightarrow> bool) \<Rightarrow> bool" where
  "honest n [] m = True"
| "honest n (SysErr e # rs) m = True"
| "honest n (SysOk raw # rs) m \<longleftrightarrow> fresh_block raw (n * 2) \<lparr>mmap_script = [], mapped = m\<rparr> \<and>
     honest n rs (\<lambda>x. in_range ((raw + n - 1) AND NOT (n - 1)) n x \<or> m x)"

lemma fresh_block_mapped: "fresh_block raw len \<lparr>mmap_script = [], mapped = mapped s\<rparr> = fresh_block raw len s"
  by (simp add: fresh_block_def)

text \<open>The slab that a successful \<open>tss_slab_create\<close> returns.\<close>

lemma slab_create_ok:
  assumes c: "conf_ok conf" and script: "mmap_script s = SysOk raw # rs" and raw: "fresh_block raw (slab_size conf * 2) s"
  obtains b list f where "tss_slab_create conf s JFS_OK = Some (b, s\<lparr>mmap_script := rs,
      mapped := (\<lambda>x. in_range b (slab_size conf) x \<or> mapped s x), obj_next := f,
      free_list_head := (free_list_head s)(b := list), slab_next := (slab_next s)(b := NULL),
      used_count := (used_count s)(b := 0), retired_flag := (retired_flag s)(b := False)\<rparr>, JFS_OK)"
    "base_ok conf b" "\<And>x. in_range b (slab_size conf) x \<Longrightarrow> \<not> mapped s x" "heap_list f list (rev (slab_objs conf b))"
    "\<And>p. p \<notin> set (slab_objs conf b) \<Longrightarrow> f p = obj_next s p" "b = (raw + slab_size conf - 1) AND NOT (slab_size conf - 1)"
proof -
  let ?n = "slab_size conf"
  have sz: "slab_size_ok ?n" using c by (simp add: conf_ok_def)
  obtain b where b: "aligned_mmap ?n s JFS_OK = Some (b, s\<lparr>mmap_script := rs, mapped := \<lambda>x. in_range b ?n x \<or> mapped s x\<rparr>, JFS_OK)"
    "unat ?n dvd unat b" "unat raw \<le> unat b" "unat b + unat ?n \<le> unat raw + 2 * unat ?n" "b \<noteq> NULL"
    by (rule aligned_mmap_ok [OF sz script raw])
  have n2: "unat (?n * 2) = 2 * unat ?n" using sz by (simp add: slab_size_ok_def unat_word_ariths)
  then have fits: "unat raw + 2 * unat ?n < 2 ^ 64" using raw by (simp add: fresh_block_def)
  then have base: "base_ok conf b" using b by (simp add: base_ok_def)
  let ?s = "s\<lparr>mmap_script := rs, mapped := \<lambda>x. in_range b ?n x \<or> mapped s x\<rparr>"
  have "\<forall>p\<in>set (slab_objs conf b). valid_ptr ?s p" using objs_range [OF c base] by (simp add: valid_ptr_def)
  from link_block [OF c base this] obtain list f where lf: "tss_slab_link_block b conf ?s = Some (list, ?s\<lparr>obj_next := f\<rparr>)"
    "heap_list f list (rev (slab_objs conf b))" "\<forall>p. p \<notin> set (slab_objs conf b) \<longrightarrow> f p = obj_next s p" by auto
  have "in_range b ?n b" using sz by (simp add: in_range_def slab_size_ok_def jfs_mlg_valid_align_def word_greater_zero_iff)
  then have "valid_ptr (?s\<lparr>obj_next := f\<rparr>) b" using b(5) by (simp add: valid_ptr_def)
  then have run: "tss_slab_create conf s JFS_OK = Some (b, (?s\<lparr>obj_next := f\<rparr>)\<lparr>
      free_list_head := (free_list_head s)(b := list), slab_next := (slab_next s)(b := NULL),
      used_count := (used_count s)(b := 0), retired_flag := (retired_flag s)(b := False)\<rparr>, JFS_OK)"
    using b(1) lf(1) by (simp add: tss_slab_create_def tss_aligned_mmap_def)
  have unm: "\<not> mapped s x" if "in_range b ?n x" for x
  proof -
    have "unat b + unat ?n \<le> 2 ^ 64" "unat raw + unat (?n * 2) \<le> 2 ^ 64" using fits b(4) n2 by linarith+
    then have "in_range raw (?n * 2) x" using that b(3,4) n2 by (simp add: in_range_iff)
    then show ?thesis using raw by (simp add: fresh_block_def)
  qed
  have "b = (raw + ?n - 1) AND NOT (?n - 1)"
    using b(1) script by (auto simp: aligned_mmap_def vm_mmap_def jfs_mmap_def Let_def split: if_splits Option.bind_splits)
  then show thesis using run base unm lf(2,3) by (intro that [of b list f]) auto
qed


definition with_slab :: "addr sys list \<Rightarrow> addr \<Rightarrow> addr \<Rightarrow> (addr \<Rightarrow> addr) \<Rightarrow> tss \<Rightarrow> tss" where
  "with_slab rs b list f s = s\<lparr>mmap_script := rs,
      mapped := (\<lambda>x. in_range b (slab_size (slab_conf s)) x \<or> mapped s x), obj_next := f,
      free_list_head := (free_list_head s)(b := list), slab_next := (slab_next s)(b := active_list_head s),
      used_count := (used_count s)(b := 0), retired_flag := (retired_flag s)(b := False),
      active_list_head := b, active_list_count := active_list_count s + 1\<rparr>"

lemma with_slab_inv:
  assumes inv: "tss_inv s A R F" and b: "base_ok (slab_conf s) b" "b \<notin> set A \<union> set R"
    and list: "heap_list f list (rev (slab_objs (slab_conf s) b))"
    and f: "\<And>p. p \<notin> set (slab_objs (slab_conf s) b) \<Longrightarrow> f p = obj_next s p"
  shows "tss_inv (with_slab rs b list f s) (b # A) R (F(b := rev (slab_objs (slab_conf s) b)))" (is "tss_inv ?s _ _ ?F")
proof -
  let ?c = "slab_conf s"
  note c = tss_invD(1) [OF inv]
  have sl: "slab_inv ?s d (?F d)" if "d \<in> set (b # A) \<union> set R" for d
  proof (cases "d = b")
    case True
    then show ?thesis using b(1) list by (simp add: slab_inv_def with_slab_def)
  next
    case False
    then have d: "d \<in> set A \<union> set R" using that by auto
    note s0 = tss_invD(4) [OF inv d]
    have "set (slab_objs ?c d) \<inter> set (slab_objs ?c b) = {}" using objs_disjoint [OF c slab_invD(1) [OF s0] b(1) False] .
    then have "heap_list f (free_list_head s d) (F d)"
      using slab_invD(3,4) [OF s0] heap_list_cong [of "F d" f "obj_next s"] f by blast
    then show ?thesis using s0 False by (simp add: slab_inv_def with_slab_def)
  qed
  have "(\<Sum>d\<in>set (b # A) \<union> set R. unat (used_count ?s d)) = (\<Sum>d\<in>set A \<union> set R. unat (used_count s d))"
  proof -
    have "(\<Sum>d\<in>set A \<union> set R. unat (used_count ?s d)) = (\<Sum>d\<in>set A \<union> set R. unat (used_count s d))"
      using b(2) by (intro sum.cong) (auto simp: with_slab_def)
    moreover have "unat (used_count ?s b) = 0" by (simp add: with_slab_def)
    ultimately show ?thesis using b(2) by simp
  qed
  moreover have "heap_list (slab_next ?s) b (b # A)"
    using tss_invD(2) [OF inv] b by (simp add: with_slab_def base_ok_def del: fun_upd_apply add: fun_upd_same)
  moreover have "\<forall>d\<in>set (b # A). \<not> retired_flag ?s d" "\<forall>d\<in>set R. retired_flag ?s d \<and> used_count ?s d \<noteq> 0"
    using tss_invD(5,6) [OF inv] b(2) by (auto simp: with_slab_def)
  moreover have "distinct ((b # A) @ R)" using tss_invD(3) [OF inv] b(2) by simp
  moreover have "slab_conf ?s = ?c" "active_list_head ?s = b" "used_obj_count ?s = used_obj_count s" by (simp_all add: with_slab_def)
  ultimately show ?thesis using c sl tss_invD(7) [OF inv] unfolding tss_inv_def by metis
qed

text \<open>What is mapped besides the slabs \<open>B\<close>.\<close>

definition elsewhere :: "tss \<Rightarrow> addr set \<Rightarrow> addr \<Rightarrow> bool" where
  "elsewhere s B = (\<lambda>x. mapped s x \<and> \<not> (\<exists>b\<in>B. in_range b (slab_size (slab_conf s)) x))"

lemma elsewhere_same: "mapped s' = mapped s \<Longrightarrow> slab_conf s' = slab_conf s \<Longrightarrow> elsewhere s' B = elsewhere s B"
  by (simp add: elsewhere_def)

lemma elsewhere_drop:
  assumes "mapped s' = (\<lambda>x. mapped s x \<and> \<not> (\<exists>b\<in>D. in_range b (slab_size (slab_conf s)) x))" and "slab_conf s' = slab_conf s"
    and "B' \<union> D = B"
  shows "elsewhere s' B' = elsewhere s B"
  using assms by (auto simp: elsewhere_def fun_eq_iff)

lemma add_slab_ok:
  assumes inv: "tss_inv s A R F" and script: "mmap_script s = SysOk raw # rs"
    and hon: "honest (slab_size (slab_conf s)) (mmap_script s) (mapped s)"
  obtains b list f where "tss_allocator_add_slab s JFS_OK = Some (with_slab rs b list f s, JFS_OK)" "b \<notin> set A \<union> set R"
    "tss_inv (with_slab rs b list f s) (b # A) R (F(b := rev (slab_objs (slab_conf s) b)))"
    "honest (slab_size (slab_conf s)) rs (mapped (with_slab rs b list f s))"
    "\<And>x. x \<in> outs s (set A \<union> set R) F \<Longrightarrow> f x = obj_next s x"
    "elsewhere (with_slab rs b list f s) (set (b # A) \<union> set R) = elsewhere s (set A \<union> set R)"
proof -
  let ?c = "slab_conf s"
  note c = tss_invD(1) [OF inv]
  have raw: "fresh_block raw (slab_size ?c * 2) s" using hon script by (simp add: fresh_block_def)
  obtain b list f where cr: "tss_slab_create ?c s JFS_OK = Some (b, s\<lparr>mmap_script := rs,
      mapped := (\<lambda>x. in_range b (slab_size ?c) x \<or> mapped s x), obj_next := f,
      free_list_head := (free_list_head s)(b := list), slab_next := (slab_next s)(b := NULL),
      used_count := (used_count s)(b := 0), retired_flag := (retired_flag s)(b := False)\<rparr>, JFS_OK)"
    "base_ok ?c b" "\<And>x. in_range b (slab_size ?c) x \<Longrightarrow> \<not> mapped s x" "heap_list f list (rev (slab_objs ?c b))"
    "\<And>p. p \<notin> set (slab_objs ?c b) \<Longrightarrow> f p = obj_next s p" "b = (raw + slab_size ?c - 1) AND NOT (slab_size ?c - 1)"
    by (rule slab_create_ok [OF c script raw]) (rule that)
  have "in_range b (slab_size ?c) b"
    using c by (simp add: in_range_def conf_ok_def slab_size_ok_def jfs_mlg_valid_align_def word_greater_zero_iff)
  then have new: "b \<notin> set A \<union> set R" using cr(3) base_mapped [OF inv] by (auto simp: valid_ptr_def)
  have "f x = obj_next s x" if x: "x \<in> outs s (set A \<union> set R) F" for x
  proof -
    obtain d where d: "d \<in> set A \<union> set R" "x \<in> set (slab_objs ?c d)" using x by (auto simp: outs_def)
    then have "d \<noteq> b" using new by auto
    then show ?thesis using objs_disjoint [OF c slab_invD(1) [OF tss_invD(4) [OF inv d(1)]] cr(2)] d(2) cr(5) by blast
  qed
  moreover have "honest (slab_size ?c) rs (mapped (with_slab rs b list f s))"
    using hon script cr(6) by (simp add: with_slab_def)
  moreover have "tss_allocator_add_slab s JFS_OK = Some (with_slab rs b list f s, JFS_OK)"
    using cr(1) by (simp add: tss_allocator_add_slab_def with_slab_def)
  moreover have "elsewhere (with_slab rs b list f s) (set (b # A) \<union> set R) = elsewhere s (set A \<union> set R)"
    using cr(3) by (auto simp: elsewhere_def with_slab_def fun_eq_iff)
  ultimately show thesis using new with_slab_inv [OF inv cr(2) new cr(4,5)] by (intro that [of b list f]) auto
qed


lemma add_slab_fail:
  assumes inv: "tss_inv s A R F" and "\<forall>raw rs. mmap_script s \<noteq> SysOk raw # rs"
  shows "tss_allocator_add_slab s JFS_OK = Some (s\<lparr>mmap_script := tl (mmap_script s)\<rparr>, JFS_ERR_SYS)"
proof -
  have "slab_size_ok (slab_size (slab_conf s))" using tss_invD(1) [OF inv] by (simp add: conf_ok_def)
  moreover have "\<forall>raw. mmap_script s \<noteq> [] \<longrightarrow> hd (mmap_script s) \<noteq> SysOk raw" using assms(2) by (cases "mmap_script s") auto
  ultimately have "aligned_mmap (slab_size (slab_conf s)) s JFS_OK = Some (NULL, s\<lparr>mmap_script := tl (mmap_script s)\<rparr>, JFS_ERR_SYS)"
    by (rule aligned_mmap_fails)
  then show ?thesis by (simp add: tss_allocator_add_slab_def tss_slab_create_def tss_aligned_mmap_def)
qed

lemma inv_script: "tss_inv (s\<lparr>mmap_script := rs\<rparr>) A R F = tss_inv s A R F"
  by (simp add: tss_inv_def slab_inv_def)

definition grown :: "nat \<Rightarrow> tss \<Rightarrow> tss \<Rightarrow> bool" where
  "grown k s s' \<longleftrightarrow> slab_conf s' = slab_conf s \<and> cache_conf s' = cache_conf s \<and> lock s' = lock s \<and>
     percent_to_retire s' = percent_to_retire s \<and> used_obj_count s' = used_obj_count s \<and>
     active_list_count s' = active_list_count s + of_nat k"

lemma outs_conf: "slab_conf s' = slab_conf s \<Longrightarrow> outs s' B F = outs s B F"
  by (simp add: outs_def)

lemma add_slabs:
  assumes "tss_inv s A R F" and "honest (slab_size (slab_conf s)) (mmap_script s) (mapped s)"
  shows "\<exists>s' e B G. tss_add_slabs n s JFS_OK = Some (s', e) \<and> tss_inv s' (B @ A) R G \<and>
    (e = JFS_OK \<and> length B = n \<or> e = JFS_ERR_SYS) \<and> (\<forall>b\<in>set A \<union> set R. G b = F b) \<and>
    (\<forall>b\<in>set B. length (G b) = unat (obj_per_slab (slab_conf s))) \<and>
    outs s (set (B @ A) \<union> set R) G = outs s (set A \<union> set R) F \<and> grown (length B) s s' \<and>
    (\<forall>x\<in>outs s (set A \<union> set R) F. obj_next s' x = obj_next s x) \<and>
    elsewhere s' (set (B @ A) \<union> set R) = elsewhere s (set A \<union> set R)"
  using assms
proof (induction n arbitrary: s A F)
  case 0
  then show ?case by (intro exI [of _ s] exI [of _ JFS_OK] exI [of _ "[]"] exI [of _ F]) (simp add: grown_def)
next
  case (Suc n)
  show ?case
  proof (cases "\<exists>raw rs. mmap_script s = SysOk raw # rs")
    case False
    then have "tss_add_slabs (Suc n) s JFS_OK = Some (s\<lparr>mmap_script := tl (mmap_script s)\<rparr>, JFS_ERR_SYS)"
      using add_slab_fail [OF Suc.prems(1)] by simp
    then show ?thesis using Suc.prems(1)
      by (intro exI [of _ "s\<lparr>mmap_script := tl (mmap_script s)\<rparr>"] exI [of _ JFS_ERR_SYS] exI [of _ "[]"] exI [of _ F])
        (simp add: grown_def inv_script elsewhere_def)
  next
    case True
    then obtain raw rs where script: "mmap_script s = SysOk raw # rs" by blast
    obtain b list f where r: "tss_allocator_add_slab s JFS_OK = Some (with_slab rs b list f s, JFS_OK)" "b \<notin> set A \<union> set R"
        "tss_inv (with_slab rs b list f s) (b # A) R (F(b := rev (slab_objs (slab_conf s) b)))"
        "honest (slab_size (slab_conf s)) rs (mapped (with_slab rs b list f s))"
        "\<And>x. x \<in> outs s (set A \<union> set R) F \<Longrightarrow> f x = obj_next s x"
        "elsewhere (with_slab rs b list f s) (set (b # A) \<union> set R) = elsewhere s (set A \<union> set R)"
      by (rule add_slab_ok [OF Suc.prems(1) script Suc.prems(2)]) (rule that)
    define s1 where "s1 = with_slab rs b list f s"
    define F1 where "F1 = F(b := rev (slab_objs (slab_conf s) b))"
    have g1: "grown 1 s s1" "mmap_script s1 = rs" "obj_next s1 = f" "slab_conf s1 = slab_conf s" by (simp_all add: s1_def with_slab_def grown_def)
    have "F1 d = F d" if "d \<in> set A \<union> set R" for d using r(2) that by (auto simp: F1_def)
    then have "outs s (set A \<union> set R) F1 = outs s (set A \<union> set R) F" by (rule outs_cong)
    then have o1: "outs s (set (b # A) \<union> set R) F1 = outs s (set A \<union> set R) F"
      using outs_insert [of s b "set A \<union> set R" F1] by (simp add: F1_def)
    have "honest (slab_size (slab_conf s1)) (mmap_script s1) (mapped s1)" using r(4) by (simp add: s1_def with_slab_def)
    from Suc.IH [OF r(3) [folded s1_def F1_def] this] obtain s' e B G
      where q: "tss_add_slabs n s1 JFS_OK = Some (s', e)" "tss_inv s' (B @ b # A) R G" "e = JFS_OK \<and> length B = n \<or> e = JFS_ERR_SYS"
        "\<forall>d\<in>set (b # A) \<union> set R. G d = F1 d" "\<forall>d\<in>set B. length (G d) = unat (obj_per_slab (slab_conf s))"
        "outs s (set (B @ b # A) \<union> set R) G = outs s (set (b # A) \<union> set R) F1" "grown (length B) s1 s'"
        "\<forall>x\<in>outs s (set (b # A) \<union> set R) F1. obj_next s' x = obj_next s1 x"
        "elsewhere s' (set (B @ b # A) \<union> set R) = elsewhere s1 (set (b # A) \<union> set R)"
      unfolding outs_conf [OF g1(4)] g1(4) by auto
    have "grown (length (B @ [b])) s s'" using g1(1) q(7) by (simp add: grown_def)
    moreover have "tss_add_slabs (Suc n) s JFS_OK = Some (s', e)" using r(1) q(1) by (simp add: s1_def)
    moreover have "\<forall>d\<in>set A \<union> set R. G d = F d" "length (G b) = unat (obj_per_slab (slab_conf s))"
      using q(4) r(2) by (auto simp: F1_def)
    moreover have "elsewhere s' (set ((B @ [b]) @ A) \<union> set R) = elsewhere s (set A \<union> set R)" using q(9) r(6) by (simp add: s1_def)
    ultimately show ?thesis using q(2,3,5,6,8) r(5) unfolding o1 g1(3)
      by (intro exI [of _ s'] exI [of _ e] exI [of _ "B @ [b]"] exI [of _ G]) auto
  qed
qed


section \<open>Acquiring a batch\<close>

text \<open>No slab was dropped from the active list, and the counter of active slabs is right.\<close>

definition counts_ok :: "tss \<Rightarrow> addr list \<Rightarrow> addr list \<Rightarrow> bool" where
  "counts_ok s A R \<longleftrightarrow> R = [] \<and> unat (active_list_count s) = length A"

definition same_conf :: "tss \<Rightarrow> tss \<Rightarrow> bool" where
  "same_conf s s' \<longleftrightarrow> slab_conf s' = slab_conf s \<and> cache_conf s' = cache_conf s \<and> lock s' = lock s"

definition acquired ::
  "tss \<Rightarrow> addr list \<Rightarrow> addr list \<Rightarrow> (addr \<Rightarrow> addr list) \<Rightarrow> u32 \<Rightarrow> tss_batch \<Rightarrow> tss \<Rightarrow> jfs_err_t \<Rightarrow> bool" where
  "acquired s A R F t batch' s' e \<longleftrightarrow> (\<exists>B G bs. tss_inv s' (B @ A) R G \<and> batch_rep s' batch' bs \<and> target_count batch' = t \<and>
     (e = JFS_OK \<and> length bs = unat t \<or> e = JFS_ERR_SYS \<and> bs = []) \<and> same_conf s s' \<and>
     outs s (set (B @ A) \<union> set R) G = outs s (set A \<union> set R) F \<union> set bs \<and> set bs \<inter> outs s (set A \<union> set R) F = {} \<and>
     (\<forall>x\<in>outs s (set A \<union> set R) F. obj_next s' x = obj_next s x) \<and>
     active_list_count s' = active_list_count s + of_nat (length B) \<and>
     elsewhere s' (set (B @ A) \<union> set R) = elsewhere s (set A \<union> set R))"

lemma active_length: "tss_inv s A R F \<Longrightarrow> length A < 2 ^ 64"
  using heap_list_length tss_invD(2) by blast

lemma free_total:
  assumes inv: "tss_inv s A R F" and cnt: "counts_ok s A R"
  shows "unat (obj_per_slab (slab_conf s) * active_list_count s - used_obj_count s) = (\<Sum>b\<leftarrow>A. length (F b))"
proof -
  let ?per = "unat (obj_per_slab (slab_conf s))"
  have R: "R = []" and n: "unat (active_list_count s) = length A" using cnt by (auto simp: counts_ok_def)
  have d: "distinct A" using tss_invD(3) [OF inv] by simp
  have e: "unat (used_count s b) + length (F b) = ?per" if "b \<in> set A" for b
    using slab_invD(5) [OF tss_invD(4) [OF inv]] that by simp
  have "(\<Sum>b\<in>set A. unat (used_count s b)) + (\<Sum>b\<in>set A. length (F b)) = (\<Sum>b\<in>set A. ?per)"
    using e by (simp flip: sum.distrib)
  then have total: "unat (used_obj_count s) + (\<Sum>b\<in>set A. length (F b)) = length A * ?per"
    using tss_invD(7) [OF inv] R d by (simp add: distinct_card)
  have "length A * ?per < 2 ^ 64" using used_bound [OF inv] R d by (simp add: distinct_card)
  then have m: "unat (obj_per_slab (slab_conf s) * active_list_count s) = length A * ?per"
    using n by (simp add: unat_word_ariths mult.commute)
  have "used_obj_count s \<le> obj_per_slab (slab_conf s) * active_list_count s"
    unfolding word_le_nat_alt m using total by linarith
  then show ?thesis using m total d by (simp add: unat_sub sum_list_distinct_conv_sum_set)
qed

lemma acquire_end:
  assumes inv: "tss_inv s A R F" and t: "0 < unat t" and fuel: "2 ^ 64 \<le> fuel"
    and en: "P \<Longrightarrow> unat t \<le> (\<Sum>b\<leftarrow>A. length (F b))"
  shows "case (do { (batch, s) \<leftarrow> tss_acquire_loop fuel (tss_batch_init t) (active_list_head s) s;
      c_assert (tss_batch_met_target batch); Some (batch, s, JFS_OK) }) of
    None \<Rightarrow> \<not> P | Some (batch', s', e) \<Rightarrow> acquired s A R F t batch' s' e"
proof -
  have tb: "target_count (tss_batch_init t) = t" by (simp add: tss_batch_init_def)
  have "length A < fuel" using active_length [OF inv] fuel by linarith
  from acquire_loop [OF inv tss_invD(2) [OF inv] subset_refl batch_rep_init [of s t] _ _ this, unfolded tb]
  obtain batch' s' G bs where r: "tss_acquire_loop fuel (tss_batch_init t) (active_list_head s) s = Some (batch', s')"
      "tss_inv s' A R G" "batch_rep s' batch' bs" "target_count batch' = t" "moved s s'"
      "length bs = min (unat t) (\<Sum>b\<leftarrow>A. length (F b))" "outs s (set A \<union> set R) G = outs s (set A \<union> set R) F \<union> set bs"
      "set bs \<inter> outs s (set A \<union> set R) F = {}" "\<forall>x\<in>outs s (set A \<union> set R) F. obj_next s' x = obj_next s x" by auto
  have met: "tss_batch_met_target batch' \<longleftrightarrow> length bs = unat t"
    using r(3,4,6) by (auto simp: tss_batch_met_target_def batch_rep_def word_le_nat_alt)
  have "acquired s A R F t batch' s' JFS_OK" if "length bs = unat t"
    unfolding acquired_def same_conf_def using r that moved_fields [OF r(5)] elsewhere_same [of s' s]
    by (intro exI [of _ "[]"] exI [of _ G] exI [of _ bs]) auto
  then show ?thesis using r(1,6) met en by (cases "length bs = unat t") auto
qed


lemma acquired_grown:
  assumes acq: "acquired s1 (B @ A) R G t batch' s' e" and g: "grown (length B) s s1"
    and o: "outs s (set (B @ A) \<union> set R) G = outs s (set A \<union> set R) F"
    and f: "\<forall>x\<in>outs s (set A \<union> set R) F. obj_next s1 x = obj_next s x"
    and m: "elsewhere s1 (set (B @ A) \<union> set R) = elsewhere s (set A \<union> set R)"
  shows "acquired s A R F t batch' s' e"
proof -
  have c: "slab_conf s1 = slab_conf s" and sc: "same_conf s1 s' \<Longrightarrow> same_conf s s'" using g by (auto simp: grown_def same_conf_def)
  from acq obtain C H bs where h: "tss_inv s' (C @ B @ A) R H" "batch_rep s' batch' bs" "target_count batch' = t"
     "e = JFS_OK \<and> length bs = unat t \<or> e = JFS_ERR_SYS \<and> bs = []" "same_conf s1 s'"
     "outs s (set (C @ B @ A) \<union> set R) H = outs s (set (B @ A) \<union> set R) G \<union> set bs" "set bs \<inter> outs s (set (B @ A) \<union> set R) G = {}"
     "\<forall>x\<in>outs s (set (B @ A) \<union> set R) G. obj_next s' x = obj_next s1 x"
     "active_list_count s' = active_list_count s1 + of_nat (length C)"
     "elsewhere s' (set (C @ B @ A) \<union> set R) = elsewhere s1 (set (B @ A) \<union> set R)"
    unfolding acquired_def outs_conf [OF c] by blast
  then show ?thesis
    unfolding acquired_def using sc g f o m by (intro exI [of _ "C @ B"] exI [of _ H] exI [of _ bs]) (auto simp: grown_def)
qed

lemma slabs_needed:
  fixes t :: u32 and rem per :: size_t
  assumes "rem < ucast t" and "0 < unat per"
  shows "unat t \<le> unat rem + unat ((ucast t - rem) div per + 1) * unat per"
proof -
  let ?q = "(ucast t - rem) div per"
  have d: "unat (ucast t - rem) = unat t - unat rem" using assms(1) by (simp add: unat_sub unat_ucast32)
  have q: "unat ?q = (unat t - unat rem) div unat per" by (simp add: unat_div d)
  have "unat ?q \<le> unat t" unfolding q by (rule order_trans [OF div_le_dividend]) simp
  then have "unat ?q + 1 < 2 ^ 64" using unat32_less [of t] by simp
  then have q1: "unat (?q + 1) = unat ?q + 1" by (simp add: unat_word_ariths)
  have "unat t - unat rem < ((unat t - unat rem) div unat per + 1) * unat per"
    using assms(2) dividend_less_div_times [of "unat per" "unat t - unat rem"] by simp
  then show ?thesis unfolding q1 q by linarith
qed

lemma batch_acquire:
  assumes inv: "tss_inv s A R F" and hon: "honest (slab_size (slab_conf s)) (mmap_script s) (mapped s)"
    and t: "0 < unat t" and fuel: "2 ^ 64 \<le> fuel"
  shows "case tss_allocator_batch_acquire fuel (tss_batch_init t) s JFS_OK of
    None \<Rightarrow> \<not> counts_ok s A R | Some (batch', s', e) \<Rightarrow> acquired s A R F t batch' s' e"
proof -
  let ?per = "obj_per_slab (slab_conf s)"
  define rem where "rem = ?per * active_list_count s - used_obj_count s"
  have rem: "unat rem = (\<Sum>b\<leftarrow>A. length (F b))" if "counts_ok s A R" unfolding rem_def using free_total [OF inv that] .
  have t': "0 < t" using t by (simp add: word_less_nat_alt)
  have bi: "target_count (tss_batch_init t) = t" "current_count (tss_batch_init t) = 0" "batch_head (tss_batch_init t) = NULL"
    "batch_tail (tss_batch_init t) = NULL" by (simp_all add: tss_batch_init_def)
  show ?thesis
  proof (cases "rem < ucast t")
    case False
    then have "unat t \<le> unat rem" by (simp add: word_less_nat_alt unat_ucast32)
    then have "counts_ok s A R \<Longrightarrow> unat t \<le> (\<Sum>b\<leftarrow>A. length (F b))" using rem by simp
    from acquire_end [OF inv t fuel this] show ?thesis
      using False t' by (simp add: tss_allocator_batch_acquire_def bi rem_def case_prod_beta)
  next
    case True
    define n where "n = unat ((ucast t - rem) div ?per + 1)"
    obtain s1 e B G where r: "tss_add_slabs n s JFS_OK = Some (s1, e)" "tss_inv s1 (B @ A) R G" "e = JFS_OK \<and> length B = n \<or> e = JFS_ERR_SYS"
        "\<forall>b\<in>set A \<union> set R. G b = F b" "\<forall>b\<in>set B. length (G b) = unat ?per"
        "outs s (set (B @ A) \<union> set R) G = outs s (set A \<union> set R) F" "grown (length B) s s1"
        "\<forall>x\<in>outs s (set A \<union> set R) F. obj_next s1 x = obj_next s x"
        "elsewhere s1 (set (B @ A) \<union> set R) = elsewhere s (set A \<union> set R)"
      using add_slabs [OF inv hon] by blast
    have run: "tss_allocator_batch_acquire fuel (tss_batch_init t) s JFS_OK =
        (if e \<noteq> JFS_OK then Some (tss_batch_init t, s1, e)
         else do { (batch, s) \<leftarrow> tss_acquire_loop fuel (tss_batch_init t) (active_list_head s1) s1;
           c_assert (tss_batch_met_target batch); Some (batch, s, JFS_OK) })"
      using True t' r(1) by (simp add: tss_allocator_batch_acquire_def bi rem_def n_def)
    show ?thesis
    proof (cases "e = JFS_OK")
      case False
      then have "acquired s A R F t (tss_batch_init t) s1 e"
        unfolding acquired_def using r bi by (intro exI [of _ B] exI [of _ G] exI [of _ "[]"]) (auto simp: grown_def same_conf_def)
      then show ?thesis using run False by simp
    next
      case e: True
      have en: "unat t \<le> (\<Sum>b\<leftarrow>B @ A. length (G b))" if "counts_ok s A R"
      proof -
        have B: "map (\<lambda>b. length (G b)) B = map (\<lambda>b. unat ?per) B" and A: "map (\<lambda>b. length (G b)) A = map (\<lambda>b. length (F b)) A"
          using r(4,5) by (auto intro: map_cong)
        have "(\<Sum>b\<leftarrow>B @ A. length (G b)) = length B * unat ?per + unat rem"
          unfolding map_append sum_list_append B A rem [OF that] by (simp add: sum_list_triv)
        moreover have "length B = n" using r(3) e by auto
        moreover have "0 < unat ?per" using tss_invD(1) [OF inv] by (simp add: conf_ok_def)
        ultimately show ?thesis using slabs_needed [OF True, of ?per] by (simp add: n_def add.commute)
      qed
      from acquire_end [OF r(2) t fuel, of "counts_ok s A R"] en show ?thesis
        using run e acquired_grown [OF _ r(7,6,8,9)] by (auto split: option.splits)
    qed
  qed
qed


section \<open>Dropping a slab\<close>

definition slabs_inv :: "tss \<Rightarrow> addr set \<Rightarrow> (addr \<Rightarrow> addr list) \<Rightarrow> bool" where
  "slabs_inv s B F \<longleftrightarrow> conf_ok (slab_conf s) \<and> (\<forall>b\<in>B. slab_inv s b (F b)) \<and>
     unat (used_obj_count s) = (\<Sum>b\<in>B. unat (used_count s b))"

lemma tss_inv_slabs:
  "tss_inv s A R F \<longleftrightarrow> slabs_inv s (set A \<union> set R) F \<and> heap_list (slab_next s) (active_list_head s) A \<and>
     distinct (A @ R) \<and> (\<forall>b\<in>set A. \<not> retired_flag s b) \<and> (\<forall>b\<in>set R. retired_flag s b \<and> used_count s b \<noteq> 0)"
  by (auto simp: tss_inv_def slabs_inv_def)

lemma slab_ranges_disjoint:
  assumes "conf_ok conf" and "base_ok conf b" and "base_ok conf d" and "in_range b (slab_size conf) x" and "in_range d (slab_size conf) x"
  shows "b = d"
proof -
  have sz: "slab_size_ok (slab_size conf)" using assms(1) by (simp add: conf_ok_def)
  then show ?thesis
    using mask_slab [OF sz, of b x] mask_slab [OF sz, of d x] assms(2-5) by (simp add: base_ok_def)
qed

text \<open>A slab without used objects, or whose last object has come back, is unmapped; the others stay.\<close>

lemma forget_slab:
  assumes inv: "slabs_inv s B F" and b: "b \<in> B" "finite B"
    and same: "slab_conf s' = slab_conf s" "\<And>d. d \<noteq> b \<Longrightarrow> free_list_head s' d = free_list_head s d \<and> used_count s' d = used_count s d"
      "\<And>d x. d \<in> B - {b} \<Longrightarrow> x \<in> set (slab_objs (slab_conf s) d) \<Longrightarrow> obj_next s' x = obj_next s x"
    and m: "mapped s' = (\<lambda>x. mapped s x \<and> \<not> in_range b (slab_size (slab_conf s)) x)"
    and n: "unat (used_obj_count s') + unat (used_count s b) = unat (used_obj_count s)"
  shows "slabs_inv s' (B - {b}) F"
proof -
  have c: "conf_ok (slab_conf s)" and sl: "\<And>d. d \<in> B \<Longrightarrow> slab_inv s d (F d)" using inv by (auto simp: slabs_inv_def)
  have "slab_inv s' d (F d)" if d: "d \<in> B - {b}" for d
  proof -
    note s0 = sl [of d]
    have s0: "slab_inv s d (F d)" using sl d by blast
    have "heap_list (obj_next s') (free_list_head s d) (F d)"
      using slab_invD(3,4) [OF s0] heap_list_cong [of "F d" "obj_next s'" "obj_next s"] same(3) [OF d] by blast
    moreover have "mapped s' x" if "in_range d (slab_size (slab_conf s)) x" for x
      using slab_invD(2) [OF s0 that] slab_ranges_disjoint [OF c slab_invD(1) [OF sl [OF b(1)]] slab_invD(1) [OF s0] _ that] d m by auto
    ultimately show ?thesis using s0 d same(1,2) by (simp add: slab_inv_def)
  qed
  moreover have "(\<Sum>d\<in>B - {b}. unat (used_count s' d)) = (\<Sum>d\<in>B - {b}. unat (used_count s d))"
    using same(2) by (intro sum.cong) auto
  moreover have "(\<Sum>d\<in>B. unat (used_count s d)) = unat (used_count s b) + (\<Sum>d\<in>B - {b}. unat (used_count s d))"
    using b by (simp add: sum.remove)
  ultimately show ?thesis using n inv same(1) by (simp add: slabs_inv_def)
qed

lemma slab_destroy_ok:
  assumes "conf_ok conf" and "base_ok conf b"
  shows "tss_slab_destroy b conf s = Some (s\<lparr>mapped := \<lambda>x. mapped s x \<and> \<not> in_range b (slab_size conf) x\<rparr>)"
proof -
  have "slab_size_ok (slab_size conf)" using assms(1) by (simp add: conf_ok_def)
  then have "4096 dvd unat b" "slab_size conf \<noteq> 0"
    using assms(2) slab_size_page by (auto simp: base_ok_def slab_size_ok_def jfs_mlg_valid_align_def intro: dvd_trans)
  then show ?thesis using assms(2) by (simp add: tss_slab_destroy_def vm_munmap_def mod_word_zero_iff word_greater_zero_iff base_ok_def)
qed


section \<open>Releasing objects\<close>

definition released ::
  "tss \<Rightarrow> addr list \<Rightarrow> addr list \<Rightarrow> (addr \<Rightarrow> addr list) \<Rightarrow> addr set \<Rightarrow> tss \<Rightarrow> addr list \<Rightarrow> (addr \<Rightarrow> addr list) \<Rightarrow> bool" where
  "released s A R F X s' R' G \<longleftrightarrow> tss_inv s' A R' G \<and> outs s (set A \<union> set R') G = outs s (set A \<union> set R) F - X \<and>
     (\<forall>x\<in>outs s (set A \<union> set R) F - X. obj_next s' x = obj_next s x) \<and> same_conf s s' \<and>
     active_list_count s' = active_list_count s \<and> mmap_script s' = mmap_script s \<and> set R' \<subseteq> set R \<and>
     elsewhere s' (set A \<union> set R') = elsewhere s (set A \<union> set R)"

lemma released_trans:
  assumes "released s A R F X s1 R1 F1" and "released s1 A R1 F1 Y s2 R2 F2"
  shows "released s A R F (X \<union> Y) s2 R2 F2"
proof -
  have "slab_conf s1 = slab_conf s" using assms(1) by (simp add: released_def same_conf_def)
  note o = outs_conf [OF this]
  show ?thesis using assms unfolding released_def o by (auto simp: same_conf_def)
qed

lemma release_state:
  assumes inv: "tss_inv s A R F" and b: "b \<in> set A \<union> set R" and p: "p \<in> set (slab_objs (slab_conf s) b)" "p \<notin> set (F b)"
  defines "s1 \<equiv> s\<lparr>obj_next := (obj_next s)(p := free_list_head s b), free_list_head := (free_list_head s)(b := p),
      used_count := (used_count s)(b := used_count s b - 1), used_obj_count := used_obj_count s - 1\<rparr>"
  shows "tss_allocator_release_obj p s =
      (if used_count s b = 1 \<and> retired_flag s b then tss_slab_destroy b (slab_conf s) s1 else Some s1)"
    and "unat (used_count s b - 1) + 1 = unat (used_count s b)" and "unat (used_obj_count s - 1) + 1 = unat (used_obj_count s)"
    and "used_count s b \<noteq> 1 \<or> b \<in> set A \<Longrightarrow> tss_inv s1 A R (F(b := p # F b))"
proof -
  note c = tss_invD(1) [OF inv] and sl = tss_invD(4) [OF inv b]
  note base = slab_invD(1) [OF sl]
  have fnd: "tss_allocator_find_slab s p = b" using objs_find [OF c base p(1)] by (simp add: tss_allocator_find_slab_def)
  have dF: "distinct (F b)" by (rule heap_list_distinct [OF slab_invD(3) [OF sl]])
  have "card (set (p # F b)) \<le> card (set (slab_objs (slab_conf s) b))"
    using p(1) slab_invD(4) [OF sl] by (intro card_mono) auto
  then have "Suc (length (F b)) \<le> unat (obj_per_slab (slab_conf s))"
    using p(2) distinct_card [OF dF] distinct_card [OF objs_distinct [OF c base]] by simp
  then have u0: "0 < unat (used_count s b)" using slab_invD(5) [OF sl] by linarith
  then have u1: "used_count s b \<noteq> 0" by auto
  show u: "unat (used_count s b - 1) + 1 = unat (used_count s b)" using unat_minus_one [OF u1] u0 by simp
  have "unat (used_count s b) \<le> unat (used_obj_count s)" unfolding tss_invD(7) [OF inv] using b by (intro member_le_sum) auto
  then have n0: "used_obj_count s \<noteq> 0" "0 < unat (used_obj_count s)" using u0 by auto
  show n: "unat (used_obj_count s - 1) + 1 = unat (used_obj_count s)" using unat_minus_one [OF n0(1)] n0(2) by simp
  have "used_count s b - 1 = 0 \<longleftrightarrow> used_count s b = 1" by (metis diff_add_cancel add_0 diff_self)
  then show "tss_allocator_release_obj p s =
      (if used_count s b = 1 \<and> retired_flag s b then tss_slab_destroy b (slab_conf s) s1 else Some s1)"
    using fnd base_mapped [OF inv b] slab_mapped [OF inv b p(1)]
    by (simp add: tss_allocator_release_obj_def set_next_def s1_def Let_def)
  assume "used_count s b \<noteq> 1 \<or> b \<in> set A"
  then have nz: "b \<in> set R \<Longrightarrow> used_count s b - 1 \<noteq> 0" using tss_invD(3) [OF inv] by (metis \<open>(used_count s b - 1 = 0) = (used_count s b = 1)\<close> disjoint_iff distinct_append)
  have "p \<noteq> NULL" by (rule objs_range(2) [OF c base p(1)])
  then have "heap_list ((obj_next s)(p := free_list_head s b)) p (p # F b)"
    using slab_invD(3) [OF sl] p(2) by (simp del: fun_upd_apply add: fun_upd_same)
  moreover have "((obj_next s)(p := free_list_head s b)) x = obj_next s x" if "d \<in> set A \<union> set R" "d \<noteq> b" "x \<in> set (F d)" for d x
    using objs_disjoint [OF c slab_invD(1) [OF tss_invD(4) [OF inv that(1)]] base that(2)] slab_invD(4) [OF tss_invD(4) [OF inv that(1)]] p(1) that(3) by auto
  ultimately show "tss_inv s1 A R (F(b := p # F b))"
    unfolding s1_def using p(1) slab_invD(4,5) [OF sl] u n nz by (intro slab_update [OF inv b]) auto
qed


lemma last_used:
  assumes inv: "tss_inv s A R F" and b: "b \<in> set A \<union> set R" and u: "used_count s b = 1"
    and p: "p \<in> set (slab_objs (slab_conf s) b)" "p \<notin> set (F b)"
  shows "set (slab_objs (slab_conf s) b) - set (F b) = {p}"
proof -
  note c = tss_invD(1) [OF inv] and sl = tss_invD(4) [OF inv b]
  have "card (set (slab_objs (slab_conf s) b) - set (F b)) = 1"
    using slab_invD(4,5) [OF sl] u distinct_card [OF objs_distinct [OF c slab_invD(1) [OF sl]]]
      distinct_card [OF heap_list_distinct [OF slab_invD(3) [OF sl]]] by (simp add: card_Diff_subset)
  then obtain x where "set (slab_objs (slab_conf s) b) - set (F b) = {x}" by (rule card_1_singletonE)
  moreover from this have "x = p" using p by auto
  ultimately show ?thesis by simp
qed

lemma release_obj_destroys:
  assumes inv: "tss_inv s A R F" and b: "b \<in> set A \<union> set R" and u: "used_count s b = 1" "retired_flag s b"
    and p: "p \<in> set (slab_objs (slab_conf s) b)" "p \<notin> set (F b)"
  shows "\<exists>s'. tss_allocator_release_obj p s = Some s' \<and> released s A R F {p} s' (remove1 b R) F"
proof -
  note c = tss_invD(1) [OF inv] and sl = tss_invD(4) [OF inv] and rs = release_state [OF inv b p]
  have bR: "b \<in> set R" "b \<notin> set A" using b u(2) tss_invD(5) [OF inv] by auto
  have d: "distinct (A @ R)" by (rule tss_invD(3) [OF inv])
  let ?s = "s\<lparr>obj_next := (obj_next s)(p := free_list_head s b), free_list_head := (free_list_head s)(b := p),
      used_count := (used_count s)(b := used_count s b - 1), used_obj_count := used_obj_count s - 1,
      mapped := (\<lambda>x. mapped s x \<and> \<not> in_range b (slab_size (slab_conf s)) x)\<rparr>"
  have run: "tss_allocator_release_obj p s = Some ?s"
    unfolding rs(1) using u c slab_invD(1) [OF sl [OF b]] slab_destroy_ok by simp
  have B: "set A \<union> set (remove1 b R) = (set A \<union> set R) - {b}" using d bR by auto
  have other: "p \<notin> set (slab_objs (slab_conf s) d)" if "d \<in> set A \<union> set R - {b}" for d
    using that objs_disjoint [OF c slab_invD(1) [OF sl] slab_invD(1) [OF sl [OF b]], of d] p(1) by auto
  have "slabs_inv ?s (set A \<union> set R - {b}) F"
    using inv b rs(3) u(1) other by (intro forget_slab [of s]) (auto simp: tss_inv_slabs)
  then have "tss_inv ?s A (remove1 b R) F"
    unfolding tss_inv_slabs B using inv d bR by (auto simp: tss_inv_slabs)
  moreover have "outs s (set A \<union> set R) F = {p} \<union> outs s (set A \<union> set R - {b}) F"
    unfolding outs_self [OF b] last_used [OF inv b u(1) p] ..
  moreover have "p \<notin> outs s (set A \<union> set R - {b}) F" using other by (auto simp: outs_def)
  moreover have "elsewhere ?s (set A \<union> set R - {b}) = elsewhere s (set A \<union> set R)" using b by (intro elsewhere_drop [of _ _ "{b}"]) auto
  ultimately show ?thesis using run unfolding released_def B
    by (intro exI [of _ ?s]) (auto simp: same_conf_def dest: set_remove1_subset [THEN subsetD])
qed

lemma release_obj:
  assumes inv: "tss_inv s A R F" and p: "p \<in> outs s (set A \<union> set R) F"
  shows "\<exists>s' R' G. tss_allocator_release_obj p s = Some s' \<and> released s A R F {p} s' R' G"
proof -
  obtain b where b: "b \<in> set A \<union> set R" "p \<in> set (slab_objs (slab_conf s) b)" "p \<notin> set (F b)" using p by (auto simp: outs_def)
  show ?thesis
  proof (cases "used_count s b = 1 \<and> retired_flag s b")
    case True
    then show ?thesis using release_obj_destroys [OF inv b(1) _ _ b(2,3)] by blast
  next
    case False
    note rs = release_state [OF inv b]
    let ?s = "s\<lparr>obj_next := (obj_next s)(p := free_list_head s b), free_list_head := (free_list_head s)(b := p),
      used_count := (used_count s)(b := used_count s b - 1), used_obj_count := used_obj_count s - 1\<rparr>"
    have "used_count s b \<noteq> 1 \<or> b \<in> set A" using False tss_invD(6) [OF inv] b(1) by auto
    then have inv': "tss_inv ?s A R (F(b := p # F b))" by (rule rs(4))
    have "p \<notin> outs s (set A \<union> set R - {b}) F"
      using b objs_disjoint [OF tss_invD(1) [OF inv] slab_invD(1) [OF tss_invD(4) [OF inv]] slab_invD(1) [OF tss_invD(4) [OF inv b(1)]]]
      by (auto simp: outs_def)
    then have "outs s (set A \<union> set R) (F(b := p # F b)) = outs s (set A \<union> set R) F - {p}"
      unfolding outs_at [OF b(1)] outs_self [OF b(1), of s F] by auto
    then show ?thesis using rs(1) False inv' unfolding released_def
      by (intro exI [of _ ?s] exI [of _ R] exI [of _ "F(b := p # F b)"]) (auto simp: same_conf_def elsewhere_def)
  qed
qed

lemma release_loop:
  assumes "tss_inv s A R F" and "heap_list (obj_next s) p xs" and "set xs \<subseteq> outs s (set A \<union> set R) F" and "length xs < fuel"
  shows "\<exists>s' R' G. tss_release_loop fuel p s = Some s' \<and> released s A R F (set xs) s' R' G"
  using assms
proof (induction xs arbitrary: s R F p fuel)
  case Nil
  obtain n where "fuel = Suc n" using Nil.prems(4) by (cases fuel) auto
  then show ?case using Nil.prems by (intro exI [of _ s] exI [of _ R] exI [of _ F]) (auto simp: released_def same_conf_def)
next
  case (Cons a xs)
  obtain n where n: "fuel = Suc n" "length xs < n" using Cons.prems(4) by (cases fuel) auto
  have a: "a \<in> outs s (set A \<union> set R) F" "p = a" "a \<noteq> NULL" and xs: "heap_list (obj_next s) (obj_next s a) xs" "a \<notin> set xs"
    using Cons.prems(2,3) heap_list_distinct [OF Cons.prems(2)] by auto
  obtain s1 R1 F1 where r: "tss_allocator_release_obj a s = Some s1" "released s A R F {a} s1 R1 F1"
    using release_obj [OF Cons.prems(1) a(1)] by blast
  have c: "slab_conf s1 = slab_conf s" using r(2) by (simp add: released_def same_conf_def)
  have "tss_inv s1 A R1 F1" "set xs \<subseteq> outs s1 (set A \<union> set R1) F1"
    using r(2) Cons.prems(3) xs(2) unfolding outs_conf [OF c] by (auto simp: released_def)
  moreover have "heap_list (obj_next s1) (obj_next s a) xs"
    using xs r(2) Cons.prems(3) heap_list_cong [of xs "obj_next s1" "obj_next s" "obj_next s a"] by (auto simp: released_def)
  ultimately obtain s' R' G where q: "tss_release_loop n (obj_next s a) s1 = Some s'" "released s1 A R1 F1 (set xs) s' R' G"
    using Cons.IH [of s1 R1 F1 "obj_next s a" n] n(2) by blast
  have "released s A R F (set (a # xs)) s' R' G" using released_trans [OF r(2) q(2)] by simp
  moreover have "tss_release_loop fuel p s = Some s'"
    using n(1) a r(1) q(1) outs_valid [OF Cons.prems(1) a(1)] by (simp add: get_next_def)
  ultimately show ?case by blast
qed


lemma batch_release:
  assumes inv: "tss_inv s A R F" and b: "batch_rep s batch bs" "set bs \<subseteq> outs s (set A \<union> set R) F" and fuel: "2 ^ 64 \<le> fuel"
  shows "\<exists>s' R' G. tss_allocator_batch_release fuel batch s =
      Some (batch\<lparr>current_count := 0, batch_head := NULL, batch_tail := NULL\<rparr>, s') \<and> released s A R F (set bs) s' R' G"
proof -
  have l: "heap_list (obj_next s) (batch_head batch) bs" using b(1) by (simp add: batch_rep_def)
  have "length bs < fuel" using heap_list_length [OF l] fuel by linarith
  from release_loop [OF inv l b(2) this] show ?thesis
    unfolding tss_allocator_batch_release_def by fastforce
qed

section \<open>Retiring slabs\<close>

definition link_of :: "addr list \<Rightarrow> addr option" where
  "link_of P = (if P = [] then None else Some (last P))"

lemma load_link_of: "heap_list (slab_next s) (active_list_head s) (P @ b # L) \<Longrightarrow> load_link (link_of P) s = b"
  "heap_list (slab_next s) (active_list_head s) P \<Longrightarrow> load_link (link_of P) s = NULL"
proof -
  assume h: "heap_list (slab_next s) (active_list_head s) (P @ b # L)"
  show "load_link (link_of P) s = b"
    using h heap_list_cut(2) [OF h] by (cases "P = []") (auto simp: load_link_def link_of_def)
next
  assume h: "heap_list (slab_next s) (active_list_head s) P"
  show "load_link (link_of P) s = NULL"
    using h heap_list_last [OF h] by (cases "P = []") (auto simp: load_link_def link_of_def)
qed

lemma store_link_of:
  assumes h: "heap_list (slab_next s) (active_list_head s) (P @ b # L)"
  defines "s' \<equiv> store_link (link_of P) (slab_next s b) s"
  shows "heap_list (slab_next s') (active_list_head s') (P @ L)"
    and "s' = s\<lparr>active_list_head := active_list_head s', slab_next := slab_next s'\<rparr>"
proof -
  show "s' = s\<lparr>active_list_head := active_list_head s', slab_next := slab_next s'\<rparr>"
    unfolding s'_def by (cases s; cases "link_of P") (simp_all add: store_link_def)
  have d: "distinct (P @ b # L)" by (rule heap_list_distinct [OF h])
  show "heap_list (slab_next s') (active_list_head s') (P @ L)"
  proof (cases "P = []")
    case True
    then show ?thesis using h by (simp add: s'_def store_link_def link_of_def)
  next
    case False
    have c: "heap_list ((slab_next s)(last P := NULL)) (active_list_head s) P" "heap_list (slab_next s) (slab_next s (last P)) (b # L)"
      using heap_list_cut [OF h False] by simp_all
    have "last P \<notin> set L" using d False by (auto simp: disjoint_iff)
    then have "heap_list ((slab_next s)(last P := NULL)) (slab_next s b) L" using c(2) by simp
    from heap_list_join [OF c(1) this False] d show ?thesis
      using False by (simp add: s'_def store_link_def link_of_def)
  qed
qed


text \<open>What a pass over the active list does to the slabs \<open>L\<close> it still has to visit, behind \<open>P\<close>.\<close>

definition retire_post ::
  "tss \<Rightarrow> addr list \<Rightarrow> addr list \<Rightarrow> addr list \<Rightarrow> (addr \<Rightarrow> addr list) \<Rightarrow> tss \<Rightarrow> addr list \<Rightarrow> bool" where
  "retire_post s P L R F s' R' \<longleftrightarrow>
     tss_inv s' (P @ filter (\<lambda>b. retire_threshold (slab_conf s) < used_count s b) L) R' F \<and>
     set R' = set R \<union> {b \<in> set L. 0 < used_count s b \<and> used_count s b \<le> retire_threshold (slab_conf s)} \<and>
     mapped s' = (\<lambda>x. mapped s x \<and> \<not> (\<exists>b\<in>set L. used_count s b = 0 \<and> in_range b (slab_size (slab_conf s)) x)) \<and>
     same_conf s s' \<and> obj_next s' = obj_next s \<and> used_count s' = used_count s \<and> mmap_script s' = mmap_script s \<and>
     active_list_count s' = active_list_count s -
       of_nat (length (filter (\<lambda>b. 0 < used_count s b \<and> used_count s b \<le> retire_threshold (slab_conf s)) L))"

lemma retire_unlink:
  assumes inv: "tss_inv s (P @ b # L) R F" and u: "used_count s b = 0"
  defines "s0 \<equiv> store_link (link_of P) (slab_next s b) s"
  defines "s1 \<equiv> s0\<lparr>mapped := \<lambda>x. mapped s x \<and> \<not> in_range b (slab_size (slab_conf s)) x\<rparr>"
  shows "tss_inv s1 (P @ L) R F"
proof -
  have h: "heap_list (slab_next s) (active_list_head s) (P @ b # L)" by (rule tss_invD(2) [OF inv])
  note st = store_link_of [OF h, folded s0_def]
  have s1: "s1 = s\<lparr>active_list_head := active_list_head s0, slab_next := slab_next s0,
      mapped := (\<lambda>x. mapped s x \<and> \<not> in_range b (slab_size (slab_conf s)) x)\<rparr>"
    unfolding s1_def by (subst st(2)) simp
  have d: "distinct ((P @ b # L) @ R)" by (rule tss_invD(3) [OF inv])
  then have B: "set (P @ L) \<union> set R = set (P @ b # L) \<union> set R - {b}" by auto
  have "slabs_inv s1 (set (P @ b # L) \<union> set R - {b}) F"
    using inv u by (intro forget_slab [of s]) (simp_all add: tss_inv_slabs s1)
  then show ?thesis
    unfolding tss_inv_slabs B using inv d st(1) by (auto simp: tss_inv_slabs s1)
qed

lemma retire_flag:
  assumes inv: "tss_inv s (P @ b # L) R F" and u: "used_count s b \<noteq> 0"
  defines "s0 \<equiv> store_link (link_of P) (slab_next s b) s"
  defines "s1 \<equiv> s0\<lparr>slab_next := (slab_next s0)(b := NULL), retired_flag := (retired_flag s)(b := True), active_list_count := active_list_count s - 1\<rparr>"
  shows "tss_inv s1 (P @ L) (b # R) F"
proof -
  have h: "heap_list (slab_next s) (active_list_head s) (P @ b # L)" by (rule tss_invD(2) [OF inv])
  note st = store_link_of [OF h, folded s0_def]
  have d: "distinct ((P @ b # L) @ R)" by (rule tss_invD(3) [OF inv])
  have s1: "s1 = s\<lparr>active_list_head := active_list_head s0, slab_next := (slab_next s0)(b := NULL),
      retired_flag := (retired_flag s)(b := True), active_list_count := active_list_count s - 1\<rparr>"
    unfolding s1_def by (subst st(2)) simp
  have "heap_list ((slab_next s0)(b := NULL)) (active_list_head s0) (P @ L)" using st(1) d by simp
  moreover have "set (P @ L) \<union> set (b # R) = set (P @ b # L) \<union> set R" by auto
  moreover have "slabs_inv s1 (set (P @ b # L) \<union> set R) F" using inv by (simp add: tss_inv_slabs slabs_inv_def slab_inv_def s1)
  ultimately show ?thesis
    unfolding tss_inv_slabs using inv d u by (auto simp: tss_inv_slabs s1)
qed


lemma retire_loop:
  assumes "tss_inv s (P @ L) R F" and "length L < fuel"
  shows "\<exists>s' R'. tss_retire_loop fuel (link_of P) s = Some s' \<and> retire_post s P L R F s' R'"
  using assms
proof (induction L arbitrary: s P R fuel)
  case Nil
  obtain n where "fuel = Suc n" using Nil.prems(2) by (cases fuel) auto
  then show ?case using Nil.prems(1) load_link_of(2) [of s P] tss_invD(2) [OF Nil.prems(1)]
    by (intro exI [of _ s] exI [of _ R]) (simp add: retire_post_def same_conf_def)
next
  case (Cons b L)
  obtain n where n: "fuel = Suc n" "length L < n" using Cons.prems(2) by (cases fuel) auto
  have bA: "b \<in> set (P @ b # L) \<union> set R" by simp
  have h: "heap_list (slab_next s) (active_list_head s) (P @ b # L)" by (rule tss_invD(2) [OF Cons.prems(1)])
  have ld: "load_link (link_of P) s = b" by (rule load_link_of(1) [OF h])
  have nb: "b \<noteq> NULL" "valid_ptr s b" using base_mapped [OF Cons.prems(1) bA] by (auto simp: valid_ptr_def)
  let ?s0 = "store_link (link_of P) (slab_next s b) s"
  note st = store_link_of(2) [OF h]
  have f0: "slab_conf ?s0 = slab_conf s" "cache_conf ?s0 = cache_conf s" "lock ?s0 = lock s" "obj_next ?s0 = obj_next s" "mmap_script ?s0 = mmap_script s"
      "used_count ?s0 = used_count s" "mapped ?s0 = mapped s" "active_list_count ?s0 = active_list_count s" "retired_flag ?s0 = retired_flag s"
    by (subst st, simp)+
  consider (empty) "used_count s b = 0" | (few) "used_count s b \<noteq> 0" "used_count s b \<le> retire_threshold (slab_conf s)"
    | (keep) "used_count s b \<noteq> 0" "retire_threshold (slab_conf s) < used_count s b" by force
  then show ?case
  proof cases
    case empty
    let ?s1 = "?s0\<lparr>mapped := \<lambda>x. mapped s x \<and> \<not> in_range b (slab_size (slab_conf s)) x\<rparr>"
    have "tss_slab_destroy b (slab_conf ?s0) ?s0 = Some ?s1"
      unfolding f0(1) using slab_destroy_ok [OF tss_invD(1) [OF Cons.prems(1)] slab_invD(1) [OF tss_invD(4) [OF Cons.prems(1) bA]], of ?s0]
      by (simp add: f0)
    then have run: "tss_retire_loop fuel (link_of P) s = tss_retire_loop n (link_of P) ?s1" using n(1) ld nb empty by simp
    from Cons.IH [OF retire_unlink [OF Cons.prems(1) empty] n(2)] obtain s' R'
      where r: "tss_retire_loop n (link_of P) ?s1 = Some s'" "retire_post ?s1 P L R F s' R'" by blast
    have "\<not> retire_threshold (slab_conf s) < used_count s b" using empty by simp
    then have "retire_post s P (b # L) R F s' R'"
      using r(2) empty unfolding retire_post_def by (auto simp: f0 same_conf_def fun_eq_iff)
    then show ?thesis using run r(1) by auto
  next
    case few
    let ?s1 = "?s0\<lparr>slab_next := (slab_next ?s0)(b := NULL), retired_flag := (retired_flag s)(b := True),
        active_list_count := active_list_count s - 1\<rparr>"
    have run: "tss_retire_loop fuel (link_of P) s = tss_retire_loop n (link_of P) ?s1" using n(1) ld nb few by (simp add: Let_def f0)
    from Cons.IH [OF retire_flag [OF Cons.prems(1) few(1)] n(2)] obtain s' R'
      where r: "tss_retire_loop n (link_of P) ?s1 = Some s'" "retire_post ?s1 P L (b # R) F s' R'" by blast
    have "retire_post s P (b # L) R F s' R'"
      using r(2) few unfolding retire_post_def by (auto simp: f0 same_conf_def word_greater_zero_iff not_less)
    then show ?thesis using run r(1) by auto
  next
    case keep
    have "link_of (P @ [b]) = Some b" "\<not> used_count s b \<le> retire_threshold (slab_conf s)" using keep by (simp_all add: link_of_def)
    then have run: "tss_retire_loop fuel (link_of P) s = tss_retire_loop n (link_of (P @ [b])) s"
      using n(1) ld nb keep by simp
    from Cons.IH [of s "P @ [b]" R n] Cons.prems(1) n(2) obtain s' R'
      where r: "tss_retire_loop n (link_of (P @ [b])) s = Some s'" "retire_post s (P @ [b]) L R F s' R'" by auto
    have "retire_post s P (b # L) R F s' R'"
      using r(2) keep unfolding retire_post_def by auto
    then show ?thesis using run r(1) by auto
  qed
qed


lemma full_slab:
  assumes inv: "tss_inv s A R F" and b: "b \<in> set A \<union> set R" and u: "used_count s b = 0"
  shows "set (slab_objs (slab_conf s) b) - set (F b) = {}"
proof -
  note c = tss_invD(1) [OF inv] and sl = tss_invD(4) [OF inv b]
  have "card (set (F b)) = card (set (slab_objs (slab_conf s) b))"
    using slab_invD(5) [OF sl] u distinct_card [OF objs_distinct [OF c slab_invD(1) [OF sl]]]
      distinct_card [OF heap_list_distinct [OF slab_invD(3) [OF sl]]] by simp
  then show ?thesis using card_subset_eq [of "set (slab_objs (slab_conf s) b)" "set (F b)"] slab_invD(4) [OF sl] by simp
qed

lemma retire_slabs:
  assumes inv: "tss_inv s A R F" and fuel: "2 ^ 64 \<le> fuel"
  shows "\<exists>s' R'. tss_allocator_retire_slabs fuel s = Some s' \<and> retire_post s [] A R F s' R' \<and>
    outs s (set (filter (\<lambda>b. retire_threshold (slab_conf s) < used_count s b) A) \<union> set R') F = outs s (set A \<union> set R) F \<and>
    elsewhere s' (set (filter (\<lambda>b. retire_threshold (slab_conf s) < used_count s b) A) \<union> set R') = elsewhere s (set A \<union> set R)"
proof -
  have "length A < fuel" using active_length [OF inv] fuel by linarith
  from retire_loop [of s "[]" A R F fuel, simplified, OF inv this] obtain s' R'
    where r: "tss_retire_loop fuel (link_of []) s = Some s'" "retire_post s [] A R F s' R'" by blast
  let ?thr = "retire_threshold (slab_conf s)"
  have R': "set R' = set R \<union> {b \<in> set A. 0 < used_count s b \<and> used_count s b \<le> ?thr}" using r(2) by (simp add: retire_post_def)
  have split: "set A \<union> set R = (set (filter (\<lambda>b. ?thr < used_count s b) A) \<union> set R') \<union> {b \<in> set A. used_count s b = 0}"
    unfolding R' by (auto simp: word_greater_zero_iff not_less)
  moreover have m: "elsewhere s' (set (filter (\<lambda>b. ?thr < used_count s b) A) \<union> set R') = elsewhere s (set A \<union> set R)"
    using r(2) split by (intro elsewhere_drop [of _ _ "{b \<in> set A. used_count s b = 0}"]) (auto simp: retire_post_def same_conf_def)
  moreover have "outs s {b \<in> set A. used_count s b = 0} F = {}" using full_slab [OF inv] by (auto simp: outs_def)
  moreover have "outs s (X \<union> Y) F = outs s X F \<union> outs s Y F" for X Y by (auto simp: outs_def)
  ultimately have "outs s (set A \<union> set R) F = outs s (set (filter (\<lambda>b. ?thr < used_count s b) A) \<union> set R') F" by simp
  then show ?thesis using r m by (auto simp: tss_allocator_retire_slabs_def link_of_def)
qed

section \<open>Caches\<close>

definition cache_inv :: "tss \<Rightarrow> jfs_tss_cache \<Rightarrow> addr list \<Rightarrow> bool" where
  "cache_inv s c cs \<longleftrightarrow> heap_list (obj_next s) (cache_head c) cs \<and> unat (cache_count c) = length cs"

lemma inv_lock [simp]: "tss_inv (s\<lparr>lock := l\<rparr>) A R F = tss_inv s A R F"
  by (simp add: tss_inv_def slab_inv_def)

lemma inv_next_outs:
  assumes inv: "tss_inv s A R F" and "\<And>b x. b \<in> set A \<union> set R \<Longrightarrow> x \<in> set (F b) \<Longrightarrow> f x = obj_next s x"
  shows "tss_inv (s\<lparr>obj_next := f\<rparr>) A R F"
proof -
  have "slab_inv (s\<lparr>obj_next := f\<rparr>) b (F b)" if "b \<in> set A \<union> set R" for b
    using tss_invD(4) [OF inv that] heap_list_cong [of "F b" f "obj_next s"] assms(2) [OF that] by (simp add: slab_inv_def)
  then show ?thesis using inv by (simp add: tss_inv_def)
qed

lemma outs_lock [simp]: "outs (s\<lparr>lock := l\<rparr>) B F = outs s B F"
  by (simp add: outs_def)

lemma elsewhere_fields [simp]:
  "elsewhere (s\<lparr>lock := l\<rparr>) B = elsewhere s B" "elsewhere (s\<lparr>obj_next := f\<rparr>) B = elsewhere s B"
  "elsewhere (s\<lparr>mmap_script := rs\<rparr>) B = elsewhere s B"
  by (simp_all add: elsewhere_def)

text \<open>Acquiring a batch in this state is not followed by a pass that drops slabs.\<close>

definition tss_no_retire :: "nat \<Rightarrow> tss \<Rightarrow> bool" where
  "tss_no_retire fuel s \<longleftrightarrow>
     (case tss_allocator_batch_acquire fuel (tss_batch_init (cache_acquire (cache_conf s))) (s\<lparr>lock := True\<rparr>) JFS_OK of
        Some (batch, s', e) \<Rightarrow> tss_allocator_ready_for_retire s' \<longrightarrow> tss_allocator_retire_slabs fuel s' = Some s' | None \<Rightarrow> True)"

definition filled ::
  "nat \<Rightarrow> tss \<Rightarrow> addr list \<Rightarrow> addr list \<Rightarrow> (addr \<Rightarrow> addr list) \<Rightarrow> jfs_tss_cache \<Rightarrow> jfs_tss_cache \<Rightarrow> tss \<Rightarrow> jfs_err_t \<Rightarrow> bool" where
  "filled fuel s A R F c c' s' e \<longleftrightarrow> (\<exists>A' R' G bs. tss_inv s' A' R' G \<and> cache_inv s' c' bs \<and> same_conf s s' \<and>
     (e = JFS_OK \<and> length bs = unat (cache_acquire (cache_conf s)) \<or> e = JFS_ERR_SYS \<and> bs = [] \<and> c' = c) \<and>
     outs s (set A' \<union> set R') G = outs s (set A \<union> set R) F \<union> set bs \<and> set bs \<inter> outs s (set A \<union> set R) F = {} \<and>
     (\<forall>x\<in>outs s (set A \<union> set R) F. obj_next s' x = obj_next s x) \<and>
     (counts_ok s A R \<and> tss_no_retire fuel s \<longrightarrow> counts_ok s' A' R') \<and>
     elsewhere s' (set A' \<union> set R') = elsewhere s (set A \<union> set R))"

end
