(* ===== verification/Jfs_Tss_Caches.thy ===== *)
theory Jfs_Tss_Caches
  imports Jfs_Tss_Inv
begin

text \<open>
  The operations of a cache of the thread-safe slab allocator under the invariant of \<open>Jfs_Tss_Inv\<close>:
  the slow path of an allocation, \<open>jfs_tss_alloc\<close>, \<open>jfs_tss_free\<close>, the full release and the
  explicit retirement, each for one cache \<open>c\<close> that holds the objects \<open>C\<close> while everybody else holds
  \<open>Rest\<close>. \<open>owned\<close> says that \<open>C\<close> and \<open>Rest\<close> are the objects that are out, each once; \<open>frame\<close> that an
  operation leaves what others hold untouched.
\<close>

lemma counts_lock [simp]: "counts_ok (s\<lparr>lock := l\<rparr>) A R = counts_ok s A R"
  by (simp add: counts_ok_def)

text \<open>The retiring pass of the slow path, if it runs.\<close>

definition maybe_retire :: "nat \<Rightarrow> tss \<Rightarrow> tss option" where
  "maybe_retire fuel s = (if tss_allocator_ready_for_retire s then tss_allocator_retire_slabs fuel s else Some s)"

lemma maybe_retire:
  assumes inv: "tss_inv s A R F" and fuel: "2 ^ 64 \<le> fuel"
  obtains s' A' R' where "maybe_retire fuel s = Some s'" "tss_inv s' A' R' F" "obj_next s' = obj_next s" "same_conf s s'"
    "outs s (set A' \<union> set R') F = outs s (set A \<union> set R) F" "elsewhere s' (set A' \<union> set R') = elsewhere s (set A \<union> set R)"
    "maybe_retire fuel s = Some s \<Longrightarrow> s' = s \<and> A' = A \<and> R' = R"
proof (cases "maybe_retire fuel s = Some s")
  case True
  then show thesis using inv by (intro that [of s A R]) (auto simp: same_conf_def)
next
  case False
  obtain s' R' where r: "tss_allocator_retire_slabs fuel s = Some s'" "retire_post s [] A R F s' R'"
    "outs s (set (filter (\<lambda>b. retire_threshold (slab_conf s) < used_count s b) A) \<union> set R') F = outs s (set A \<union> set R) F"
    "elsewhere s' (set (filter (\<lambda>b. retire_threshold (slab_conf s) < used_count s b) A) \<union> set R') = elsewhere s (set A \<union> set R)"
    using retire_slabs [OF inv fuel] by blast
  show thesis
  proof (rule that)
    show "maybe_retire fuel s = Some s'" using r(1) False by (simp add: maybe_retire_def split: if_splits)
    show "tss_inv s' (filter (\<lambda>b. retire_threshold (slab_conf s) < used_count s b) A) R' F" "obj_next s' = obj_next s" "same_conf s s'"
      using r(2) by (simp_all add: retire_post_def)
  qed (use r(3,4) False in auto)
qed

lemma unload_empty:
  assumes b: "batch_rep s batch bs" "target_count batch \<noteq> 0" "bs \<noteq> []" and v: "\<forall>x\<in>set bs. valid_ptr s x" and c: "cache_inv s c []"
  shows "\<exists>batch'. tss_batch_unload batch (cache_head c) s = Some (current_count batch, batch', batch_head batch, s)"
    and "cache_inv s (c\<lparr>cache_head := batch_head batch, cache_count := cache_count c + current_count batch\<rparr>) bs"
proof -
  have h: "heap_list (obj_next s) (batch_head batch) bs" "batch_tail batch = last bs" "unat (current_count batch) = length bs"
    using b(1,3) by (auto simp: batch_rep_def)
  have c0: "cache_head c = NULL" "cache_count c = 0" using c by (auto simp: cache_inv_def unat_eq_0)
  have l: "obj_next s (last bs) = NULL" "valid_ptr s (last bs)" using heap_list_last [OF h(1) b(3)] v b(3) by auto
  have "batch_head batch \<noteq> NULL" using h(1) b(3) by (cases bs) auto
  moreover have "s\<lparr>obj_next := (obj_next s)(last bs := NULL)\<rparr> = s" using l(1) by (metis fun_upd_triv tss.surjective tss.update_convs(1))
  ultimately show "\<exists>batch'. tss_batch_unload batch (cache_head c) s = Some (current_count batch, batch', batch_head batch, s)"
    using b(2) h(2) l c0 by (auto simp: tss_batch_unload_def get_next_def set_next_def valid_ptr_def)
  show "cache_inv s (c\<lparr>cache_head := batch_head batch, cache_count := cache_count c + current_count batch\<rparr>) bs"
    using h c0 by (simp add: cache_inv_def)
qed

lemma counts_grow:
  assumes inv: "tss_inv s1 (B @ A) R G" and n: "active_list_count s1 = active_list_count s + of_nat (length B)" and c: "counts_ok s A R"
  shows "counts_ok s1 (B @ A) R"
proof -
  have "length B + length A < 2 ^ 64" using active_length [OF inv] by simp
  then show ?thesis using n c unat_of_nat64 [of "length B"] by (simp add: counts_ok_def unat_word_ariths)
qed

text \<open>The slow path after a batch was acquired, and after the kernel refused a slab.\<close>

lemma slow_path_ok:
  assumes acq: "acquired (s\<lparr>lock := True\<rparr>) A R F (cache_acquire (cache_conf s)) batch s1 JFS_OK"
    and run: "tss_allocator_batch_acquire fuel (tss_batch_init (cache_acquire (cache_conf s))) (s\<lparr>lock := True\<rparr>) JFS_OK = Some (batch, s1, JFS_OK)"
    and l: "\<not> lock s" and t: "0 < unat (cache_acquire (cache_conf s))" and fuel: "2 ^ 64 \<le> fuel" and c: "cache_inv s c []"
  shows "\<exists>c' s'. tss_alloc_slow_path fuel c s JFS_OK = Some (c', s', JFS_OK) \<and> filled fuel s A R F c c' s' JFS_OK"
proof -
  let ?t = "cache_acquire (cache_conf s)" and ?O = "outs s (set A \<union> set R) F"
  obtain B G bs where q: "tss_inv s1 (B @ A) R G" "batch_rep s1 batch bs" "target_count batch = ?t" "length bs = unat ?t"
      "same_conf (s\<lparr>lock := True\<rparr>) s1" "outs s (set (B @ A) \<union> set R) G = ?O \<union> set bs" "set bs \<inter> ?O = {}"
      "\<forall>x\<in>?O. obj_next s1 x = obj_next s x" "active_list_count s1 = active_list_count s + of_nat (length B)"
      "elsewhere s1 (set (B @ A) \<union> set R) = elsewhere s (set A \<union> set R)"
    using acq unfolding acquired_def by auto
  obtain s2 A' R' where m: "maybe_retire fuel s1 = Some s2" "tss_inv s2 A' R' G" "obj_next s2 = obj_next s1" "same_conf s1 s2"
      "outs s1 (set A' \<union> set R') G = outs s1 (set (B @ A) \<union> set R) G" "elsewhere s2 (set A' \<union> set R') = elsewhere s1 (set (B @ A) \<union> set R)"
      "maybe_retire fuel s1 = Some s1 \<Longrightarrow> s2 = s1 \<and> A' = B @ A \<and> R' = R"
    by (rule maybe_retire [OF q(1) fuel]) (rule that)
  have cf: "slab_conf s1 = slab_conf s" "slab_conf s2 = slab_conf s" using q(5) m(4) by (auto simp: same_conf_def)
  let ?s2 = "s2\<lparr>lock := False\<rparr>" and ?c = "c\<lparr>cache_head := batch_head batch, cache_count := cache_count c + current_count batch\<rparr>"
  have bt: "bs \<noteq> []" "target_count batch \<noteq> 0" "tss_batch_met_target batch" using t q(2-4)
    by (auto simp: tss_batch_met_target_def batch_rep_def word_le_nat_alt)
  have out2: "outs s (set A' \<union> set R') G = ?O \<union> set bs" using m(5) q(6) unfolding outs_conf [OF cf(1)] by simp
  have "batch_rep ?s2 batch bs" "cache_inv ?s2 c []" using q(2) m(3) c by (simp_all add: batch_rep_def cache_inv_def)
  moreover have "\<forall>x\<in>set bs. valid_ptr ?s2 x"
    using outs_valid [OF m(2)] out2 unfolding outs_conf [OF cf(2)] by (auto simp: valid_ptr_def)
  ultimately obtain batch' where un: "tss_batch_unload batch (cache_head c) ?s2 = Some (current_count batch, batch', batch_head batch, ?s2)"
    and c2: "cache_inv ?s2 ?c bs" using unload_empty [OF _ bt(2,1)] by blast
  have "tss_alloc_slow_path fuel c s JFS_OK = Some (?c, ?s2, JFS_OK)"
    using l run m(1) bt(3) un by (simp add: tss_alloc_slow_path_def mutex_lock_def mutex_unlock_def flip: maybe_retire_def)
  moreover have "tss_no_retire fuel s \<Longrightarrow> s2 = s1 \<and> A' = B @ A \<and> R' = R" using m(7) run by (auto simp: tss_no_retire_def maybe_retire_def)
  then have "counts_ok s A R \<and> tss_no_retire fuel s \<longrightarrow> counts_ok ?s2 A' R'" using counts_grow [OF q(1,9)] by auto
  then have "filled fuel s A R F c ?c ?s2 JFS_OK"
    unfolding filled_def using m(2-4,6) q(4,5,7,8,10) out2 l c2
    by (intro exI [of _ A'] exI [of _ R'] exI [of _ G] exI [of _ bs]) (auto simp: same_conf_def)
  ultimately show ?thesis by blast
qed

lemma slow_path_err:
  assumes acq: "acquired (s\<lparr>lock := True\<rparr>) A R F (cache_acquire (cache_conf s)) batch s1 e" and e: "e \<noteq> JFS_OK"
    and run: "tss_allocator_batch_acquire fuel (tss_batch_init (cache_acquire (cache_conf s))) (s\<lparr>lock := True\<rparr>) JFS_OK = Some (batch, s1, e)"
    and l: "\<not> lock s" and fuel: "2 ^ 64 \<le> fuel" and c: "cache_inv s c []"
  shows "tss_alloc_slow_path fuel c s JFS_OK = Some (c, s1\<lparr>lock := False\<rparr>, e) \<and> filled fuel s A R F c c (s1\<lparr>lock := False\<rparr>) e"
proof -
  let ?O = "outs s (set A \<union> set R) F"
  obtain B G where q: "tss_inv s1 (B @ A) R G" "batch_rep s1 batch []" "e = JFS_ERR_SYS" "same_conf (s\<lparr>lock := True\<rparr>) s1"
      "outs s (set (B @ A) \<union> set R) G = ?O" "\<forall>x\<in>?O. obj_next s1 x = obj_next s x"
      "active_list_count s1 = active_list_count s + of_nat (length B)" "elsewhere s1 (set (B @ A) \<union> set R) = elsewhere s (set A \<union> set R)"
    using acq e unfolding acquired_def by auto
  obtain n where "fuel = Suc n" using fuel by (cases fuel) auto
  then have "tss_alloc_slow_path fuel c s JFS_OK = Some (c, s1\<lparr>lock := False\<rparr>, e)"
    using l run e q(2) by (simp add: tss_alloc_slow_path_def mutex_lock_def mutex_unlock_def tss_allocator_batch_release_def batch_rep_def)
  moreover have "cache_inv (s1\<lparr>lock := False\<rparr>) c []" using c by (simp add: cache_inv_def)
  then have "filled fuel s A R F c c (s1\<lparr>lock := False\<rparr>) e"
    unfolding filled_def using q l counts_grow [OF q(1,7)]
    by (intro exI [of _ "B @ A"] exI [of _ R] exI [of _ G] exI [of _ "[]"]) (auto simp: same_conf_def)
  ultimately show ?thesis by blast
qed

lemma alloc_slow:
  assumes inv: "tss_inv s A R F" and hon: "honest (slab_size (slab_conf s)) (mmap_script s) (mapped s)" and l: "\<not> lock s"
    and t: "0 < unat (cache_acquire (cache_conf s))" and fuel: "2 ^ 64 \<le> fuel" and c: "cache_inv s c []"
  shows "case tss_alloc_slow_path fuel c s JFS_OK of
    None \<Rightarrow> \<not> counts_ok s A R | Some (c', s', e) \<Rightarrow> filled fuel s A R F c c' s' e"
proof -
  let ?s = "s\<lparr>lock := True\<rparr>" and ?t = "cache_acquire (cache_conf s)"
  have acq: "case tss_allocator_batch_acquire fuel (tss_batch_init ?t) ?s JFS_OK of
      None \<Rightarrow> \<not> counts_ok ?s A R | Some (batch', s', e) \<Rightarrow> acquired ?s A R F ?t batch' s' e"
    using inv hon t fuel by (intro batch_acquire) auto
  show ?thesis
  proof (cases "tss_allocator_batch_acquire fuel (tss_batch_init ?t) ?s JFS_OK")
    case None
    then show ?thesis using acq l by (simp add: tss_alloc_slow_path_def mutex_lock_def)
  next
    case (Some r)
    obtain batch s1 e where r: "r = (batch, s1, e)" by (cases r)
    have a: "acquired ?s A R F ?t batch s1 e" using acq Some r by simp
    show ?thesis
    proof (cases "e = JFS_OK")
      case True
      then show ?thesis using slow_path_ok [OF _ _ l t fuel c] a Some r by fastforce
    next
      case False
      then show ?thesis using slow_path_err [OF a False _ l fuel c] Some r by simp
    qed
  qed
qed


section \<open>One cache and everybody else\<close>

definition caps_ok :: "tss_cache_config \<Rightarrow> bool" where
  "caps_ok conf \<longleftrightarrow> 0 < cache_acquire conf \<and> cache_acquire conf \<le> cache_cap conf \<and>
     0 < cache_release conf \<and> cache_release conf \<le> cache_cap conf"

text \<open>The cache \<open>c\<close> holds the objects \<open>C\<close>, the others are in \<open>Rest\<close>; \<open>q\<close> says that the counters
  of the allocator describe its slabs, and \<open>M\<close> is what is mapped besides them.\<close>

definition owned :: "(addr \<Rightarrow> bool) \<Rightarrow> tss \<Rightarrow> jfs_tss_cache \<Rightarrow> addr list \<Rightarrow> addr list \<Rightarrow> bool \<Rightarrow> bool" where
  "owned M s c C Rest q \<longleftrightarrow> (\<exists>A R F. tss_inv s A R F \<and> cache_inv s c C \<and>
     distinct (C @ Rest) \<and> set (C @ Rest) = outs s (set A \<union> set R) F \<and> \<not> lock s \<and> caps_ok (cache_conf s) \<and>
     (q \<longrightarrow> counts_ok s A R) \<and> elsewhere s (set A \<union> set R) = M)"

definition frame :: "addr list \<Rightarrow> tss \<Rightarrow> tss \<Rightarrow> bool" where
  "frame X s s' \<longleftrightarrow> same_conf s s' \<and> (\<forall>x\<in>set X. obj_next s' x = obj_next s x)"

lemma owned_pop:
  assumes own: "owned M s c C Rest q" and ne: "C \<noteq> []"
  shows "get_next s (cache_head c) = Some (obj_next s (hd C))" and "cache_head c = hd C" and "cache_count c \<noteq> 0"
    and "owned M s (c\<lparr>cache_head := obj_next s (hd C), cache_count := cache_count c - 1\<rparr>) (tl C) (hd C # Rest) q"
proof -
  obtain A R F where o: "tss_inv s A R F" "cache_inv s c C" "distinct (C @ Rest)"
      "set (C @ Rest) = outs s (set A \<union> set R) F" "\<not> lock s" "caps_ok (cache_conf s)" "q \<longrightarrow> counts_ok s A R"
      "elsewhere s (set A \<union> set R) = M"
    using own unfolding owned_def by blast
  obtain p C' where C: "C = p # C'" using ne by (cases C) auto
  have "p \<in> outs s (set A \<union> set R) F" using o(4) C by auto
  then have "valid_ptr s p" by (rule outs_valid [OF o(1)])
  then show "get_next s (cache_head c) = Some (obj_next s (hd C))" "cache_head c = hd C"
    using o(2) C by (auto simp: cache_inv_def get_next_def)
  show nz: "cache_count c \<noteq> 0" using o(2) C by (auto simp: cache_inv_def)
  then have "unat (cache_count c - 1) = unat (cache_count c) - 1" by (simp add: unat_minus_one)
  then have "cache_inv s (c\<lparr>cache_head := obj_next s p, cache_count := cache_count c - 1\<rparr>) C'"
    using o(2) C by (auto simp: cache_inv_def)
  then show "owned M s (c\<lparr>cache_head := obj_next s (hd C), cache_count := cache_count c - 1\<rparr>) (tl C) (hd C # Rest) q"
    unfolding owned_def using o C by (intro exI [of _ A] exI [of _ R] exI [of _ F]) auto
qed

lemma alloc_refill:
  assumes own: "owned M s c [] Rest q" and hon: "honest (slab_size (slab_conf s)) (mmap_script s) (mapped s)" and fuel: "2 ^ 64 \<le> fuel"
  shows "case tss_alloc_slow_path fuel c s JFS_OK of None \<Rightarrow> \<not> q
    | Some (c', s', e) \<Rightarrow> frame Rest s s' \<and> (\<exists>C. owned M s' c' C Rest (q \<and> tss_no_retire fuel s) \<and>
         (e = JFS_OK \<and> length C = unat (cache_acquire (cache_conf s)) \<or> e = JFS_ERR_SYS \<and> c' = c \<and> C = []))"
proof -
  obtain A R F where o: "tss_inv s A R F" "cache_inv s c []" "distinct Rest"
      "set Rest = outs s (set A \<union> set R) F" "\<not> lock s" "caps_ok (cache_conf s)" "q \<longrightarrow> counts_ok s A R"
      "elsewhere s (set A \<union> set R) = M"
    using own unfolding owned_def by auto
  have t: "0 < unat (cache_acquire (cache_conf s))" using o(6) by (simp add: caps_ok_def word_less_nat_alt)
  note slow = alloc_slow [OF o(1) hon o(5) t fuel o(2)]
  show ?thesis
  proof (cases "tss_alloc_slow_path fuel c s JFS_OK")
    case None
    then show ?thesis using slow o(7) by auto
  next
    case (Some r)
    obtain c' s' e where r: "r = (c', s', e)" by (cases r)
    have "filled fuel s A R F c c' s' e" using slow Some r by simp
    then obtain A' R' G bs where f: "tss_inv s' A' R' G" "cache_inv s' c' bs" "same_conf s s'"
        "e = JFS_OK \<and> length bs = unat (cache_acquire (cache_conf s)) \<or> e = JFS_ERR_SYS \<and> bs = [] \<and> c' = c"
        "outs s (set A' \<union> set R') G = set Rest \<union> set bs" "set bs \<inter> set Rest = {}"
        "\<forall>x\<in>set Rest. obj_next s' x = obj_next s x" "q \<and> tss_no_retire fuel s \<longrightarrow> counts_ok s' A' R'"
        "elsewhere s' (set A' \<union> set R') = M"
      using o(4,7,8) unfolding filled_def by blast
    have "distinct bs" using f(2) heap_list_distinct by (auto simp: cache_inv_def)
    moreover have "\<not> lock s'" "caps_ok (cache_conf s')" "outs s' (set A' \<union> set R') G = set Rest \<union> set bs"
      using f(3,5) o(5,6) outs_conf [of s' s] by (auto simp: same_conf_def)
    ultimately have "owned M s' c' bs Rest (q \<and> tss_no_retire fuel s)"
      unfolding owned_def using f(1,2,6,8,9) o(3) by (intro exI [of _ A'] exI [of _ R'] exI [of _ G]) auto
    moreover have "frame Rest s s'" using f(3,7) by (simp add: frame_def)
    ultimately show ?thesis using Some r f(4) by auto
  qed
qed

lemma alloc_owned:
  assumes own: "owned M s c C Rest q" and room: "length C < unat (cache_cap (cache_conf s))"
    and hon: "honest (slab_size (slab_conf s)) (mmap_script s) (mapped s)" and fuel: "2 ^ 64 \<le> fuel"
  shows "case jfs_tss_alloc fuel c s JFS_OK of None \<Rightarrow> \<not> q
    | Some (p, c', s', e) \<Rightarrow> frame Rest s s' \<and> (\<exists>C'. length C' < unat (cache_cap (cache_conf s')) \<and>
        (e = JFS_OK \<and> p \<noteq> NULL \<and> owned M s' c' C' (p # Rest) (q \<and> (C \<noteq> [] \<or> tss_no_retire fuel s)) \<or>
         e = JFS_ERR_SYS \<and> p = NULL \<and> c' = c \<and> C' = C \<and> owned M s' c C Rest (q \<and> (C \<noteq> [] \<or> tss_no_retire fuel s))))"
proof (cases "C = []")
  case False
  have nn: "hd C \<noteq> NULL" using own False by (cases C) (auto simp: owned_def cache_inv_def)
  have l: "length (tl C) < unat (cache_cap (cache_conf s))" using room by simp
  show ?thesis using owned_pop [OF own False] nn l False
    by (auto simp: jfs_tss_alloc_def frame_def same_conf_def intro!: exI [of _ "tl C"])
next
  case True
  have cc: "cache_count c = 0" using own True by (auto simp: owned_def cache_inv_def unat_eq_0)
  note refill = alloc_refill [OF own [unfolded True] hon fuel]
  show ?thesis
  proof (cases "tss_alloc_slow_path fuel c s JFS_OK")
    case None
    then show ?thesis using refill cc by (simp add: jfs_tss_alloc_def)
  next
    case (Some r)
    obtain c' s' e where r: "r = (c', s', e)" by (cases r)
    obtain C' where f: "frame Rest s s'" "owned M s' c' C' Rest (q \<and> tss_no_retire fuel s)"
        "e = JFS_OK \<and> length C' = unat (cache_acquire (cache_conf s)) \<or> e = JFS_ERR_SYS \<and> c' = c \<and> C' = []"
      using refill Some r by auto
    have cf: "cache_conf s' = cache_conf s" "caps_ok (cache_conf s)" using f(1) own by (auto simp: frame_def same_conf_def owned_def)
    show ?thesis
    proof (cases "e = JFS_OK")
      case True
      then have ne: "C' \<noteq> []" "length (tl C') < unat (cache_cap (cache_conf s'))"
        using f(3) cf by (auto simp: caps_ok_def word_le_nat_alt word_less_nat_alt)
      have "hd C' \<noteq> NULL" using f(2) ne(1) by (cases C') (auto simp: owned_def cache_inv_def)
      then show ?thesis using owned_pop [OF f(2) ne(1)] True Some r cc f(1) ne(2) \<open>C = []\<close>
        by (auto simp: jfs_tss_alloc_def intro!: exI [of _ "tl C'"])
    next
      case False
      then show ?thesis using Some r cc f cf \<open>C = []\<close> room by (auto simp: jfs_tss_alloc_def)
    qed
  qed
qed


text \<open>The \<open>next\<close> words of objects that are out may change.\<close>

lemma inv_next_owned:
  assumes inv: "tss_inv s A R F" and X: "X \<subseteq> outs s (set A \<union> set R) F" "\<And>x. x \<notin> X \<Longrightarrow> f x = obj_next s x"
  shows "tss_inv (s\<lparr>obj_next := f, lock := l\<rparr>) A R F"
proof -
  have "f x = obj_next s x" if "d \<in> set A \<union> set R" "x \<in> set (F d)" for d x
    using outs_disjoint [OF inv that(1)] that(2) X by blast
  then have "tss_inv (s\<lparr>obj_next := f\<rparr>) A R F" by (rule inv_next_outs [OF inv])
  then show ?thesis by (simp only: inv_lock)
qed

text \<open>Loading \<open>n\<close> objects of the cache into a batch and releasing them.\<close>

lemma give_back:
  assumes own: "owned M s c C Rest q" and n: "0 < unat n" "unat n \<le> length C" and fuel: "2 ^ 64 \<le> fuel"
  shows "\<exists>batch h s1 b s2. tss_batch_load (tss_batch_init n) (cache_head c) s = Some (n, batch, h, s1) \<and> tss_batch_met_target batch \<and>
    mutex_lock s1 = Some (s1\<lparr>lock := True\<rparr>) \<and> tss_allocator_batch_release fuel batch (s1\<lparr>lock := True\<rparr>) = Some (b, s2) \<and>
    owned M (mutex_unlock s2) (c\<lparr>cache_head := h, cache_count := cache_count c - n\<rparr>) (drop (unat n) C) Rest q \<and>
    frame Rest s (mutex_unlock s2) \<and> current_count b = 0"
proof -
  let ?X = "take (unat n) C" and ?Y = "drop (unat n) C"
  obtain A R F where o: "tss_inv s A R F" "cache_inv s c C" "distinct (C @ Rest)" "set (C @ Rest) = outs s (set A \<union> set R) F"
      "\<not> lock s" "caps_ok (cache_conf s)" "q \<longrightarrow> counts_ok s A R"
      "elsewhere s (set A \<union> set R) = M"
    using own unfolding owned_def by blast
  have h: "heap_list (obj_next s) (cache_head c) C" "unat (cache_count c) = length C" using o(2) by (simp_all add: cache_inv_def)
  have valid: "\<forall>x\<in>set ([] @ C). valid_ptr s x" using outs_valid [OF o(1)] o(4) by auto
  have XY: "set ?X \<union> set ?Y = set C" "set ?X \<inter> set (?Y @ Rest) = {}" "distinct (?Y @ Rest)"
  proof -
    have "distinct ((?X @ ?Y) @ Rest)" using o(3) by simp
    then show "set ?X \<inter> set (?Y @ Rest) = {}" "distinct (?Y @ Rest)" by (auto simp del: append_take_drop_id)
    show "set ?X \<union> set ?Y = set C" by (metis append_take_drop_id set_append)
  qed
  obtain batch g f where b: "tss_batch_load (tss_batch_init n) (cache_head c) s = Some (of_nat (unat n), batch, g, s\<lparr>obj_next := f\<rparr>)"
      "batch_rep (s\<lparr>obj_next := f\<rparr>) batch ?X" "heap_list f g ?Y" "target_count batch = n" "\<forall>x. x \<notin> set ?X \<longrightarrow> f x = obj_next s x"
    using batch_load [OF batch_rep_init h(1) _ valid, of n] n by (auto simp: tss_batch_init_def min_absorb1)
  let ?s1 = "s\<lparr>obj_next := f\<rparr>" let ?s1l = "s\<lparr>obj_next := f, lock := True\<rparr>"
  have i1: "tss_inv ?s1l A R F" using inv_next_owned [OF o(1), of "set ?X" f] b(5) o(4) by (auto dest: in_set_takeD)
  have bl: "batch_rep ?s1l batch ?X" "set ?X \<subseteq> outs ?s1l (set A \<union> set R) F"
    using b(2) o(4) XY(1) by (auto simp: batch_rep_def outs_def)
  obtain s2 R' G where r: "tss_allocator_batch_release fuel batch ?s1l = Some (batch\<lparr>current_count := 0, batch_head := NULL, batch_tail := NULL\<rparr>, s2)"
      "released ?s1l A R F (set ?X) s2 R' G" using batch_release [OF i1 bl fuel] by blast
  have q: "tss_inv s2 A R' G" "outs s (set A \<union> set R') G = set (C @ Rest) - set ?X" "slab_conf s2 = slab_conf s" "cache_conf s2 = cache_conf s"
      "\<forall>x\<in>set (C @ Rest) - set ?X. obj_next s2 x = f x" "active_list_count s2 = active_list_count s" "set R' \<subseteq> set R"
      "elsewhere s2 (set A \<union> set R') = M"
    using r(2) o(4,8) unfolding released_def by (auto simp: same_conf_def outs_def)
  have rest: "set (C @ Rest) - set ?X = set (?Y @ Rest)" using XY(1,2) by auto
  have same: "\<forall>x\<in>set (?Y @ Rest). obj_next s2 x = f x" using q(5) unfolding rest .
  have "unat (cache_count c - n) = length ?Y" using h(2) n by (simp add: unat_sub word_le_nat_alt)
  moreover have "heap_list (obj_next s2) g ?Y" using b(3) same heap_list_cong [of ?Y "obj_next s2" f] by simp
  ultimately have "owned M (mutex_unlock s2) (c\<lparr>cache_head := g, cache_count := cache_count c - n\<rparr>) ?Y Rest q"
    unfolding owned_def using q(1-4,6-8) rest XY(3) o(6,7) outs_conf [OF q(3)]
    by (intro exI [of _ A] exI [of _ R'] exI [of _ G]) (auto simp: mutex_unlock_def cache_inv_def counts_ok_def)
  moreover have "frame Rest s (mutex_unlock s2)"
    using same b(5) XY(2) q(3,4) o(5) by (auto simp: frame_def same_conf_def mutex_unlock_def disjoint_iff)
  moreover have "tss_batch_met_target batch" using b(2,4) n by (simp add: batch_rep_def tss_batch_met_target_def word_le_nat_alt)
  ultimately show ?thesis using b(1) r(1) o(5)
    by (intro exI [of _ batch] exI [of _ g] exI [of _ ?s1]
        exI [of _ "batch\<lparr>current_count := 0, batch_head := NULL, batch_tail := NULL\<rparr>"] exI [of _ s2]) (simp add: mutex_lock_def)
qed


text \<open>The object \<open>p\<close> moves from its holder to the front of the cache.\<close>

lemma owned_push:
  assumes own: "owned M s c C (p # Rest) q" and room: "length C < unat (cache_cap (cache_conf s))"
  defines "s1 \<equiv> s\<lparr>obj_next := (obj_next s)(p := cache_head c)\<rparr>"
  shows "set_next s p (cache_head c) = Some s1" and "p \<noteq> NULL"
    and "owned M s1 (c\<lparr>cache_head := p, cache_count := cache_count c + 1\<rparr>) (p # C) Rest q" and "frame Rest s s1"
    and "unat (cache_count c + 1) = Suc (length C)"
proof -
  obtain A R F where o: "tss_inv s A R F" "cache_inv s c C" "distinct (C @ p # Rest)" "set (C @ p # Rest) = outs s (set A \<union> set R) F"
      "\<not> lock s" "caps_ok (cache_conf s)" "q \<longrightarrow> counts_ok s A R"
      "elsewhere s (set A \<union> set R) = M"
    using own unfolding owned_def by blast
  have p: "p \<in> outs s (set A \<union> set R) F" using o(4) by auto
  then have v: "valid_ptr s p" by (rule outs_valid [OF o(1)])
  then show "set_next s p (cache_head c) = Some s1" "p \<noteq> NULL" by (auto simp: set_next_def s1_def valid_ptr_def)
  have "tss_inv (s\<lparr>obj_next := (obj_next s)(p := cache_head c), lock := lock s\<rparr>) A R F"
    using p by (intro inv_next_owned [OF o(1), of "{p}"]) auto
  then have i1: "tss_inv s1 A R F" by (simp add: s1_def)
  have h: "heap_list (obj_next s) (cache_head c) C" "unat (cache_count c) = length C" using o(2) by (simp_all add: cache_inv_def)
  show u: "unat (cache_count c + 1) = Suc (length C)"
    using room h(2) unat_Suc_less [of "cache_count c" "cache_cap (cache_conf s)"] by (simp add: word_less_nat_alt)
  have "heap_list ((obj_next s)(p := cache_head c)) (cache_head c) C"
    using h(1) o(3) by (subst heap_list_cong [of C _ "obj_next s"]) auto
  then have "cache_inv s1 (c\<lparr>cache_head := p, cache_count := cache_count c + 1\<rparr>) (p # C)"
    using u v o(3) by (simp add: cache_inv_def s1_def valid_ptr_def)
  then show "owned M s1 (c\<lparr>cache_head := p, cache_count := cache_count c + 1\<rparr>) (p # C) Rest q"
    unfolding owned_def using i1 o(3-8)
    by (intro exI [of _ A] exI [of _ R] exI [of _ F]) (auto simp: s1_def outs_def counts_ok_def)
  show "frame Rest s s1" using o(3) by (auto simp: frame_def same_conf_def s1_def)
qed

lemma held_frame_trans: "frame X s s1 \<Longrightarrow> frame X s1 s2 \<Longrightarrow> frame X s s2"
  by (simp add: frame_def same_conf_def)

lemma free_owned:
  assumes own: "owned M s c C (p # Rest) q" and room: "length C < unat (cache_cap (cache_conf s))" and fuel: "2 ^ 64 \<le> fuel"
  shows "\<exists>c' s' C'. jfs_tss_free fuel c p s = Some (c', s') \<and> owned M s' c' C' Rest q \<and> frame Rest s s' \<and> length C' < unat (cache_cap (cache_conf s'))"
proof -
  let ?s1 = "s\<lparr>obj_next := (obj_next s)(p := cache_head c)\<rparr>" and ?c = "c\<lparr>cache_head := p, cache_count := cache_count c + 1\<rparr>"
  let ?n = "cache_release (cache_conf s)" and ?cap = "cache_cap (cache_conf s)"
  note push = owned_push [OF own room]
  show ?thesis
  proof (cases "?cap \<le> cache_count c + 1")
    case False
    then have "length (p # C) < unat ?cap" using push(5) by (simp add: word_le_nat_alt)
    then show ?thesis using push(1-4) False by (intro exI [of _ ?c] exI [of _ ?s1] exI [of _ "p # C"]) (simp add: jfs_tss_free_def)
  next
    case True
    have caps: "0 < unat ?n" "unat ?n \<le> unat ?cap" using own by (auto simp: owned_def caps_ok_def word_less_nat_alt word_le_nat_alt)
    then have n: "0 < unat ?n" "unat ?n \<le> length (p # C)" using True push(5) by (simp_all add: word_le_nat_alt)
    obtain batch h s1 b s2 where g: "tss_batch_load (tss_batch_init ?n) (cache_head ?c) ?s1 = Some (?n, batch, h, s1)" "tss_batch_met_target batch"
        "mutex_lock s1 = Some (s1\<lparr>lock := True\<rparr>)" "tss_allocator_batch_release fuel batch (s1\<lparr>lock := True\<rparr>) = Some (b, s2)"
        "owned M (mutex_unlock s2) (?c\<lparr>cache_head := h, cache_count := cache_count ?c - ?n\<rparr>) (drop (unat ?n) (p # C)) Rest q"
        "frame Rest ?s1 (mutex_unlock s2)"
      using give_back [OF push(3) n fuel] by blast
    have "cache_conf (mutex_unlock s2) = cache_conf s" using g(6) by (simp add: frame_def same_conf_def)
    then have "length (drop (unat ?n) (p # C)) < unat (cache_cap (cache_conf (mutex_unlock s2)))" using room n(1) by simp
    moreover have "jfs_tss_free fuel c p s = Some (?c\<lparr>cache_head := h, cache_count := cache_count ?c - ?n\<rparr>, mutex_unlock s2)"
      using push(1,2) True g(1-4) by (simp add: jfs_tss_free_def tss_free_slow_path_def)
    ultimately show ?thesis using g(5) held_frame_trans [OF push(4) g(6)] by blast
  qed
qed

lemma full_release_owned:
  assumes own: "owned M s c C Rest q" and fuel: "2 ^ 64 \<le> fuel"
  shows "\<exists>s'. jfs_tss_cache_full_release fuel c s = Some (jfs_tss_cache_init, s') \<and> owned M s' jfs_tss_cache_init [] Rest q \<and> frame Rest s s'"
proof (cases "C = []")
  case True
  then have "c = jfs_tss_cache_init" using own by (cases c) (auto simp: owned_def cache_inv_def jfs_tss_cache_init_def unat_eq_0)
  then show ?thesis using own True
    by (intro exI [of _ s]) (simp add: jfs_tss_cache_full_release_def jfs_tss_cache_init_def frame_def same_conf_def)
next
  case False
  let ?n = "cache_count c"
  have l: "unat ?n = length C" using own by (auto simp: owned_def cache_inv_def)
  obtain batch h s1 b s2 where g: "tss_batch_load (tss_batch_init ?n) (cache_head c) s = Some (?n, batch, h, s1)"
      "mutex_lock s1 = Some (s1\<lparr>lock := True\<rparr>)" "tss_allocator_batch_release fuel batch (s1\<lparr>lock := True\<rparr>) = Some (b, s2)"
      "owned M (mutex_unlock s2) (c\<lparr>cache_head := h, cache_count := cache_count c - ?n\<rparr>) (drop (unat ?n) C) Rest q"
      "frame Rest s (mutex_unlock s2)"
    using give_back [OF own _ _ fuel, of ?n] l False by auto
  have h: "h = NULL" using g(4) l by (auto simp: owned_def cache_inv_def)
  then have i: "c\<lparr>cache_head := h, cache_count := cache_count c - ?n\<rparr> = jfs_tss_cache_init" by (simp add: jfs_tss_cache_init_def)
  have "?n \<noteq> 0" using l False by auto
  then have "jfs_tss_cache_full_release fuel c s = Some (jfs_tss_cache_init, mutex_unlock s2)"
    using g(1-3) h i by (simp add: jfs_tss_cache_full_release_def)
  then show ?thesis using g(4,5) l i by simp
qed

lemma explicit_retire_owned:
  assumes own: "owned M s c C Rest q" and fuel: "2 ^ 64 \<le> fuel"
  shows "\<exists>s'. jfs_tss_allocator_explicit_retire fuel s = Some s' \<and> owned M s' c C Rest False \<and> same_conf s s' \<and> obj_next s' = obj_next s"
proof -
  obtain A R F where o: "tss_inv s A R F" "cache_inv s c C" "distinct (C @ Rest)" "set (C @ Rest) = outs s (set A \<union> set R) F"
      "\<not> lock s" "caps_ok (cache_conf s)" "elsewhere s (set A \<union> set R) = M"
    using own unfolding owned_def by blast
  have "tss_inv (s\<lparr>lock := True\<rparr>) A R F" using o(1) by simp
  from retire_slabs [OF this fuel] obtain s1 A' R' where r: "tss_allocator_retire_slabs fuel (s\<lparr>lock := True\<rparr>) = Some s1" "tss_inv s1 A' R' F"
      "outs s (set A' \<union> set R') F = set (C @ Rest)" "slab_conf s1 = slab_conf s" "cache_conf s1 = cache_conf s" "obj_next s1 = obj_next s"
      "elsewhere s1 (set A' \<union> set R') = M"
    using o(4,7) unfolding retire_post_def by (auto simp: same_conf_def)
  have "owned M (mutex_unlock s1) c C Rest False"
    unfolding owned_def using r(2-7) o(2,3,6) outs_conf [OF r(4)]
    by (intro exI [of _ A'] exI [of _ R'] exI [of _ F]) (auto simp: mutex_unlock_def cache_inv_def)
  then show ?thesis using r(1,4-6) o(5)
    by (simp add: jfs_tss_allocator_explicit_retire_def mutex_lock_def) (simp add: mutex_unlock_def same_conf_def)
qed

end
