(* ===== verification/Jfs_Tss_World.thy ===== *)
theory Jfs_Tss_World
  imports Jfs_Tss_Caches
begin

text \<open>
  The thread-safe slab allocator with any number of caches and clients. The first section shows that
  \<open>tss_slab_config_init\<close> and \<open>tss_cache_config_init\<close> turn a well-formed configuration into one under
  which the objects of a slab are aligned and fit in it. The relation \<open>tss_run\<close> then describes every
  sequence of calls, and \<open>run_inv\<close> shows by rule induction that the objects that are out are exactly
  those of the caches and of the clients, each once.
\<close>

section \<open>Configurations\<close>

definition config_ok :: "jfs_tss_allocator_config \<Rightarrow> bool" where
  "config_ok config \<longleftrightarrow> jfs_mlg_valid_align (cfg_obj_align config) \<and> cfg_obj_align config \<le> 4096 \<and>
     cfg_obj_size config \<le> 2 ^ 63 \<and> (cfg_pages_per_slab config = 0 \<or> (\<exists>k < 32. cfg_pages_per_slab config = 2 ^ k))"

definition conf_aligned :: "tss_slab_config \<Rightarrow> bool" where
  "conf_aligned conf \<longleftrightarrow> unat (obj_align conf) dvd unat (slab_offset conf) \<and>
     unat (obj_align conf) dvd unat (padded_obj_size conf) \<and> unat (obj_align conf) dvd unat (slab_size conf)"

lemma slab_bytes:
  assumes "cfg_pages_per_slab config = 0 \<or> (\<exists>k < 32. cfg_pages_per_slab config = 2 ^ k)"
  defines "n \<equiv> (ucast (or_default (cfg_pages_per_slab config) 8) :: size_t) * 4096"
  shows "\<exists>k. 12 \<le> k \<and> k < 44 \<and> n = 2 ^ k"
proof -
  have "\<exists>j < 32. or_default (cfg_pages_per_slab config) 8 = 2 ^ j"
  proof (cases "cfg_pages_per_slab config = 0")
    case True
    then show ?thesis by (intro exI [of _ 3]) (simp add: or_default_def)
  qed (use assms(1) in \<open>auto simp: or_default_def\<close>)
  then obtain j where j: "j < 32" "or_default (cfg_pages_per_slab config) 8 = 2 ^ j" by blast
  have "(ucast (2 ^ j :: u32) :: size_t) = 2 ^ j"
  proof -
    have "unat (ucast (2 ^ j :: u32) :: size_t) = 2 ^ j" using j(1) by (simp add: unat_ucast32 unat_pow2)
    then show ?thesis by (metis of_nat_numeral of_nat_power of_nat_unat ucast_id)
  qed
  then have "n = 2 ^ (j + 12)" using j by (simp add: n_def power_add)
  then show ?thesis using j(1) by (intro exI [of _ "j + 12"]) simp
qed

lemma slab_config_ok:
  assumes run: "tss_slab_config_init config = Some conf" and ok: "config_ok config"
  shows "conf_ok conf" and "conf_aligned conf" and "unat (cfg_obj_size config) \<le> unat (padded_obj_size conf)"
    and "obj_align conf = cfg_obj_align config"
proof -
  let ?al = "cfg_obj_align config" and ?sz = "if cfg_obj_size config > 8 then cfg_obj_size config else 8"
  obtain j where j: "?al = 2 ^ j" "unat ?al = 2 ^ j" "j < 64" using ok by (auto simp: config_ok_def elim: valid_alignE)
  have al: "0 < unat ?al" "unat ?al \<le> 4096" using j(2) ok by (auto simp: config_ok_def word_le_nat_alt)
  obtain k where k: "12 \<le> k" "k < 44" "ucast (or_default (cfg_pages_per_slab config) 8) * 4096 = (2 ^ k :: size_t)"
    using slab_bytes [of config] ok by (auto simp: config_ok_def)
  have uk: "unat (2 ^ k :: size_t) = 2 ^ k" using k(2) by (intro unat_pow2) simp
  have K: "(4096::nat) \<le> 2 ^ k" "(2::nat) ^ k < 2 ^ 44"
    using power_increasing [OF k(1), of "2::nat"] power_strict_increasing [OF k(2), of "2::nat"] by simp_all
  have ru: "unat ((x + ?al - 1) AND NOT (?al - 1)) = round_up (unat x) (unat ?al)" if "unat x \<le> 2 ^ 63" for x :: size_t
    using unat_round_up [of j ?al x] j(1,3) round_up_less [of "unat ?al" "unat x"] al that by (simp add: round_up_def)
  have sz: "unat ?sz \<le> 2 ^ 63" "8 \<le> unat ?sz" "unat (cfg_obj_size config) \<le> unat ?sz"
    using ok by (auto simp: config_ok_def word_le_nat_alt word_less_nat_alt)
  have off: "unat ((32 + ?al - 1) AND NOT (?al - 1)) = round_up 32 (unat ?al)" using ru [of 32] by simp
  obtain off pad per where c: "off = (32 + ?al - 1) AND NOT (?al - 1)" "pad = (?sz + ?al - 1) AND NOT (?al - 1)"
      "per = (2 ^ k - off) div pad" "0 < per"
      "conf = \<lparr>obj_align = ?al, padded_obj_size = pad, slab_size = 2 ^ k, obj_per_slab = per, retire_threshold = cfg_retire_threshold config, slab_offset = off\<rparr>"
    using run k(3) unfolding tss_slab_config_init_def Let_def by (auto simp: Let_def split: option.splits if_splits)
  show "obj_align conf = cfg_obj_align config" by (simp add: c(5))
  have pow: "(2::nat) ^ j dvd 4096" "(2::nat) ^ j dvd 2 ^ k"
  proof -
    have "(2::nat) ^ j \<le> 2 ^ 12" using al(2) j(2) by simp
    then have "j \<le> 12" by (rule power_le_imp_le_exp [rotated]) simp
    then show "(2::nat) ^ j dvd 4096" "(2::nat) ^ j dvd 2 ^ k" using k(1) le_imp_power_dvd [of j 12 "2::nat"] le_imp_power_dvd [of j k "2::nat"] by simp_all
  qed
  have uo: "unat off = round_up 32 (unat ?al)" "unat off \<le> 4096" "32 \<le> unat off"
    using off c(1) round_up_least [OF al(1), of 4096 32] round_up_ge [OF al(1), of 32] pow(1) j(2) by simp_all
  have up: "unat pad = round_up (unat ?sz) (unat ?al)" using ru [OF sz(1)] c(2) by simp
  have pad: "8 \<le> unat pad" "unat (cfg_obj_size config) \<le> unat pad" using round_up_ge [OF al(1), of "unat ?sz"] sz(2,3) unfolding up by linarith+
  have "unat (2 ^ k - off) = 2 ^ k - unat off" using uk uo(2) K(1) by (simp add: unat_sub word_le_nat_alt)
  then have "unat per = (2 ^ k - unat off) div unat pad" using c(3) by (simp add: unat_div)
  then have "unat per * unat pad \<le> 2 ^ k - unat off" by (simp add: div_times_less_eq_dividend)
  then have fit: "unat off + unat per * unat pad \<le> 2 ^ k" using uo(2) K(1) by linarith
  have "jfs_mlg_valid_align (2 ^ k)" using k(2) unfolding valid_align_iff by (intro exI [of _ k]) simp
  then show "conf_ok conf" using K uk uo(3) pad(1) fit c(4) by (simp add: conf_ok_def c(5) slab_size_ok_def word_less_nat_alt)
  show "conf_aligned conf" using uo(1) up pow(2) uk j(2) by (simp add: conf_aligned_def c(5) round_up_dvd)
  show "unat (cfg_obj_size config) \<le> unat (padded_obj_size conf)" using pad(2) by (simp add: c(5))
qed

lemma cache_config_ok: "tss_cache_config_init config = Some conf \<Longrightarrow> caps_ok conf"
  by (auto simp: tss_cache_config_init_def caps_ok_def or_default_def Let_def word_greater_zero_iff split: if_splits option.splits)

section \<open>All sequences of operations\<close>

text \<open>
  An allocator, its caches, and the objects its clients hold. A step is one call of \<open>jfs_tss_alloc\<close>, \<open>jfs_tss_free\<close> or
  \<open>jfs_tss_cache_full_release\<close> on one cache, a
  retirement, the creation of a cache, or a client writing into an object it holds. One call of the interface is no step:
  \<open>jfs_tss_cache_refresh\<close>, which leaves a cache that counts more objects than it holds
  (\<open>tss_refresh_breaks_cache\<close> in \<open>Jfs_Tss_Theorems\<close>); what is shown of these runs says nothing of one in which
  a client calls it. The kernel answers
  the \<open>mmap\<close> calls of an allocation with a script of its own: an arbitrary honest one. \<open>M\<close> is what was mapped
  when the allocator was created. The flag says that no
  pass over the slabs has dropped one so far.
\<close>

record tss_world =
  w_tss :: tss
  w_caches :: "jfs_tss_cache list"
  w_held :: "addr list"

inductive tss_run :: "nat \<Rightarrow> (addr \<Rightarrow> bool) \<Rightarrow> bool \<Rightarrow> tss_world \<Rightarrow> bool" for fuel M where
  start: "jfs_tss_allocator_create (Some ()) s0 config JFS_OK = Some (a, s, JFS_OK) \<Longrightarrow> config_ok config \<Longrightarrow> mapped s0 = M \<Longrightarrow>
    tss_run fuel M True \<lparr>w_tss = s, w_caches = [], w_held = []\<rparr>"
| cache: "tss_run fuel M q \<lparr>w_tss = s, w_caches = cs, w_held = H\<rparr> \<Longrightarrow>
    tss_run fuel M q \<lparr>w_tss = s, w_caches = jfs_tss_cache_init # cs, w_held = H\<rparr>"
| alloc: "tss_run fuel M q \<lparr>w_tss = s, w_caches = us @ c # vs, w_held = H\<rparr> \<Longrightarrow>
    honest (slab_size (slab_conf s)) rs (mapped s) \<Longrightarrow>
    jfs_tss_alloc fuel c (s\<lparr>mmap_script := rs\<rparr>) JFS_OK = Some (p, c', s', e) \<Longrightarrow>
    tss_run fuel M (q \<and> (cache_count c \<noteq> 0 \<or> tss_no_retire fuel (s\<lparr>mmap_script := rs\<rparr>)))
      \<lparr>w_tss = s', w_caches = us @ c' # vs, w_held = (if p = NULL then H else p # H)\<rparr>"
| free: "tss_run fuel M q \<lparr>w_tss = s, w_caches = us @ c # vs, w_held = H\<rparr> \<Longrightarrow> p \<in> set H \<Longrightarrow>
    jfs_tss_free fuel c p s = Some (c', s') \<Longrightarrow>
    tss_run fuel M q \<lparr>w_tss = s', w_caches = us @ c' # vs, w_held = remove1 p H\<rparr>"
| full_release: "tss_run fuel M q \<lparr>w_tss = s, w_caches = us @ c # vs, w_held = H\<rparr> \<Longrightarrow>
    jfs_tss_cache_full_release fuel c s = Some (c', s') \<Longrightarrow>
    tss_run fuel M q \<lparr>w_tss = s', w_caches = us @ c' # vs, w_held = H\<rparr>"
| retire: "tss_run fuel M q \<lparr>w_tss = s, w_caches = cs, w_held = H\<rparr> \<Longrightarrow>
    jfs_tss_allocator_explicit_retire fuel s = Some s' \<Longrightarrow>
    tss_run fuel M False \<lparr>w_tss = s', w_caches = cs, w_held = H\<rparr>"
| client: "tss_run fuel M q \<lparr>w_tss = s, w_caches = cs, w_held = H\<rparr> \<Longrightarrow> p \<in> set H \<Longrightarrow>
    tss_run fuel M q \<lparr>w_tss = s\<lparr>obj_next := (obj_next s)(p := v)\<rparr>, w_caches = cs, w_held = H\<rparr>"

definition cache_ok :: "tss \<Rightarrow> jfs_tss_cache \<Rightarrow> addr list \<Rightarrow> bool" where
  "cache_ok s c C \<longleftrightarrow> cache_inv s c C \<and> length C < unat (cache_cap (cache_conf s))"

definition world_inv :: "(addr \<Rightarrow> bool) \<Rightarrow> tss \<Rightarrow> jfs_tss_cache list \<Rightarrow> addr list \<Rightarrow> bool \<Rightarrow> bool" where
  "world_inv M s cs H q \<longleftrightarrow> (\<exists>A R F Cs. tss_inv s A R F \<and> list_all2 (cache_ok s) cs Cs \<and> distinct (H @ concat Cs) \<and>
     set (H @ concat Cs) = outs s (set A \<union> set R) F \<and> \<not> lock s \<and> caps_ok (cache_conf s) \<and> (q \<longrightarrow> counts_ok s A R) \<and>
     conf_aligned (slab_conf s) \<and> elsewhere s (set A \<union> set R) = M)"

text \<open>Looking at one cache of the world, and putting it back.\<close>

lemma world_focus:
  assumes "world_inv M s (us @ c # vs) H q"
  obtains C Us Vs where "owned M s c C (H @ concat Us @ concat Vs) q" "length C < unat (cache_cap (cache_conf s))"
    "list_all2 (cache_ok s) us Us" "list_all2 (cache_ok s) vs Vs" "conf_aligned (slab_conf s)"
proof -
  obtain A R F Cs where w: "tss_inv s A R F" "list_all2 (cache_ok s) (us @ c # vs) Cs" "distinct (H @ concat Cs)"
      "set (H @ concat Cs) = outs s (set A \<union> set R) F" "\<not> lock s" "caps_ok (cache_conf s)" "q \<longrightarrow> counts_ok s A R"
      "conf_aligned (slab_conf s)" "elsewhere s (set A \<union> set R) = M"
    using assms unfolding world_inv_def by blast
  obtain Us C Vs where Cs: "Cs = Us @ C # Vs" "list_all2 (cache_ok s) us Us" "cache_ok s c C" "list_all2 (cache_ok s) vs Vs"
    using w(2) by (auto simp: list_all2_append1 list_all2_Cons1)
  have "owned M s c C (H @ concat Us @ concat Vs) q"
    unfolding owned_def using w(1,3-7,9) Cs(3) by (intro exI [of _ A] exI [of _ R] exI [of _ F]) (auto simp: Cs(1) cache_ok_def)
  then show thesis using Cs(2-4) w(8) by (intro that [of C Us Vs]) (auto simp: cache_ok_def)
qed

lemma caches_frame:
  assumes l: "list_all2 (cache_ok s) us Us" and fr: "frame X s s'" "set (concat Us) \<subseteq> set X"
  shows "list_all2 (cache_ok s') us Us"
proof -
  have "cache_ok s' c C" if "cache_ok s c C" "C \<in> set Us" for c C
  proof -
    have "\<And>x. x \<in> set C \<Longrightarrow> obj_next s' x = obj_next s x" using that(2) fr by (auto simp: frame_def)
    then show ?thesis using that(1) fr(1) heap_list_cong [of C "obj_next s'" "obj_next s"]
      by (simp add: cache_ok_def cache_inv_def frame_def same_conf_def)
  qed
  then show ?thesis using l by (auto simp: list_all2_conv_all_nth)
qed

lemma world_unfocus:
  assumes own: "owned M s' c' C' (H' @ concat Us @ concat Vs) q" "length C' < unat (cache_cap (cache_conf s'))"
    and l: "list_all2 (cache_ok s) us Us" "list_all2 (cache_ok s) vs Vs" and al: "conf_aligned (slab_conf s)"
    and fr: "frame (H @ concat Us @ concat Vs) s s'"
  shows "world_inv M s' (us @ c' # vs) H' q"
proof -
  have l': "list_all2 (cache_ok s') us Us" "list_all2 (cache_ok s') vs Vs"
    by (rule caches_frame [OF l(1) fr]; auto) (rule caches_frame [OF l(2) fr]; auto)
  have "conf_aligned (slab_conf s')" using al fr by (simp add: frame_def same_conf_def)
  moreover obtain A R F where o: "tss_inv s' A R F" "cache_inv s' c' C'" "distinct (C' @ H' @ concat Us @ concat Vs)"
      "set (C' @ H' @ concat Us @ concat Vs) = outs s' (set A \<union> set R) F" "\<not> lock s'" "caps_ok (cache_conf s')" "q \<longrightarrow> counts_ok s' A R"
      "elsewhere s' (set A \<union> set R) = M"
    using own(1) unfolding owned_def by blast
  moreover have "list_all2 (cache_ok s') (us @ c' # vs) (Us @ C' # Vs)"
    using l' o(2) own(2) by (intro list_all2_appendI list_all2_Cons [THEN iffD2]) (simp_all add: cache_ok_def)
  ultimately show ?thesis unfolding world_inv_def
    by (intro exI [of _ A] exI [of _ R] exI [of _ F] exI [of _ "Us @ C' # Vs"]) auto
qed

lemma world_alloc:
  assumes w: "world_inv M s (us @ c # vs) H q" and hon: "honest (slab_size (slab_conf s)) rs (mapped s)" and fuel: "2 ^ 64 \<le> fuel"
  defines "q' \<equiv> q \<and> (cache_count c \<noteq> 0 \<or> tss_no_retire fuel (s\<lparr>mmap_script := rs\<rparr>))"
  shows "case jfs_tss_alloc fuel c (s\<lparr>mmap_script := rs\<rparr>) JFS_OK of None \<Rightarrow> \<not> q
    | Some (p, c', s', e) \<Rightarrow> frame H s s' \<and> world_inv M s' (us @ c' # vs) (if p = NULL then H else p # H) q' \<and>
        (e = JFS_OK \<and> p \<noteq> NULL \<or> e = JFS_ERR_SYS \<and> p = NULL \<and> c' = c)"
proof -
  let ?s = "s\<lparr>mmap_script := rs\<rparr>"
  obtain C Us Vs where f: "owned M s c C (H @ concat Us @ concat Vs) q" "length C < unat (cache_cap (cache_conf s))"
      "list_all2 (cache_ok s) us Us" "list_all2 (cache_ok s) vs Vs" "conf_aligned (slab_conf s)" by (rule world_focus [OF w])
  have o: "owned M ?s c C (H @ concat Us @ concat Vs) q"
    using f(1) by (simp add: owned_def tss_inv_def slab_inv_def cache_inv_def outs_def counts_ok_def)
  have cc: "cache_count c \<noteq> 0 \<longleftrightarrow> C \<noteq> []" using f(1) by (auto simp: owned_def cache_inv_def unat_eq_0)
  have "honest (slab_size (slab_conf ?s)) (mmap_script ?s) (mapped ?s)" using hon by simp
  note al = alloc_owned [OF o _ this fuel]
  show ?thesis
  proof (cases "jfs_tss_alloc fuel c ?s JFS_OK")
    case None
    then show ?thesis using al f(2) by simp
  next
    case (Some r)
    obtain p c' s' e where r: "r = (p, c', s', e)" by (cases r)
    obtain C' where a: "frame (H @ concat Us @ concat Vs) ?s s'" "length C' < unat (cache_cap (cache_conf s'))"
        "e = JFS_OK \<and> p \<noteq> NULL \<or> e = JFS_ERR_SYS \<and> p = NULL \<and> c' = c"
        "owned M s' c' C' ((if p = NULL then H else p # H) @ concat Us @ concat Vs) q'"
      using al f(2) Some r unfolding q'_def cc by auto
    have fr: "frame (H @ concat Us @ concat Vs) s s'" using a(1) by (simp add: frame_def same_conf_def)
    then show ?thesis using world_unfocus [OF a(4,2) f(3-5) fr] a(3) Some r by (auto simp: frame_def)
  qed
qed

lemma owned_reorder: "owned M s c C X q \<Longrightarrow> set Y = set X \<Longrightarrow> distinct Y \<Longrightarrow> owned M s c C Y q"
  by (simp add: owned_def) blast

lemma world_free:
  assumes w: "world_inv M s (us @ c # vs) H q" and p: "p \<in> set H" and fuel: "2 ^ 64 \<le> fuel"
  shows "\<exists>c' s'. jfs_tss_free fuel c p s = Some (c', s') \<and> frame (remove1 p H) s s' \<and> world_inv M s' (us @ c' # vs) (remove1 p H) q"
proof -
  obtain C Us Vs where f: "owned M s c C (H @ concat Us @ concat Vs) q" "length C < unat (cache_cap (cache_conf s))"
      "list_all2 (cache_ok s) us Us" "list_all2 (cache_ok s) vs Vs" "conf_aligned (slab_conf s)" by (rule world_focus [OF w])
  have d: "distinct (H @ concat Us @ concat Vs)" using f(1) by (auto simp: owned_def)
  then have "set (p # remove1 p H) = set H" "distinct (p # remove1 p H)" using p by (auto simp: distinct_remove1)
  then have "set (p # remove1 p H @ concat Us @ concat Vs) = set (H @ concat Us @ concat Vs)"
      "distinct (p # remove1 p H @ concat Us @ concat Vs)" using d by auto
  then have "owned M s c C (p # remove1 p H @ concat Us @ concat Vs) q" by (rule owned_reorder [OF f(1)])
  from free_owned [OF this f(2) fuel] obtain c' s' C' where r: "jfs_tss_free fuel c p s = Some (c', s')"
      "owned M s' c' C' (remove1 p H @ concat Us @ concat Vs) q" "frame (remove1 p H @ concat Us @ concat Vs) s s'"
      "length C' < unat (cache_cap (cache_conf s'))" by blast
  then show ?thesis using world_unfocus [OF r(2,4) f(3-5) r(3)] by (auto simp: frame_def)
qed

lemma world_full_release:
  assumes w: "world_inv M s (us @ c # vs) H q" and fuel: "2 ^ 64 \<le> fuel"
  shows "\<exists>s'. jfs_tss_cache_full_release fuel c s = Some (jfs_tss_cache_init, s') \<and> frame H s s' \<and>
    world_inv M s' (us @ jfs_tss_cache_init # vs) H q"
proof -
  obtain C Us Vs where f: "owned M s c C (H @ concat Us @ concat Vs) q" "length C < unat (cache_cap (cache_conf s))"
      "list_all2 (cache_ok s) us Us" "list_all2 (cache_ok s) vs Vs" "conf_aligned (slab_conf s)" by (rule world_focus [OF w])
  from full_release_owned [OF f(1) fuel] obtain s' where r: "jfs_tss_cache_full_release fuel c s = Some (jfs_tss_cache_init, s')"
      "owned M s' jfs_tss_cache_init [] (H @ concat Us @ concat Vs) q" "frame (H @ concat Us @ concat Vs) s s'" by blast
  then have "length ([] :: addr list) < unat (cache_cap (cache_conf s'))" using f(2) by (auto simp: frame_def same_conf_def)
  then show ?thesis using r(1,3) world_unfocus [OF r(2) _ f(3-5) r(3)] by (auto simp: frame_def)
qed

text \<open>A step that leaves the \<open>next\<close> words of the cached objects alone, seen through an empty cache.\<close>

lemma owned_empty:
  assumes "world_inv M s cs H q"
  obtains Cs where "owned M s jfs_tss_cache_init [] (H @ concat Cs) q" "list_all2 (cache_ok s) cs Cs" "conf_aligned (slab_conf s)"
  using assms unfolding world_inv_def owned_def by (auto simp: cache_inv_def jfs_tss_cache_init_def)

lemma empty_owned:
  assumes own: "owned M s' jfs_tss_cache_init [] (H @ concat Cs) q" and fr: "frame (concat Cs) s s'"
    and l: "list_all2 (cache_ok s) cs Cs" "conf_aligned (slab_conf s)"
  shows "world_inv M s' cs H q"
  using own caches_frame [OF l(1) fr] l(2) fr unfolding world_inv_def owned_def by (auto simp: frame_def same_conf_def)

lemma world_retire:
  assumes w: "world_inv M s cs H q" and fuel: "2 ^ 64 \<le> fuel"
  shows "\<exists>s'. jfs_tss_allocator_explicit_retire fuel s = Some s' \<and> same_conf s s' \<and> world_inv M s' cs H False"
proof -
  obtain Cs where o: "owned M s jfs_tss_cache_init [] (H @ concat Cs) q" "list_all2 (cache_ok s) cs Cs" "conf_aligned (slab_conf s)"
    by (rule owned_empty [OF w])
  from explicit_retire_owned [OF o(1) fuel] obtain s' where r: "jfs_tss_allocator_explicit_retire fuel s = Some s'"
      "owned M s' jfs_tss_cache_init [] (H @ concat Cs) False" "same_conf s s'" "obj_next s' = obj_next s" by blast
  then show ?thesis using empty_owned [OF r(2) _ o(2,3)] by (simp add: frame_def)
qed

lemma world_client:
  assumes w: "world_inv M s cs H q" and p: "p \<in> set H"
  shows "world_inv M (s\<lparr>obj_next := (obj_next s)(p := v)\<rparr>) cs H q"
proof -
  let ?s = "s\<lparr>obj_next := (obj_next s)(p := v)\<rparr>"
  obtain Cs where o: "owned M s jfs_tss_cache_init [] (H @ concat Cs) q" "list_all2 (cache_ok s) cs Cs" "conf_aligned (slab_conf s)"
    by (rule owned_empty [OF w])
  then obtain A R F where i: "tss_inv s A R F" "distinct (H @ concat Cs)" "set (H @ concat Cs) = outs s (set A \<union> set R) F" "\<not> lock s"
      "caps_ok (cache_conf s)" "q \<longrightarrow> counts_ok s A R" "elsewhere s (set A \<union> set R) = M"
    unfolding owned_def by auto
  have "tss_inv (s\<lparr>obj_next := (obj_next s)(p := v), lock := lock s\<rparr>) A R F"
    using p i(3) by (intro inv_next_owned [OF i(1), of "{p}"]) auto
  then have "owned M ?s jfs_tss_cache_init [] (H @ concat Cs) q"
    unfolding owned_def using i(2-7)
    by (intro exI [of _ A] exI [of _ R] exI [of _ F]) (auto simp: cache_inv_def jfs_tss_cache_init_def outs_def counts_ok_def)
  moreover have "frame (concat Cs) s ?s" using p i(2) by (auto simp: frame_def same_conf_def)
  ultimately show ?thesis using empty_owned o(2,3) by blast
qed

lemma world_start:
  assumes run: "jfs_tss_allocator_create (Some ()) s0 config JFS_OK = Some (a, s, JFS_OK)" and ok: "config_ok config"
  shows "world_inv (mapped s0) s [] [] True"
proof -
  obtain sc cc where c: "tss_slab_config_init config = Some sc" "tss_cache_config_init config = Some cc"
      "slab_conf s = sc" "cache_conf s = cc" "\<not> lock s" "active_list_head s = NULL" "active_list_count s = 0" "used_obj_count s = 0"
      "mapped s = mapped s0"
    using run by (auto simp: jfs_tss_allocator_create_def jfs_malloc_def Let_def Option.bind_eq_Some_conv)
  then show ?thesis unfolding world_inv_def
    using slab_config_ok(1,2) [OF c(1) ok] cache_config_ok [OF c(2)]
    by (intro exI [of _ "[]"]) (simp add: tss_inv_def outs_def counts_ok_def elsewhere_def)
qed

lemma world_cache:
  assumes "world_inv M s cs H q"
  shows "world_inv M s (jfs_tss_cache_init # cs) H q"
proof -
  obtain A R F Cs where w: "tss_inv s A R F" "list_all2 (cache_ok s) cs Cs" "distinct (H @ concat Cs)"
      "set (H @ concat Cs) = outs s (set A \<union> set R) F" "\<not> lock s" "caps_ok (cache_conf s)" "q \<longrightarrow> counts_ok s A R"
      "conf_aligned (slab_conf s)" "elsewhere s (set A \<union> set R) = M"
    using assms unfolding world_inv_def by blast
  have "cache_ok s jfs_tss_cache_init []" using w(6)
    by (auto simp: cache_ok_def cache_inv_def jfs_tss_cache_init_def caps_ok_def word_less_nat_alt word_le_nat_alt)
  then show ?thesis unfolding world_inv_def using w
    by (intro exI [of _ A] exI [of _ R] exI [of _ F] exI [of _ "[] # Cs"]) simp
qed

lemma run_inv:
  assumes "tss_run fuel M q w" and fuel: "2 ^ 64 \<le> fuel"
  shows "world_inv M (w_tss w) (w_caches w) (w_held w) q"
  using assms(1)
proof induction
  case (alloc q s us c vs H rs p c' s' e)
  then show ?case using world_alloc [OF _ _ fuel, of M s us c vs H q rs] by simp
next
  case (free q s us c vs H p c' s')
  then show ?case using world_free [OF _ _ fuel, of M s us c vs H q p] by auto
next
  case (full_release q s us c vs H c' s')
  then show ?case using world_full_release [OF _ fuel, of M s us c vs H q] by auto
next
  case (retire q s cs H s')
  then show ?case using world_retire [OF _ fuel, of M s cs H q] by auto
qed (auto intro: world_start world_cache world_client)

end
