(* ===== verification/Jfs_Tss_Theorems.thy ===== *)
theory Jfs_Tss_Theorems
  imports Jfs_Tss_World
begin

text \<open>
  What the thread-safe slab allocator guarantees, and where it does not: objects that are handed out are
  mapped, aligned and disjoint; no call aborts as long as no slab was dropped and no cache refreshed; what retiring and
  destroying do to the slabs; and two sequences of calls that end in a failed assertion or in a null
  dereference. The last section builds a small allocator (two objects of 2000 bytes in a slab of one
  page) on which the theorems are applied.
\<close>

section \<open>Objects in memory\<close>

lemma objs_apart:
  assumes c: "conf_ok conf" and b: "base_ok conf b" "base_ok conf b'" and p: "p \<in> set (slab_objs conf b)" "p' \<in> set (slab_objs conf b')" "p \<noteq> p'"
  shows "unat p + unat (padded_obj_size conf) \<le> unat p' \<or> unat p' + unat (padded_obj_size conf) \<le> unat p"
proof -
  let ?P = "unat (padded_obj_size conf)" and ?o = "unat (slab_offset conf)" and ?n = "unat (obj_per_slab conf)" and ?S = "unat (slab_size conf)"
  obtain i i' where i: "i < ?n" "unat p = unat b + ?o + i * ?P" "i' < ?n" "unat p' = unat b' + ?o + i' * ?P"
    using p(1,2) obj_unat(1) [OF c b(1)] obj_unat(1) [OF c b(2)] by (auto simp: slab_objs_def)
  have fit: "?o + Suc j * ?P \<le> ?S" if "j < ?n" for j
  proof -
    have "Suc j * ?P \<le> ?n * ?P" using that by (intro mult_le_mono1) simp
    then show ?thesis using c by (simp add: conf_ok_def)
  qed
  show ?thesis
  proof (cases "b = b'")
    case True
    then have "i < i' \<or> i' < i" using i p(3) by (metis linorder_neqE_nat word_unat_eq_iff)
    then have "Suc i * ?P \<le> i' * ?P \<or> Suc i' * ?P \<le> i * ?P" by (metis Suc_leI mult_le_mono1)
    then show ?thesis using i True by auto
  next
    case False
    obtain q q' where q: "unat b = q * ?S" "unat b' = q' * ?S" using b by (metis base_ok_def dvd_div_mult_self)
    then have "q < q' \<or> q' < q" using False by (metis linorder_neqE_nat word_unat_eq_iff)
    then have "unat b + ?S \<le> unat b' \<or> unat b' + ?S \<le> unat b" using q by (metis Suc_leI mult_Suc add.commute mult_le_mono1)
    then show ?thesis using i fit [OF i(1)] fit [OF i(3)] by auto
  qed
qed

lemma objs_bytes:
  assumes c: "conf_ok conf" and b: "base_ok conf b" and p: "p \<in> set (slab_objs conf b)" and k: "k < unat (padded_obj_size conf)"
  shows "in_range b (slab_size conf) (p + of_nat k)"
proof -
  let ?P = "unat (padded_obj_size conf)" and ?o = "unat (slab_offset conf)" and ?n = "unat (obj_per_slab conf)"
  obtain i where i: "i < ?n" "unat p = unat b + ?o + i * ?P" using p obj_unat(1) [OF c b] by (auto simp: slab_objs_def)
  have fit: "unat b + unat (slab_size conf) \<le> 2 ^ 64" using b by (simp add: base_ok_def)
  have "Suc i * ?P \<le> ?n * ?P" using i(1) by (intro mult_le_mono1) simp
  then have le: "unat p + k < unat b + unat (slab_size conf)" "unat b \<le> unat p" using i(2) k c by (simp_all add: conf_ok_def)
  have "unat (of_nat k :: size_t) = k" by (rule of_nat64_below [OF k])
  then have "unat (p + of_nat k) = unat p + k" using le(1) fit unat_add64 [of p "of_nat k"] by simp
  then show ?thesis unfolding in_range_iff [OF fit] using le by simp
qed

lemma objs_aligned:
  assumes c: "conf_ok conf" "conf_aligned conf" and b: "base_ok conf b" and p: "p \<in> set (slab_objs conf b)"
  shows "unat (obj_align conf) dvd unat p"
proof -
  obtain i where "i < unat (obj_per_slab conf)" "unat p = unat b + unat (slab_offset conf) + i * unat (padded_obj_size conf)"
    using p obj_unat(1) [OF c(1) b] by (auto simp: slab_objs_def)
  moreover have "unat (obj_align conf) dvd unat b" using c(2) b dvd_trans unfolding conf_aligned_def base_ok_def by blast
  ultimately show ?thesis using c(2) by (simp add: conf_aligned_def)
qed

text \<open>C8. Whatever sequence of calls other than \<open>jfs_tss_cache_refresh\<close> the clients make on whatever caches, and whatever the kernel
  answers, the objects they hold are distinct, aligned to \<open>obj_align\<close>, mapped over their whole padded
  size, and no two of them overlap. So no object is handed out twice, and no slab is unmapped while
  one of its objects is in use.\<close>

theorem tss_held_objects:
  assumes "tss_run fuel M q w" and "2 ^ 64 \<le> fuel"
  shows "distinct (w_held w) \<and>
    (\<forall>p\<in>set (w_held w). unat (obj_align (slab_conf (w_tss w))) dvd unat p \<and>
      (\<forall>k < unat (padded_obj_size (slab_conf (w_tss w))). mapped (w_tss w) (p + of_nat k))) \<and>
    (\<forall>p\<in>set (w_held w). \<forall>p'\<in>set (w_held w). p \<noteq> p' \<longrightarrow>
      unat p + unat (padded_obj_size (slab_conf (w_tss w))) \<le> unat p' \<or>
      unat p' + unat (padded_obj_size (slab_conf (w_tss w))) \<le> unat p)"
proof -
  let ?s = "w_tss w"
  obtain A R F Cs where w: "tss_inv ?s A R F" "distinct (w_held w @ concat Cs)"
      "set (w_held w @ concat Cs) = outs ?s (set A \<union> set R) F" "conf_aligned (slab_conf ?s)"
    using run_inv [OF assms] unfolding world_inv_def by blast
  note c = tss_invD(1) [OF w(1)]
  have sub: "\<exists>b. p \<in> set (slab_objs (slab_conf ?s) b) \<and> base_ok (slab_conf ?s) b \<and>
      (\<forall>x. in_range b (slab_size (slab_conf ?s)) x \<longrightarrow> mapped ?s x)" if "p \<in> set (w_held w)" for p
  proof -
    have "p \<in> outs ?s (set A \<union> set R) F" using that w(3) by auto
    then obtain b where "b \<in> set A \<union> set R" "p \<in> set (slab_objs (slab_conf ?s) b)" by (auto simp: outs_def)
    then show ?thesis using slab_invD(1,2) [OF tss_invD(4) [OF w(1)]] by blast
  qed
  show ?thesis
  proof (intro conjI ballI impI allI)
    show "distinct (w_held w)" using w(2) by simp
  next
    fix p assume "p \<in> set (w_held w)"
    then show "unat (obj_align (slab_conf ?s)) dvd unat p" using sub objs_aligned [OF c w(4)] by blast
  next
    fix p k assume "p \<in> set (w_held w)" "k < unat (padded_obj_size (slab_conf ?s))"
    then show "mapped ?s (p + of_nat k)" using sub objs_bytes [OF c] by blast
  next
    fix p p' assume p: "p \<in> set (w_held w)" "p' \<in> set (w_held w)" "p \<noteq> p'"
    obtain b b' where b: "base_ok (slab_conf ?s) b" "base_ok (slab_conf ?s) b'"
        "p \<in> set (slab_objs (slab_conf ?s) b)" "p' \<in> set (slab_objs (slab_conf ?s) b')"
      using sub [OF p(1)] sub [OF p(2)] by blast
    show "unat p + unat (padded_obj_size (slab_conf ?s)) \<le> unat p' \<or> unat p' + unat (padded_obj_size (slab_conf ?s)) \<le> unat p"
      by (rule objs_apart [OF c b p(3)])
  qed
qed

text \<open>C14. As long as no slabs were retired explicitly, no pass over the slabs that an allocation makes has dropped one, and
  \<open>jfs_tss_cache_refresh\<close> was not called (it breaks the cache: \<open>tss_refresh_breaks_cache\<close>), \<open>jfs_tss_alloc\<close> on any cache returns: an object
  nobody holds, or, when the kernel refuses memory, null with \<open>JFS_ERR_SYS\<close> and the cache unchanged. No
  assertion fails, the mutex is free and every pointer it follows is mapped.\<close>

theorem tss_alloc_returns:
  assumes "tss_run fuel M True \<lparr>w_tss = s, w_caches = us @ c # vs, w_held = H\<rparr>" and "honest (slab_size (slab_conf s)) rs (mapped s)"
    and "2 ^ 64 \<le> fuel"
  shows "\<exists>p c' s' e. jfs_tss_alloc fuel c (s\<lparr>mmap_script := rs\<rparr>) JFS_OK = Some (p, c', s', e) \<and>
    (e = JFS_OK \<and> p \<noteq> NULL \<and> p \<notin> set H \<or> e = JFS_ERR_SYS \<and> p = NULL \<and> c' = c)"
proof -
  have "world_inv M s (us @ c # vs) H True" using run_inv [OF assms(1,3)] by simp
  from world_alloc [OF this assms(2,3)] show ?thesis
    by (auto split: option.splits if_splits simp: world_inv_def)
qed


text \<open>C23. One pass of \<open>tss_allocator_retire_slabs\<close>: the slabs in use above the threshold stay active, those
  in use up to it are retired, the unused ones and only those are unmapped. The counter of active slabs
  afterwards still counts the unmapped ones.\<close>

theorem tss_retire_slabs_exact:
  assumes "tss_inv s A R F" and "2 ^ 64 \<le> fuel" and "counts_ok s A R"
  shows "\<exists>s' R'. tss_allocator_retire_slabs fuel s = Some s' \<and>
    tss_inv s' (filter (\<lambda>b. retire_threshold (slab_conf s) < used_count s b) A) R' F \<and>
    set R' = {b \<in> set A. 0 < used_count s b \<and> used_count s b \<le> retire_threshold (slab_conf s)} \<and>
    mapped s' = (\<lambda>x. mapped s x \<and> \<not> (\<exists>b\<in>set A. used_count s b = 0 \<and> in_range b (slab_size (slab_conf s)) x)) \<and>
    unat (active_list_count s') = length (filter (\<lambda>b. retire_threshold (slab_conf s) < used_count s b) A) +
      length (filter (\<lambda>b. used_count s b = 0) A)"
proof -
  let ?thr = "retire_threshold (slab_conf s)"
  obtain s' R' where r: "tss_allocator_retire_slabs fuel s = Some s'" "retire_post s [] A R F s' R'"
    using retire_slabs [OF assms(1,2)] by blast
  let ?flag = "filter (\<lambda>b. 0 < used_count s b \<and> used_count s b \<le> ?thr) A"
  have split: "length A = length (filter (\<lambda>b. ?thr < used_count s b) A) + length (filter (\<lambda>b. used_count s b = 0) A) + length ?flag"
    by (induction A) (auto simp: word_greater_zero_iff not_less)
  have cnt: "R = []" "unat (active_list_count s) = length A" using assms(3) by (simp_all add: counts_ok_def)
  have "length ?flag \<le> length A" by simp
  then have "unat (of_nat (length ?flag) :: size_t) = length ?flag" using active_length [OF assms(1)] by (intro unat_of_nat64) linarith
  then have "unat (active_list_count s - of_nat (length ?flag)) = length A - length ?flag"
    using cnt(2) split by (simp add: unat_sub word_le_nat_alt)
  then show ?thesis using r cnt(1) split unfolding retire_post_def by (intro exI [of _ s'] exI [of _ R']) auto
qed

section \<open>Destroying an allocator\<close>

lemma destroy_loop:
  assumes "conf_ok (slab_conf s)" and "heap_list (slab_next s) (active_list_head s) A" and "\<forall>b\<in>set A. base_ok (slab_conf s) b"
    and "\<forall>b\<in>set A. \<forall>x. in_range b (slab_size (slab_conf s)) x \<longrightarrow> mapped s x" and "length A < fuel"
  shows "tss_destroy_loop fuel s = Some (s\<lparr>active_list_head := NULL,
    mapped := \<lambda>x. mapped s x \<and> \<not> (\<exists>b\<in>set A. in_range b (slab_size (slab_conf s)) x)\<rparr>)"
  using assms
proof (induction A arbitrary: s fuel)
  case Nil
  then show ?case by (cases fuel) auto
next
  case (Cons b A)
  obtain n where n: "fuel = Suc n" "length A < n" using Cons.prems(5) by (cases fuel) auto
  let ?s = "s\<lparr>active_list_head := slab_next s b, mapped := \<lambda>x. mapped s x \<and> \<not> in_range b (slab_size (slab_conf s)) x\<rparr>"
  have b: "base_ok (slab_conf s) b" "active_list_head s = b" "b \<noteq> NULL" "b \<notin> set A"
    using Cons.prems(2,3) heap_list_distinct [OF Cons.prems(2)] by auto
  have "in_range b (slab_size (slab_conf s)) b"
    using Cons.prems(1) by (simp add: in_range_def conf_ok_def slab_size_ok_def jfs_mlg_valid_align_def word_greater_zero_iff)
  then have "valid_ptr s b" using Cons.prems(4) b(3) by (simp add: valid_ptr_def)
  then have step: "tss_destroy_loop fuel s = tss_destroy_loop n ?s"
    using b n(1) slab_destroy_ok [of "slab_conf s" b "s\<lparr>active_list_head := slab_next s b\<rparr>"] Cons.prems(1) by simp
  have "\<not> in_range b (slab_size (slab_conf s)) x" if "d \<in> set A" "in_range d (slab_size (slab_conf s)) x" for d x
    using slab_ranges_disjoint [OF Cons.prems(1) b(1) _ _ that(2)] that(1) Cons.prems(3) b(4) by auto
  then have "tss_destroy_loop n ?s = Some (?s\<lparr>active_list_head := NULL,
      mapped := \<lambda>x. mapped ?s x \<and> \<not> (\<exists>b\<in>set A. in_range b (slab_size (slab_conf ?s)) x)\<rparr>)"
    using Cons.prems b(2) n(2) by (intro Cons.IH) auto
  then show ?case unfolding step by (simp add: conj_assoc)
qed

lemma destroy_exact:
  assumes inv: "tss_inv s A R F" and l: "\<not> lock s" and fuel: "2 ^ 64 \<le> fuel"
  shows "\<exists>s'. jfs_tss_allocator_destroy fuel s = Some s' \<and> \<not> lock s' \<and>
    mapped s' = (\<lambda>x. mapped s x \<and> \<not> (\<exists>b\<in>set A. in_range b (slab_size (slab_conf s)) x))"
proof -
  note c = tss_invD(1) [OF inv] and sl = tss_invD(4) [OF inv]
  have "\<forall>b\<in>set A. base_ok (slab_conf s) b" using slab_invD(1) [OF sl] by blast
  moreover have "\<forall>b\<in>set A. \<forall>x. in_range b (slab_size (slab_conf s)) x \<longrightarrow> mapped s x" using slab_invD(2) [OF sl] by blast
  moreover have "length A < fuel" using active_length [OF inv] fuel by linarith
  ultimately have "tss_destroy_loop fuel (s\<lparr>lock := True\<rparr>) = Some (s\<lparr>lock := True, active_list_head := NULL,
      mapped := \<lambda>x. mapped s x \<and> \<not> (\<exists>b\<in>set A. in_range b (slab_size (slab_conf s)) x)\<rparr>)"
    using destroy_loop [of "s\<lparr>lock := True\<rparr>" A fuel] c tss_invD(2) [OF inv] by simp
  then show ?thesis using l by (simp add: jfs_tss_allocator_destroy_def mutex_lock_def mutex_unlock_def)
qed

text \<open>A slab that counts an object as used has one that is out.\<close>

lemma used_slab_outs:
  assumes inv: "tss_inv s A R F" and b: "b \<in> set A \<union> set R" and u: "used_count s b \<noteq> 0"
  shows "outs s (set A \<union> set R) F \<noteq> {}"
proof -
  note c = tss_invD(1) [OF inv] and sl = tss_invD(4) [OF inv b]
  have "0 < unat (used_count s b)" using u by (simp add: unat_gt_0)
  then have "card (set (F b)) < card (set (slab_objs (slab_conf s) b))"
    using slab_invD(5) [OF sl] distinct_card [OF objs_distinct [OF c slab_invD(1) [OF sl]]]
      distinct_card [OF heap_list_distinct [OF slab_invD(3) [OF sl]]] by simp
  then have "set (slab_objs (slab_conf s) b) - set (F b) \<noteq> {}" using slab_invD(4) [OF sl] by (auto simp: psubset_eq)
  then show ?thesis using b by (auto simp: outs_def)
qed

lemma world_destroy:
  assumes w: "world_inv M s cs [] q" and cs: "\<forall>c\<in>set cs. cache_count c = 0" and fuel: "2 ^ 64 \<le> fuel"
  shows "\<exists>s'. jfs_tss_allocator_destroy fuel s = Some s' \<and> mapped s' = M"
proof -
  obtain A R F Cs where i: "tss_inv s A R F" "list_all2 (cache_ok s) cs Cs" "set (concat Cs) = outs s (set A \<union> set R) F" "\<not> lock s"
      "elsewhere s (set A \<union> set R) = M" using w unfolding world_inv_def by auto
  have "C = []" if "C \<in> set Cs" for C
  proof -
    from that obtain j where j: "j < length Cs" "Cs ! j = C" by (auto simp: in_set_conv_nth)
    then have "cache_ok s (cs ! j) C" "cs ! j \<in> set cs" using i(2) by (auto simp: list_all2_conv_all_nth)
    then show ?thesis using cs by (auto simp: cache_ok_def cache_inv_def)
  qed
  then have "concat Cs = []" by simp
  then have "outs s (set A \<union> set R) F = {}" using i(3) by (metis empty_set)
  then have "R = []" using used_slab_outs [OF i(1)] tss_invD(6) [OF i(1)] by (cases R) auto
  then show ?thesis using destroy_exact [OF i(1,4) fuel] i(5) by (auto simp: elsewhere_def)
qed

lemma tss_retire_destroy:
  assumes w: "world_inv M s cs [] q" and cs: "\<forall>c\<in>set cs. cache_count c = 0" and fuel: "2 ^ 64 \<le> fuel"
  shows "\<exists>s'. do { s \<leftarrow> jfs_tss_allocator_explicit_retire fuel s; jfs_tss_allocator_destroy fuel s } = Some s' \<and> mapped s' = M"
  using world_retire [OF w fuel] world_destroy [OF _ cs fuel] by auto

text \<open>C15. Destroying an allocator gives back all the memory it took. When all objects were freed and all caches
  released, whatever was allocated and freed in which cache before and whatever slabs were retired and
  readmitted, as long as \<open>jfs_tss_cache_refresh\<close> was not called, \<open>jfs_tss_allocator_destroy\<close> returns, and afterwards exactly those bytes are mapped that were mapped when
  the allocator was created; the same holds when slabs are retired explicitly before.\<close>

theorem tss_destroy_returns_memory:
  assumes "tss_run fuel M q \<lparr>w_tss = s, w_caches = cs, w_held = []\<rparr>" and "\<forall>c\<in>set cs. cache_count c = 0" and "2 ^ 64 \<le> fuel"
  shows "(\<exists>s'. jfs_tss_allocator_destroy fuel s = Some s' \<and> mapped s' = M) \<and>
    (\<exists>s'. do { s \<leftarrow> jfs_tss_allocator_explicit_retire fuel s; jfs_tss_allocator_destroy fuel s } = Some s' \<and> mapped s' = M)"
proof -
  have "world_inv M s cs [] q" using run_inv [OF assms(1,3)] by simp
  then show ?thesis using world_destroy [OF _ assms(2,3)] tss_retire_destroy [OF _ assms(2,3)] by blast
qed

text \<open>Destroying an allocator unmaps every active slab and nothing else: the slabs that were retired and
  still have objects in use stay mapped, and nothing refers to them any more.\<close>

theorem tss_destroy_unmaps_active:
  assumes "tss_inv s A R F" and "\<not> lock s" and "2 ^ 64 \<le> fuel"
  shows "\<exists>s'. jfs_tss_allocator_destroy fuel s = Some s' \<and> \<not> lock s' \<and>
    (\<forall>b\<in>set A. \<forall>x. in_range b (slab_size (slab_conf s)) x \<longrightarrow> \<not> mapped s' x) \<and>
    (\<forall>b\<in>set R. \<forall>x. in_range b (slab_size (slab_conf s)) x \<longrightarrow> mapped s' x)"
proof -
  note c = tss_invD(1) [OF assms(1)] and sl = tss_invD(4) [OF assms(1)]
  have base: "\<forall>b\<in>set A \<union> set R. base_ok (slab_conf s) b" using slab_invD(1) [OF sl] by blast
  have m: "\<forall>b\<in>set A \<union> set R. \<forall>x. in_range b (slab_size (slab_conf s)) x \<longrightarrow> mapped s x" using slab_invD(2) [OF sl] by blast
  have "\<not> in_range b (slab_size (slab_conf s)) x" if "d \<in> set R" "b \<in> set A" "in_range d (slab_size (slab_conf s)) x" for b d x
  proof -
    have "b \<noteq> d" using tss_invD(3) [OF assms(1)] that(1,2) by auto
    then show ?thesis using slab_ranges_disjoint [OF c _ _ _ that(3)] base that(1,2) by blast
  qed
  moreover obtain s' where s': "jfs_tss_allocator_destroy fuel s = Some s'" "\<not> lock s'"
      "mapped s' = (\<lambda>x. mapped s x \<and> \<not> (\<exists>b\<in>set A. in_range b (slab_size (slab_conf s)) x))"
    using destroy_exact [OF assms] by blast
  ultimately show ?thesis using m by (intro exI [of _ s'] conjI) (blast, blast, unfold s'(3), blast, blast)
qed

section \<open>A small allocator\<close>

definition demo_config :: jfs_tss_allocator_config where
  "demo_config = \<lparr>cfg_obj_size = 2000, cfg_obj_align = 8, cfg_retire_threshold = 0, cfg_percent_to_retire = 0,
     cfg_pages_per_slab = 1, cfg_cache_cap = 2, cfg_cache_acquire = 1, cfg_cache_release = 1\<rparr>"

definition demo_memory :: tss where
  "demo_memory = \<lparr>mmap_script = [], mapped = (\<lambda>x. False), obj_next = (\<lambda>x. 0), used_count = (\<lambda>x. 0), free_list_head = (\<lambda>x. 0),
     slab_next = (\<lambda>x. 0), retired_flag = (\<lambda>x. False), lock = False, active_list_head = 0, active_list_count = 0, used_obj_count = 0,
     slab_conf = \<lparr>obj_align = 0, padded_obj_size = 0, slab_size = 0, obj_per_slab = 0, retire_threshold = 0, slab_offset = 0\<rparr>,
     cache_conf = \<lparr>cache_cap = 0, cache_acquire = 0, cache_release = 0\<rparr>, percent_to_retire = 0\<rparr>"

definition demo_start :: tss where
  "demo_start = (case jfs_tss_allocator_create (Some ()) demo_memory demo_config JFS_OK of Some (a, s, e) \<Rightarrow> s | None \<Rightarrow> demo_memory)"

definition demo_one :: "nat \<Rightarrow> tss" where
  "demo_one n = (case jfs_tss_alloc (Suc (Suc (Suc n))) jfs_tss_cache_init (demo_start\<lparr>mmap_script := [SysOk 8192]\<rparr>) JFS_OK of
     Some (p, c, s, e) \<Rightarrow> s | None \<Rightarrow> demo_start)"

definition demo_two :: "nat \<Rightarrow> tss" where
  "demo_two n = (case jfs_tss_alloc (Suc (Suc (Suc n))) jfs_tss_cache_init ((demo_one n)\<lparr>mmap_script := []\<rparr>) JFS_OK of
     Some (p, c, s, e) \<Rightarrow> s | None \<Rightarrow> demo_start)"

lemma demo_created: "jfs_tss_allocator_create (Some ()) demo_memory demo_config JFS_OK = Some (Some (), demo_start, JFS_OK)"
proof -
  have "map_option (\<lambda>(a, s, e). (a, e)) (jfs_tss_allocator_create (Some ()) demo_memory demo_config JFS_OK) = Some (Some (), JFS_OK)" by code_simp
  then show ?thesis by (auto simp: demo_start_def split: option.splits)
qed

lemma demo_alloc_one:
  "jfs_tss_alloc (Suc (Suc (Suc n))) jfs_tss_cache_init (demo_start\<lparr>mmap_script := [SysOk 8192]\<rparr>) JFS_OK = Some (10224, jfs_tss_cache_init, demo_one n, JFS_OK)"
  "tss_no_retire (Suc (Suc (Suc n))) (demo_start\<lparr>mmap_script := [SysOk 8192]\<rparr>)"
  "slab_size (slab_conf demo_start) = 4096"
  "mapped demo_start = (\<lambda>x. False)"
proof -
  have "map_option (\<lambda>(p, c, s, e). (p, c, e)) (jfs_tss_alloc (Suc (Suc (Suc n))) jfs_tss_cache_init (demo_start\<lparr>mmap_script := [SysOk 8192]\<rparr>) JFS_OK) =
    Some (10224, jfs_tss_cache_init, JFS_OK)" by code_simp
  then show "jfs_tss_alloc (Suc (Suc (Suc n))) jfs_tss_cache_init (demo_start\<lparr>mmap_script := [SysOk 8192]\<rparr>) JFS_OK = Some (10224, jfs_tss_cache_init, demo_one n, JFS_OK)"
    by (auto simp: demo_one_def split: option.splits)
  have "tss_no_retire (Suc (Suc (Suc n))) (demo_start\<lparr>mmap_script := [SysOk 8192]\<rparr>)" by code_simp
  then show "tss_no_retire (Suc (Suc (Suc n))) (demo_start\<lparr>mmap_script := [SysOk 8192]\<rparr>)" .
  show "slab_size (slab_conf demo_start) = 4096" by code_simp
  show "mapped demo_start = (\<lambda>x. False)" by (rule ext) code_simp
qed

lemma demo_alloc_two:
  "jfs_tss_alloc (Suc (Suc (Suc n))) jfs_tss_cache_init ((demo_one n)\<lparr>mmap_script := []\<rparr>) JFS_OK = Some (8224, jfs_tss_cache_init, demo_two n, JFS_OK)"
  "tss_no_retire (Suc (Suc (Suc n))) ((demo_one n)\<lparr>mmap_script := []\<rparr>)"
proof -
  have "map_option (\<lambda>(p, c, s, e). (p, c, e)) (jfs_tss_alloc (Suc (Suc (Suc n))) jfs_tss_cache_init ((demo_one n)\<lparr>mmap_script := []\<rparr>) JFS_OK) =
    Some (8224, jfs_tss_cache_init, JFS_OK)" by code_simp
  then show "jfs_tss_alloc (Suc (Suc (Suc n))) jfs_tss_cache_init ((demo_one n)\<lparr>mmap_script := []\<rparr>) JFS_OK = Some (8224, jfs_tss_cache_init, demo_two n, JFS_OK)"
    by (auto simp: demo_two_def split: option.splits)
  have "tss_no_retire (Suc (Suc (Suc n))) ((demo_one n)\<lparr>mmap_script := []\<rparr>)" by code_simp
  then show "tss_no_retire (Suc (Suc (Suc n))) ((demo_one n)\<lparr>mmap_script := []\<rparr>)" .
qed

lemma demo_config_ok: "config_ok demo_config"
  unfolding config_ok_def by (intro conjI disjI2 exI [of _ 0]) (code_simp, code_simp, code_simp, simp, simp add: demo_config_def)

lemma demo_run_one: "tss_run (Suc (Suc (Suc n))) (\<lambda>x. False) True \<lparr>w_tss = demo_one n, w_caches = [] @ jfs_tss_cache_init # [], w_held = [10224]\<rparr>"
proof -
  have "config_ok demo_config" by (rule demo_config_ok)
  from tss_run.start [OF demo_created this, of "\<lambda>x. False" "Suc (Suc (Suc n))"]
  have "tss_run (Suc (Suc (Suc n))) (\<lambda>x. False) True \<lparr>w_tss = demo_start, w_caches = [] @ jfs_tss_cache_init # [], w_held = []\<rparr>"
    using tss_run.cache by (force simp: demo_memory_def)
  moreover have "honest (slab_size (slab_conf demo_start)) [SysOk 8192] (mapped demo_start)"
    unfolding demo_alloc_one(3,4) by (simp add: fresh_block_def)
  ultimately show ?thesis using tss_run.alloc [OF _ _ demo_alloc_one(1)] demo_alloc_one(2) by fastforce
qed

lemma demo_run_two: "tss_run (Suc (Suc (Suc n))) (\<lambda>x. False) True \<lparr>w_tss = demo_two n, w_caches = [] @ jfs_tss_cache_init # [], w_held = [8224, 10224]\<rparr>"
  using tss_run.alloc [OF demo_run_one _ demo_alloc_two(1)] demo_alloc_two(2) by fastforce

lemma demo_fuel: "2 ^ 64 \<le> Suc (Suc (Suc (2 ^ 64)))"
  by simp

theorem tss_held_objects_witness:
  "\<exists>w. tss_run (Suc (Suc (Suc (2 ^ 64)))) (\<lambda>x. False) True w \<and> w_held w = [8224, 10224] \<and> distinct (w_held w) \<and>
     unat (obj_align (slab_conf (w_tss w))) dvd unat (8224 :: addr)"
  using tss_held_objects [OF demo_run_two [of "2 ^ 64"] demo_fuel] demo_run_two [of "2 ^ 64"]
  by (intro exI [of _ "\<lparr>w_tss = demo_two (2 ^ 64), w_caches = [] @ jfs_tss_cache_init # [], w_held = [8224, 10224]\<rparr>"]) simp

theorem tss_alloc_returns_witness:
  "\<exists>p c' s' e. jfs_tss_alloc (Suc (Suc (Suc (2 ^ 64)))) jfs_tss_cache_init ((demo_two (2 ^ 64))\<lparr>mmap_script := [SysErr (E_OTHER 12)]\<rparr>) JFS_OK = Some (p, c', s', e) \<and>
     (e = JFS_OK \<and> p \<noteq> NULL \<and> p \<notin> {8224, 10224} \<or> e = JFS_ERR_SYS \<and> p = NULL \<and> c' = jfs_tss_cache_init)"
  using tss_alloc_returns [OF demo_run_two [of "2 ^ 64"] _ demo_fuel, of "[SysErr (E_OTHER 12)]"] by simp



lemma demo_one_inv: "\<exists>A F. tss_inv (demo_one n) A [] F \<and> counts_ok (demo_one n) A [] \<and> \<not> lock (demo_one n)" if "2 ^ 64 \<le> n"
proof -
  have "2 ^ 64 \<le> Suc (Suc (Suc n))" using that by simp
  from run_inv [OF demo_run_one this] show ?thesis unfolding world_inv_def by (auto simp: counts_ok_def)
qed

theorem tss_retire_slabs_exact_witness:
  "\<exists>s' A F R'. tss_allocator_retire_slabs (2 ^ 64) (demo_one (2 ^ 64)) = Some s' \<and>
     tss_inv s' (filter (\<lambda>b. retire_threshold (slab_conf (demo_one (2 ^ 64))) < used_count (demo_one (2 ^ 64)) b) A) R' F"
proof -
  obtain A F where "tss_inv (demo_one (2 ^ 64)) A [] F" "counts_ok (demo_one (2 ^ 64)) A []" using demo_one_inv [OF order_refl] by blast
  from tss_retire_slabs_exact [OF this(1) order_refl this(2)] show ?thesis by blast
qed

theorem tss_destroy_unmaps_active_witness:
  "\<exists>s'. jfs_tss_allocator_destroy (2 ^ 64) (demo_one (2 ^ 64)) = Some s' \<and> \<not> lock s'"
proof -
  obtain A F where "tss_inv (demo_one (2 ^ 64)) A [] F" "\<not> lock (demo_one (2 ^ 64))" using demo_one_inv [OF order_refl] by blast
  from tss_destroy_unmaps_active [OF this order_refl] show ?thesis by blast
qed

text \<open>The object goes back, the cache gives it up, and a retirement drops the slab.\<close>

definition demo_retired :: "nat \<Rightarrow> tss option" where
  "demo_retired n = do {
     (c, s) \<leftarrow> jfs_tss_free (Suc (Suc (Suc n))) jfs_tss_cache_init 10224 (demo_one n);
     (c, s) \<leftarrow> jfs_tss_cache_full_release (Suc (Suc (Suc n))) c s;
     jfs_tss_allocator_explicit_retire (Suc (Suc (Suc n))) s
   }"

lemma demo_run_retired:
  assumes n: "2 ^ 64 \<le> n"
  shows "\<exists>s. demo_retired n = Some s \<and> tss_run (Suc (Suc (Suc n))) (\<lambda>x. False) False \<lparr>w_tss = s, w_caches = [] @ jfs_tss_cache_init # [], w_held = []\<rparr>"
proof -
  have fuel: "2 ^ 64 \<le> Suc (Suc (Suc n))" using n by simp
  have w1: "world_inv (\<lambda>x. False) (demo_one n) ([] @ jfs_tss_cache_init # []) [10224] True" using run_inv [OF demo_run_one fuel] by simp
  obtain c s where f: "jfs_tss_free (Suc (Suc (Suc n))) jfs_tss_cache_init 10224 (demo_one n) = Some (c, s)"
    using world_free [OF w1 _ fuel, of 10224] by auto
  note r1 = tss_run.free [OF demo_run_one _ f]
  then have w2: "world_inv (\<lambda>x. False) s ([] @ c # []) [] True" using run_inv [OF r1 fuel] by simp
  obtain s1 where g: "jfs_tss_cache_full_release (Suc (Suc (Suc n))) c s = Some (jfs_tss_cache_init, s1)"
    using world_full_release [OF w2 fuel] by blast
  note r2 = tss_run.full_release [OF r1 g]
  then have w3: "world_inv (\<lambda>x. False) s1 ([] @ jfs_tss_cache_init # []) [] True" using run_inv [OF r2 fuel] by simp
  obtain s2 where h: "jfs_tss_allocator_explicit_retire (Suc (Suc (Suc n))) s1 = Some s2" using world_retire [OF w3 fuel] by blast
  from tss_run.retire [OF r2 h] f g h show ?thesis by (simp add: demo_retired_def)
qed

theorem tss_destroy_returns_memory_witness:
  "\<exists>s s'. tss_run (Suc (Suc (Suc (2 ^ 64)))) (\<lambda>x. False) False \<lparr>w_tss = s, w_caches = [jfs_tss_cache_init], w_held = []\<rparr> \<and>
     jfs_tss_allocator_destroy (Suc (Suc (Suc (2 ^ 64)))) s = Some s' \<and> mapped s' = (\<lambda>x. False)"
proof -
  obtain s where "tss_run (Suc (Suc (Suc (2 ^ 64)))) (\<lambda>x. False) False \<lparr>w_tss = s, w_caches = [jfs_tss_cache_init], w_held = []\<rparr>"
    using demo_run_retired [OF order_refl] by auto
  from tss_destroy_returns_memory [OF this] this show ?thesis by (auto simp: jfs_tss_cache_init_def)
qed

lemma demo_retired_aborts:
  "(do { s \<leftarrow> demo_retired n; jfs_tss_alloc (Suc (Suc (Suc n))) jfs_tss_cache_init (s\<lparr>mmap_script := rs\<rparr>) JFS_OK }) = None"
  by code_simp

text \<open>C35. After an object was allocated, freed and its cache released, a retirement unmaps the only slab but
  leaves it counted; the next allocation then finds no object, adds no slab, and fails the assertion on the
  batch, whatever the kernel would have answered.\<close>

theorem tss_alloc_aborts_after_retire:
  "\<exists>s. tss_run (Suc (Suc (Suc (2 ^ 64)))) (\<lambda>x. False) False \<lparr>w_tss = s, w_caches = [jfs_tss_cache_init], w_held = []\<rparr> \<and>
     (\<forall>rs. jfs_tss_alloc (Suc (Suc (Suc (2 ^ 64)))) jfs_tss_cache_init (s\<lparr>mmap_script := rs\<rparr>) JFS_OK = None)"
proof -
  obtain s where s: "demo_retired (2 ^ 64) = Some s"
      "tss_run (Suc (Suc (Suc (2 ^ 64)))) (\<lambda>x. False) False \<lparr>w_tss = s, w_caches = [] @ jfs_tss_cache_init # [], w_held = []\<rparr>"
    using demo_run_retired [OF order_refl] by blast
  then show ?thesis using demo_retired_aborts [of "2 ^ 64"] by (intro exI [of _ s]) (simp only: bind.bind_lunit append_Nil simp_thms)
qed

text \<open>The cache of the small allocator after its object came back and it was refreshed.\<close>

definition demo_refreshed :: "nat \<Rightarrow> (jfs_tss_cache \<times> tss \<times> jfs_err_t) option" where
  "demo_refreshed n = do {
     (c, s) \<leftarrow> jfs_tss_free (Suc (Suc (Suc n))) jfs_tss_cache_init 10224 (demo_one n);
     jfs_tss_cache_refresh (Suc (Suc (Suc n))) c s JFS_OK
   }"

text \<open>Refreshing an empty cache fails an assertion. Refreshing a cache with one object adds the acquired
  objects to a count that was not reset: the cache counts two objects and holds one, so the second
  allocation from it follows a null pointer.\<close>

theorem tss_refresh_breaks_cache:
  "jfs_tss_cache_refresh fuel jfs_tss_cache_init s err = None \<and>
   map_option (\<lambda>(c, s, e). (cache_count c, e)) (demo_refreshed n) = Some (2, JFS_OK) \<and>
   map_option (\<lambda>(p, c, s, e). (p, cache_head c, cache_count c, e)) (do { (c, s, e) \<leftarrow> demo_refreshed n; jfs_tss_alloc (Suc (Suc (Suc n))) c s e }) =
     Some (10224, NULL, 1, JFS_OK) \<and>
   (do { (c, s, e) \<leftarrow> demo_refreshed n; (p, c, s, e) \<leftarrow> jfs_tss_alloc (Suc (Suc (Suc n))) c s e; jfs_tss_alloc (Suc (Suc (Suc n))) c s e }) = None"
proof (intro conjI)
  show "jfs_tss_cache_refresh fuel jfs_tss_cache_init s err = None"
    by (simp add: jfs_tss_cache_refresh_def jfs_tss_cache_init_def tss_batch_load_def tss_batch_init_def)
qed code_simp+

end
