(* ===== verification/Jfs_Test_Tss.thy ===== *)
theory Jfs_Test_Tss
  imports Jfs_Tss_Theorems
begin

text \<open>
  The allocator test of \<open>src/src/test/test.c\<close>: \<open>tss_test\<close> creates an allocator, ten threads run
  \<open>tss_test_thread\<close> on it, each with its own cache, and when all have ended the slabs are retired and the
  allocator is destroyed. A thread is a program counter and its local variables; \<open>test_thread_step\<close> is the
  code between two points where another thread may run: every call into the allocator holds its lock,
  so it is one step, and so is each access to an object. The runs of \<open>tss_test_run\<close> interleave the steps
  of the threads in every order, with any answers of the kernel. The number of objects \<open>n\<close>
  and the configuration are parameters; the code has \<open>NUMBER_OF_THING\<close> and \<open>test_config\<close>, which is well formed
  (\<open>test_config_ok\<close>). The only field \<open>pt\<close> of \<open>struct thing\<close> is the word at the address of the object,
  which the allocator uses as its link while the object is free (\<open>obj_next\<close>). The test names the
  configuration fields \<open>cache_acquire_amount\<close> and \<open>cache_release_amount\<close>; they are read as \<open>cache_acquire\<close>
  and \<open>cache_release\<close> of the header.
\<close>

section \<open>Threads that use the allocator\<close>

definition NUMBER_OF_THING :: nat where
  "NUMBER_OF_THING = 1000000"

definition NUMBER_OF_THREADS :: nat where
  "NUMBER_OF_THREADS = 10"

definition test_config :: jfs_tss_allocator_config where
  "test_config = \<lparr>cfg_obj_size = 8, cfg_obj_align = 8, cfg_retire_threshold = 8, cfg_percent_to_retire = 0,
     cfg_pages_per_slab = 64, cfg_cache_cap = 1028, cfg_cache_acquire = 1028, cfg_cache_release = 1028\<rparr>"

text \<open>Where a thread stands: before the allocation of the object \<open>length th_array\<close>, before the store into the object it got,
  before the comparison of object \<open>i\<close> and before it is freed, both with \<open>not_correct\<close>, at the end, or after the early return.\<close>

datatype test_pc = Filling | Storing addr | Comparing nat bool | Freeing nat bool | Ended bool | Failed

record test_thread =
  th_cache :: jfs_tss_cache
  th_pt :: size_t
  th_array :: "addr list"
  th_pc :: test_pc

definition test_thread_start :: "size_t \<Rightarrow> test_thread" where
  "test_thread_start pt = \<lparr>th_cache = jfs_tss_cache_init, th_pt = pt, th_array = [], th_pc = Filling\<rparr>"

definition test_thread_step :: "nat \<Rightarrow> nat \<Rightarrow> addr sys list \<Rightarrow> test_thread \<Rightarrow> tss \<Rightarrow> (test_thread \<times> tss) option" where
  "test_thread_step n fuel rs th s =
     (case th_pc th of
        Filling \<Rightarrow>
          if length (th_array th) < n then do {
            (p, c, s, e) \<leftarrow> jfs_tss_alloc fuel (th_cache th) (s\<lparr>mmap_script := rs\<rparr>) JFS_OK;
            Some (th\<lparr>th_cache := c, th_pc := (if e \<noteq> JFS_OK then Failed else Storing p)\<rparr>, s)
          } else Some (th\<lparr>th_pc := Comparing 0 False\<rparr>, s)
      | Storing p \<Rightarrow> do {
          s \<leftarrow> set_next s p (th_pt th + of_nat (length (th_array th)));
          Some (th\<lparr>th_array := th_array th @ [p], th_pc := Filling\<rparr>, s)
        }
      | Comparing i not_correct \<Rightarrow>
          if i < n then do {
            not_correct \<leftarrow> (if not_correct then Some True
              else do { v \<leftarrow> get_next s (th_array th ! i); Some (v \<noteq> th_pt th + of_nat i) });
            Some (th\<lparr>th_pc := Freeing i not_correct\<rparr>, s)
          } else do {
            (c, s) \<leftarrow> jfs_tss_cache_full_release fuel (th_cache th) s;
            Some (th\<lparr>th_cache := c, th_pc := Ended not_correct\<rparr>, s)
          }
      | Freeing i not_correct \<Rightarrow> do {
          (c, s) \<leftarrow> jfs_tss_free fuel (th_cache th) (th_array th ! i) s;
          Some (th\<lparr>th_cache := c, th_pc := Comparing (Suc i) not_correct\<rparr>, s)
        }
      | _ \<Rightarrow> Some (th, s))"

definition allocates :: "nat \<Rightarrow> test_thread \<Rightarrow> bool" where
  "allocates n th \<longleftrightarrow> th_pc th = Filling \<and> length (th_array th) < n"

inductive tss_test_run :: "nat \<Rightarrow> jfs_tss_allocator_config \<Rightarrow> nat \<Rightarrow> tss \<Rightarrow> bool \<Rightarrow> tss \<Rightarrow> test_thread list \<Rightarrow> bool" for n config fuel s0 where
  create: "jfs_tss_allocator_create (Some ()) s0 config JFS_OK = Some (a, s, JFS_OK) \<Longrightarrow> config_ok config \<Longrightarrow> tss_test_run n config fuel s0 True s []"
| spawn: "tss_test_run n config fuel s0 q s ths \<Longrightarrow> length ths < NUMBER_OF_THREADS \<Longrightarrow> tss_test_run n config fuel s0 q s (test_thread_start pt # ths)"
| step: "tss_test_run n config fuel s0 q s (us @ th # vs) \<Longrightarrow> honest (slab_size (slab_conf s)) rs (mapped s) \<Longrightarrow>
    test_thread_step n fuel rs th s = Some (th', s') \<Longrightarrow>
    tss_test_run n config fuel s0 (q \<and> (allocates n th \<longrightarrow> cache_count (th_cache th) \<noteq> 0 \<or> tss_no_retire fuel (s\<lparr>mmap_script := rs\<rparr>)))
      s' (us @ th' # vs)"

section \<open>The invariant\<close>

definition th_held :: "test_thread \<Rightarrow> addr list" where
  "th_held th = (case th_pc th of Storing p \<Rightarrow> p # th_array th | Comparing i b \<Rightarrow> drop i (th_array th) | Freeing i b \<Rightarrow> drop i (th_array th)
     | Ended b \<Rightarrow> [] | _ \<Rightarrow> th_array th)"

definition th_from :: "test_thread \<Rightarrow> nat" where
  "th_from th = (case th_pc th of Comparing i b \<Rightarrow> i | Freeing i b \<Rightarrow> i | Ended b \<Rightarrow> length (th_array th) | _ \<Rightarrow> 0)"

definition th_stored :: "tss \<Rightarrow> test_thread \<Rightarrow> bool" where
  "th_stored s th \<longleftrightarrow> (\<forall>i. th_from th \<le> i \<and> i < length (th_array th) \<longrightarrow> obj_next s (th_array th ! i) = th_pt th + of_nat i)"

definition th_pc_ok :: "nat \<Rightarrow> test_thread \<Rightarrow> bool" where
  "th_pc_ok n th \<longleftrightarrow> (case th_pc th of Comparing i b \<Rightarrow> \<not> b \<and> length (th_array th) = n \<and> i \<le> n
     | Freeing i b \<Rightarrow> \<not> b \<and> length (th_array th) = n \<and> i < n
     | Ended b \<Rightarrow> \<not> b \<and> th_cache th = jfs_tss_cache_init | Storing p \<Rightarrow> length (th_array th) < n | _ \<Rightarrow> length (th_array th) \<le> n)"

definition test_inv :: "nat \<Rightarrow> nat \<Rightarrow> (addr \<Rightarrow> bool) \<Rightarrow> bool \<Rightarrow> tss \<Rightarrow> test_thread list \<Rightarrow> bool" where
  "test_inv n fuel M q s ths \<longleftrightarrow> (\<exists>H. tss_run fuel M q \<lparr>w_tss = s, w_caches = map th_cache ths, w_held = H\<rparr> \<and>
     mset H = mset (concat (map th_held ths))) \<and> (\<forall>th\<in>set ths. th_stored s th \<and> th_pc_ok n th)"

lemma world_valid:
  assumes "world_inv M s cs H q" and "p \<in> set H"
  shows "valid_ptr s p"
proof -
  obtain A R F Cs where "tss_inv s A R F" "set (H @ concat Cs) = outs s (set A \<union> set R) F" using assms(1) unfolding world_inv_def by blast
  moreover from this assms(2) have "p \<in> outs s (set A \<union> set R) F" by auto
  ultimately show ?thesis using outs_valid by blast
qed

lemma stored_held:
  assumes "th_from th \<le> i" and "i < length (th_array th)"
  shows "th_array th ! i \<in> set (th_held th)"
proof -
  have "th_array th ! i = drop (th_from th) (th_array th) ! (i - th_from th)" using assms by simp
  then have "th_array th ! i \<in> set (drop (th_from th) (th_array th))" using assms by (metis diff_less_mono length_drop nth_mem)
  then show ?thesis using assms by (auto simp: th_from_def th_held_def split: test_pc.splits)
qed

lemma stored_frame: "th_stored s th \<Longrightarrow> (\<And>x. x \<in> set (th_held th) \<Longrightarrow> obj_next s' x = obj_next s x) \<Longrightarrow> th_stored s' th"
  using stored_held by (fastforce simp: th_stored_def)

lemma test_invI:
  assumes old: "\<forall>t\<in>set (us @ vs). th_stored s t \<and> th_pc_ok n t" and run: "tss_run fuel M q \<lparr>w_tss = s', w_caches = map th_cache (us @ th' # vs), w_held = H'\<rparr>"
    and H: "mset H' = mset (th_held th' @ concat (map th_held (us @ vs)))"
    and fr: "\<And>x. x \<in> set (concat (map th_held (us @ vs))) \<Longrightarrow> obj_next s' x = obj_next s x"
    and new: "th_stored s' th'" "th_pc_ok n th'"
  shows "test_inv n fuel M q s' (us @ th' # vs)"
proof -
  have "th_stored s' t" if "t \<in> set (us @ vs)" for t
    by (rule stored_frame [of s]) (use old fr that in auto)
  then show ?thesis unfolding test_inv_def using run H old new by (intro conjI exI [of _ H']) auto
qed

text \<open>What the invariant gives of one thread \<open>th\<close> and the others; \<open>H\<close> are the objects all of them hold.\<close>

definition test_at ::
  "nat \<Rightarrow> nat \<Rightarrow> (addr \<Rightarrow> bool) \<Rightarrow> bool \<Rightarrow> tss \<Rightarrow> test_thread list \<Rightarrow> test_thread \<Rightarrow> test_thread list \<Rightarrow> addr list \<Rightarrow> bool" where
  "test_at n fuel M q s us th vs H \<longleftrightarrow>
     tss_run fuel M q \<lparr>w_tss = s, w_caches = map th_cache us @ th_cache th # map th_cache vs, w_held = H\<rparr> \<and>
     world_inv M s (map th_cache us @ th_cache th # map th_cache vs) H q \<and>
     mset H = mset (th_held th @ concat (map th_held (us @ vs))) \<and> distinct (th_held th @ concat (map th_held (us @ vs))) \<and>
     set H = set (th_held th) \<union> set (concat (map th_held (us @ vs))) \<and>
     (\<forall>t\<in>set (us @ vs). th_stored s t \<and> th_pc_ok n t) \<and> th_stored s th \<and> th_pc_ok n th"

lemma test_atD:
  assumes "test_at n fuel M q s us th vs H"
  shows "tss_run fuel M q \<lparr>w_tss = s, w_caches = map th_cache us @ th_cache th # map th_cache vs, w_held = H\<rparr>"
    "world_inv M s (map th_cache us @ th_cache th # map th_cache vs) H q"
    "mset H = mset (th_held th @ concat (map th_held (us @ vs)))" "distinct (th_held th @ concat (map th_held (us @ vs)))"
    "set H = set (th_held th) \<union> set (concat (map th_held (us @ vs)))"
    "\<forall>t\<in>set (us @ vs). th_stored s t \<and> th_pc_ok n t" "th_stored s th" "th_pc_ok n th"
  using assms unfolding test_at_def by blast+

lemma test_atI:
  assumes "test_inv n fuel M q s (us @ th # vs)" and fuel: "2 ^ 64 \<le> fuel"
  shows "\<exists>H. test_at n fuel M q s us th vs H"
proof -
  obtain H where H: "tss_run fuel M q \<lparr>w_tss = s, w_caches = map th_cache us @ th_cache th # map th_cache vs, w_held = H\<rparr>"
      "mset H = mset (th_held th @ concat (map th_held (us @ vs)))" using assms(1) by (auto simp: test_inv_def)
  have w: "world_inv M s (map th_cache us @ th_cache th # map th_cache vs) H q" using run_inv [OF H(1) fuel] by simp
  then have "distinct H" by (auto simp: world_inv_def)
  then have "distinct (th_held th @ concat (map th_held (us @ vs)))" using H(2) mset_eq_imp_distinct_iff by blast
  moreover have "set H = set (th_held th) \<union> set (concat (map th_held (us @ vs)))" using mset_eq_setD [OF H(2)] by simp
  ultimately have "test_at n fuel M q s us th vs H" unfolding test_at_def using H w assms(1) by (auto simp: test_inv_def)
  then show ?thesis by blast
qed

lemma step_filling:
  assumes inv: "test_inv n fuel M q s (us @ th # vs)" and fuel: "2 ^ 64 \<le> fuel" and hon: "honest (slab_size (slab_conf s)) rs (mapped s)"
    and pc: "th_pc th = Filling" and run: "test_thread_step n fuel rs th s = Some (th', s')"
  shows "test_inv n fuel M (q \<and> (allocates n th \<longrightarrow> cache_count (th_cache th) \<noteq> 0 \<or> tss_no_retire fuel (s\<lparr>mmap_script := rs\<rparr>))) s' (us @ th' # vs)"
proof -
  obtain H where "test_at n fuel M q s us th vs H" using test_atI [OF inv fuel] by blast
  note H = test_atD [OF this]
  show ?thesis
  proof (cases "length (th_array th) < n")
    case False
    then have th': "th' = th\<lparr>th_pc := Comparing 0 False\<rparr>" "s' = s" using run pc by (auto simp: test_thread_step_def)
    have "tss_run fuel M q \<lparr>w_tss = s', w_caches = map th_cache (us @ th' # vs), w_held = H\<rparr>" using H(1) th' by simp
    then show ?thesis using H False th' pc
      by (intro test_invI [where s = s and H' = H]) (auto simp: allocates_def th_stored_def th_pc_ok_def th_from_def th_held_def)
  next
    case True
    then obtain p c e where a: "jfs_tss_alloc fuel (th_cache th) (s\<lparr>mmap_script := rs\<rparr>) JFS_OK = Some (p, c, s', e)"
        "th' = th\<lparr>th_cache := c, th_pc := (if e \<noteq> JFS_OK then Failed else Storing p)\<rparr>"
      using run pc by (auto simp: test_thread_step_def bind_eq_Some_conv)
    have w: "frame H s s'" "e = JFS_OK \<and> p \<noteq> NULL \<or> e = JFS_ERR_SYS \<and> p = NULL"
      using world_alloc [OF H(2) hon fuel] a(1) by auto
    have al: "allocates n th" using True pc by (simp add: allocates_def)
    have "tss_run fuel M (q \<and> (cache_count (th_cache th) \<noteq> 0 \<or> tss_no_retire fuel (s\<lparr>mmap_script := rs\<rparr>)))
        \<lparr>w_tss = s', w_caches = map th_cache (us @ th' # vs), w_held = (if p = NULL then H else p # H)\<rparr>"
      using tss_run.alloc [OF H(1) hon a(1)] a(2) by simp
    moreover have "th_stored s' th'" using stored_frame [OF H(7), of s'] w(1) H(5) a(2) pc
      by (auto simp: th_stored_def th_from_def frame_def)
    ultimately show ?thesis using H(3,5,6,8) w a(2) pc al True
      by (intro test_invI [where s = s and H' = "if p = NULL then H else p # H"]) (auto simp: th_pc_ok_def th_held_def frame_def)
  qed
qed

lemma step_storing:
  assumes inv: "test_inv n fuel M q s (us @ th # vs)" and fuel: "2 ^ 64 \<le> fuel"
    and pc: "th_pc th = Storing p" and run: "test_thread_step n fuel rs th s = Some (th', s')"
  shows "test_inv n fuel M q s' (us @ th' # vs)"
proof -
  obtain H where "test_at n fuel M q s us th vs H" using test_atI [OF inv fuel] by blast
  note H = test_atD [OF this]
  let ?v = "th_pt th + of_nat (length (th_array th))"
  have r: "s' = s\<lparr>obj_next := (obj_next s)(p := ?v)\<rparr>" "th' = th\<lparr>th_array := th_array th @ [p], th_pc := Filling\<rparr>"
    using run pc by (auto simp: test_thread_step_def set_next_def bind_eq_Some_conv c_assert_def split: if_splits)
  have held: "th_held th = p # th_array th" using pc by (simp add: th_held_def)
  then have p: "p \<in> set H" "p \<notin> set (th_array th)" "p \<notin> set (concat (map th_held (us @ vs)))" using H(4,5) by auto
  have st: "th_stored s' th'" using H(7) p(2) r pc by (auto simp: th_stored_def th_from_def nth_append less_Suc_eq nth_mem)
  have "tss_run fuel M q \<lparr>w_tss = s', w_caches = map th_cache (us @ th' # vs), w_held = H\<rparr>"
    using tss_run.client [OF H(1) p(1)] r by simp
  then show ?thesis using H(3,6,8) st p(3) r held pc
    by (intro test_invI [where s = s and H' = H]) (auto simp: th_pc_ok_def th_held_def)
qed

lemma step_comparing:
  assumes inv: "test_inv n fuel M q s (us @ th # vs)" and fuel: "2 ^ 64 \<le> fuel"
    and pc: "th_pc th = Comparing i b" and run: "test_thread_step n fuel rs th s = Some (th', s')"
  shows "test_inv n fuel M q s' (us @ th' # vs)"
proof -
  obtain H where "test_at n fuel M q s us th vs H" using test_atI [OF inv fuel] by blast
  note H = test_atD [OF this]
  have ok: "\<not> b" "length (th_array th) = n" "i \<le> n" using H(8) pc by (simp_all add: th_pc_ok_def)
  show ?thesis
  proof (cases "i < n")
    case True
    have "obj_next s (th_array th ! i) = th_pt th + of_nat i" using H(7) True ok pc by (simp add: th_stored_def th_from_def)
    then have th': "th' = th\<lparr>th_pc := Freeing i False\<rparr>" "s' = s"
      using run pc True ok by (auto simp: test_thread_step_def get_next_def bind_eq_Some_conv c_assert_def split: if_splits)
    have "tss_run fuel M q \<lparr>w_tss = s', w_caches = map th_cache (us @ th' # vs), w_held = H\<rparr>" using H(1) th' by simp
    then show ?thesis using H True th' pc ok
      by (intro test_invI [where s = s and H' = H]) (auto simp: th_stored_def th_pc_ok_def th_from_def th_held_def)
  next
    case False
    then obtain c where r: "jfs_tss_cache_full_release fuel (th_cache th) s = Some (c, s')" "th' = th\<lparr>th_cache := c, th_pc := Ended b\<rparr>"
      using run pc by (auto simp: test_thread_step_def bind_eq_Some_conv)
    have w: "frame H s s'" "c = jfs_tss_cache_init" using world_full_release [OF H(2) fuel] r(1) by auto
    have "tss_run fuel M q \<lparr>w_tss = s', w_caches = map th_cache (us @ th' # vs), w_held = H\<rparr>"
      using tss_run.full_release [OF H(1) r(1)] r(2) by simp
    then show ?thesis using H False r(2) pc ok w
      by (intro test_invI [where s = s and H' = H]) (auto simp: th_stored_def th_pc_ok_def th_from_def th_held_def frame_def)
  qed
qed

lemma step_freeing:
  assumes inv: "test_inv n fuel M q s (us @ th # vs)" and fuel: "2 ^ 64 \<le> fuel"
    and pc: "th_pc th = Freeing i b" and run: "test_thread_step n fuel rs th s = Some (th', s')"
  shows "test_inv n fuel M q s' (us @ th' # vs)"
proof -
  obtain H where "test_at n fuel M q s us th vs H" using test_atI [OF inv fuel] by blast
  note H = test_atD [OF this]
  have ok: "\<not> b" "length (th_array th) = n" "i < n" using H(8) pc by (simp_all add: th_pc_ok_def)
  let ?p = "th_array th ! i"
  have held: "th_held th = ?p # drop (Suc i) (th_array th)" using pc ok by (simp add: th_held_def Cons_nth_drop_Suc)
  then have p: "?p \<in> set H" using H(5) by simp
  obtain c where r: "jfs_tss_free fuel (th_cache th) ?p s = Some (c, s')" "th' = th\<lparr>th_cache := c, th_pc := Comparing (Suc i) b\<rparr>"
    using run pc by (auto simp: test_thread_step_def bind_eq_Some_conv)
  have fr: "frame (remove1 ?p H) s s'" using world_free [OF H(2) p fuel] r(1) by auto
  have m: "mset (remove1 ?p H) = mset (th_held th' @ concat (map th_held (us @ vs)))"
    using H(3) held r(2) by (simp add: th_held_def)
  have sub: "set (remove1 ?p H) = set (th_held th') \<union> set (concat (map th_held (us @ vs)))" using mset_eq_setD [OF m] by simp
  have "tss_run fuel M q \<lparr>w_tss = s', w_caches = map th_cache (us @ th' # vs), w_held = remove1 ?p H\<rparr>"
    using tss_run.free [OF H(1) p r(1)] r(2) by simp
  moreover have "th_stored s th'" using H(7) r(2) pc by (auto simp: th_stored_def th_from_def)
  then have "th_stored s' th'" by (rule stored_frame) (use fr sub in \<open>auto simp: frame_def\<close>)
  ultimately show ?thesis using H(6) m fr sub ok r(2)
    by (intro test_invI [where s = s and H' = "remove1 ?p H"]) (auto simp: th_pc_ok_def frame_def)
qed

lemma test_created: "\<exists>s. jfs_tss_allocator_create (Some ()) s0 test_config JFS_OK = Some (Some (), s, JFS_OK)"
  by (simp add: jfs_tss_allocator_create_def test_config_def tss_slab_config_init_def tss_cache_config_init_def or_default_def
      jfs_malloc_def Let_def)

lemma test_config_ok: "config_ok test_config"
  unfolding config_ok_def
  by (intro conjI disjI2 exI [of _ 6]) (code_simp, code_simp, code_simp, simp, simp add: test_config_def)

lemma test_run_inv:
  assumes "tss_test_run n config fuel s0 q s ths" and fuel: "2 ^ 64 \<le> fuel"
  shows "test_inv n fuel (mapped s0) q s ths"
  using assms(1)
proof induction
  case (create a s)
  then show ?case using tss_run.start [OF create refl, of fuel] by (auto simp: test_inv_def)
next
  case (spawn q s ths pt)
  then show ?case using tss_run.cache by (fastforce simp: test_inv_def test_thread_start_def th_held_def th_stored_def th_pc_ok_def)
next
  case (step q s us th vs rs th' s')
  show ?case
  proof (cases "th_pc th")
    case Filling
    then show ?thesis by (rule step_filling [OF step.IH fuel step.hyps(2) _ step.hyps(3)])
  next
    case (Storing p)
    then show ?thesis using step_storing [OF step.IH fuel _ step.hyps(3)] by (simp add: allocates_def)
  next
    case (Comparing i b)
    then show ?thesis using step_comparing [OF step.IH fuel _ step.hyps(3)] by (simp add: allocates_def)
  next
    case (Freeing i b)
    then show ?thesis using step_freeing [OF step.IH fuel _ step.hyps(3)] by (simp add: allocates_def)
  qed (use step in \<open>auto simp: test_thread_step_def allocates_def\<close>)
qed

section \<open>Properties\<close>

lemma ended_ok: "th_pc_ok n th \<Longrightarrow> th_pc th = Ended b \<Longrightarrow> th_cache th = jfs_tss_cache_init \<and> \<not> b"
  by (simp add: th_pc_ok_def)

definition messed_up :: "test_thread \<Rightarrow> bool" where
  "messed_up th \<longleftrightarrow> (case th_pc th of Comparing i b \<Rightarrow> b | Freeing i b \<Rightarrow> b | Ended b \<Rightarrow> b | _ \<Rightarrow> False)"

text \<open>C9. No thread of the allocator test ever finds its array messed up. However the steps of the threads interleave and
  whatever the kernel answers, no two objects that the threads hold are the same, an object that a thread has
  written and not yet freed still holds the value it wrote, and so no thread ever sets \<open>not_correct\<close>.\<close>

theorem test_never_messed_up:
  assumes "tss_test_run n config fuel s0 q s ths" and "2 ^ 64 \<le> fuel"
  shows "(\<forall>th\<in>set ths. \<not> messed_up th) \<and> distinct (concat (map th_held ths)) \<and>
    (\<forall>th\<in>set ths. \<forall>i. th_from th \<le> i \<and> i < length (th_array th) \<longrightarrow> get_next s (th_array th ! i) = Some (th_pt th + of_nat i))"
proof -
  note inv = test_run_inv [OF assms]
  then obtain H where H: "tss_run fuel (mapped s0) q \<lparr>w_tss = s, w_caches = map th_cache ths, w_held = H\<rparr>"
    "mset H = mset (concat (map th_held ths))" and ok: "\<forall>th\<in>set ths. th_stored s th \<and> th_pc_ok n th" by (auto simp: test_inv_def)
  have w: "world_inv (mapped s0) s (map th_cache ths) H q" using run_inv [OF H(1) assms(2)] by simp
  have "get_next s (th_array th ! i) = Some (th_pt th + of_nat i)" if "th \<in> set ths" "th_from th \<le> i" "i < length (th_array th)" for th i
  proof -
    have "th_array th ! i \<in> set H" using stored_held [OF that(2,3)] that(1) mset_eq_setD [OF H(2)] by auto
    then have "valid_ptr s (th_array th ! i)" by (rule world_valid [OF w])
    then show ?thesis using ok that by (simp add: get_next_def th_stored_def)
  qed
  moreover have "distinct (concat (map th_held ths))" using w H(2) mset_eq_imp_distinct_iff by (auto simp: world_inv_def)
  moreover have "\<not> messed_up th" if "th \<in> set ths" for th
    using ok that by (cases "th_pc th") (auto simp: messed_up_def th_pc_ok_def)
  ultimately show ?thesis by blast
qed

definition th_todo :: "nat \<Rightarrow> test_thread \<Rightarrow> nat" where
  "th_todo n th = (case th_pc th of Filling \<Rightarrow> 2 * (n - length (th_array th)) + 2 * n + 2
     | Storing p \<Rightarrow> 2 * (n - length (th_array th)) + 2 * n + 1 | Comparing i b \<Rightarrow> 2 * (n - i) + 1 | Freeing i b \<Rightarrow> 2 * (n - i) | _ \<Rightarrow> 0)"

lemma todo_bound: "th_todo n th \<le> 4 * n + 2"
  by (auto simp: th_todo_def split: test_pc.splits)

lemma test_pc_ok: "tss_test_run n config fuel s0 q s [th] \<Longrightarrow> 2 ^ 64 \<le> fuel \<Longrightarrow> th_pc_ok n th"
  using test_run_inv by (fastforce simp: test_inv_def)

lemma test_thread_steps:
  assumes "tss_test_run n config fuel s0 q s (us @ th # vs)" and "2 ^ 64 \<le> fuel" and "honest (slab_size (slab_conf s)) rs (mapped s)"
    and "q \<or> \<not> allocates n th" and "th_todo n th \<noteq> 0"
  shows "\<exists>th' s'. test_thread_step n fuel rs th s = Some (th', s') \<and> th_todo n th' < th_todo n th"
proof -
  obtain H' where "test_at n fuel (mapped s0) q s us th vs H'" using test_atI [OF test_run_inv [OF assms(1,2)] assms(2)] by blast
  note H = test_atD(2,5,7,8) [OF this]
  note val = world_valid [OF H(1)]
  show ?thesis
  proof (cases "th_pc th")
    case Filling
    then show ?thesis using world_alloc [OF H(1) assms(3,2)] assms(4)
      by (auto simp: test_thread_step_def allocates_def th_todo_def split: option.splits)
  next
    case (Storing p)
    then have "valid_ptr s p" using val H(2) by (simp add: th_held_def)
    then show ?thesis using Storing H(4) by (auto simp: test_thread_step_def set_next_def th_todo_def th_pc_ok_def)
  next
    case (Comparing i b)
    show ?thesis
    proof (cases "i < n")
      case True
      then have "valid_ptr s (th_array th ! i)" using val H(2,4) Comparing stored_held [of th i] by (auto simp: th_pc_ok_def th_from_def)
      then show ?thesis using Comparing H(4) True by (auto simp: test_thread_step_def get_next_def th_todo_def th_pc_ok_def)
    next
      case False
      then show ?thesis using Comparing world_full_release [OF H(1) assms(2)] by (auto simp: test_thread_step_def th_todo_def)
    qed
  next
    case (Freeing i b)
    then have "th_array th ! i \<in> set H'" using H(2,4) stored_held [of th i] by (auto simp: th_pc_ok_def th_from_def)
    then show ?thesis using Freeing H(4) world_free [OF H(1) _ assms(2)] by (fastforce simp: test_thread_step_def th_todo_def th_pc_ok_def)
  qed (use assms(5) in \<open>auto simp: th_todo_def\<close>)
qed

text \<open>C21. No thread of the allocator test is ever stuck. In every reachable state, a thread that has not ended can make its next step, and
  \<open>th_todo\<close>, at most \<open>4 n + 2\<close>, decreases; so no call aborts, no access leaves memory and every thread ends after a bounded
  number of its steps. For an allocation this needs that no pass over the slabs dropped one before (\<open>q\<close>).\<close>

theorem test_thread_proceeds:
  assumes "tss_test_run n config fuel s0 q s (us @ th # vs)" and "2 ^ 64 \<le> fuel" and "honest (slab_size (slab_conf s)) rs (mapped s)"
    and "q \<or> \<not> allocates n th" and "th_todo n th \<noteq> 0"
  shows "th_todo n th \<le> 4 * n + 2 \<and> (\<exists>th' s'. test_thread_step n fuel rs th s = Some (th', s') \<and> th_todo n th' < th_todo n th)"
  using todo_bound test_thread_steps [OF assms] by blast

definition tss_test_finish :: "nat \<Rightarrow> tss \<Rightarrow> tss option" where
  "tss_test_finish fuel s = do { s \<leftarrow> jfs_tss_allocator_explicit_retire fuel s; jfs_tss_allocator_destroy fuel s }"

lemma retire_destroy_keeps:
  assumes w: "world_inv M s cs H q" and fuel: "2 ^ 64 \<le> fuel"
  shows "\<exists>s'. tss_test_finish fuel s = Some s' \<and> (\<forall>x. M x \<longrightarrow> mapped s' x)"
proof -
  obtain s1 where s1: "jfs_tss_allocator_explicit_retire fuel s = Some s1" "world_inv M s1 cs H False"
    using world_retire [OF w fuel] by blast
  then obtain A R F where i: "tss_inv s1 A R F" "\<not> lock s1" "elsewhere s1 (set A \<union> set R) = M" unfolding world_inv_def by blast
  from destroy_exact [OF i(1,2) fuel] s1(1) i(3) show ?thesis by (auto simp: tss_test_finish_def elsewhere_def)
qed

text \<open>C22. \<open>tss_test\<close> joins threads that have ended and threads that returned early because an allocation failed. When
  every thread has done one or the other, retiring and destroying the allocator succeed and unmap nothing that was mapped
  before it was created; and when no thread returned early, exactly those bytes are mapped that were mapped before. After an
  early return the objects of that thread were never freed, and slabs that hold them may stay mapped.\<close>

theorem test_returns_memory:
  assumes "tss_test_run n config fuel s0 q s ths" and "\<forall>th\<in>set ths. th_pc th = Failed \<or> (\<exists>b. th_pc th = Ended b)" and "2 ^ 64 \<le> fuel"
  shows "\<exists>s'. tss_test_finish fuel s = Some s' \<and> (\<forall>x. mapped s0 x \<longrightarrow> mapped s' x) \<and>
    ((\<forall>th\<in>set ths. th_pc th \<noteq> Failed) \<longrightarrow> mapped s' = mapped s0)"
proof -
  obtain H where H: "tss_run fuel (mapped s0) q \<lparr>w_tss = s, w_caches = map th_cache ths, w_held = H\<rparr>"
    "mset H = mset (concat (map th_held ths))" and ok: "\<forall>th\<in>set ths. th_pc_ok n th"
    using test_run_inv [OF assms(1,3)] by (auto simp: test_inv_def)
  have w: "world_inv (mapped s0) s (map th_cache ths) H q" using run_inv [OF H(1) assms(3)] by simp
  have "\<exists>s'. tss_test_finish fuel s = Some s' \<and> mapped s' = mapped s0" if ended: "\<forall>th\<in>set ths. th_pc th \<noteq> Failed"
  proof -
    have "concat (map th_held ths) = []" using assms(2) ended by (auto simp: th_held_def)
    then have "mset H = mset []" using H(2) by metis
    then have "H = []" by simp
    moreover have "\<forall>c\<in>set (map th_cache ths). cache_count c = 0"
      using ok assms(2) ended ended_ok [of n] by (fastforce simp: jfs_tss_cache_init_def)
    ultimately show ?thesis using tss_retire_destroy [OF _ _ assms(3)] w by (simp add: tss_test_finish_def)
  qed
  with retire_destroy_keeps [OF w assms(3)] show ?thesis by auto
qed

section \<open>A small test\<close>

text \<open>One thread with one object, on the small allocator of \<open>Jfs_Tss_Theorems\<close>.\<close>

abbreviation demo_fuel :: nat where
  "demo_fuel \<equiv> Suc (Suc (Suc (2 ^ 64)))"

definition demo_thread :: test_thread where
  "demo_thread = \<lparr>th_cache = jfs_tss_cache_init, th_pt = 5, th_array = [], th_pc = Storing 10224\<rparr>"

lemma demo_test_allocated: "tss_test_run 1 demo_config demo_fuel demo_memory True (demo_one (2 ^ 64)) [demo_thread]"
proof -
  have "config_ok demo_config" by (rule demo_config_ok)
  from tss_test_run.spawn [OF tss_test_run.create [OF demo_created this], of 1 demo_fuel 5]
  have r: "tss_test_run 1 demo_config demo_fuel demo_memory True demo_start ([] @ test_thread_start 5 # [])" by (simp add: NUMBER_OF_THREADS_def)
  have "honest (slab_size (slab_conf demo_start)) [SysOk 8192] (mapped demo_start)"
    unfolding demo_alloc_one(3,4) by (simp add: fresh_block_def)
  moreover have "test_thread_step 1 demo_fuel [SysOk 8192] (test_thread_start 5) demo_start = Some (demo_thread, demo_one (2 ^ 64))"
    using demo_alloc_one(1) [of "2 ^ 64"] by (simp add: test_thread_step_def test_thread_start_def demo_thread_def)
  ultimately show ?thesis using tss_test_run.step [OF r] demo_alloc_one(2) [of "2 ^ 64"] by fastforce
qed

lemma demo_test_next:
  assumes "tss_test_run 1 demo_config demo_fuel demo_memory True s [th]" and "\<not> allocates 1 th" and "th_todo 1 th \<noteq> 0"
  shows "\<exists>th' s'. test_thread_step 1 demo_fuel [] th s = Some (th', s') \<and> th_todo 1 th' < th_todo 1 th \<and>
    tss_test_run 1 demo_config demo_fuel demo_memory True s' [th']"
proof -
  have r: "tss_test_run 1 demo_config demo_fuel demo_memory True s ([] @ th # [])" using assms(1) by simp
  obtain th' s' where "test_thread_step 1 demo_fuel [] th s = Some (th', s')" "th_todo 1 th' < th_todo 1 th"
    using test_thread_steps [OF r _ _ _ assms(3), of "[]"] assms(2) by auto
  with tss_test_run.step [OF r _ this(1)] assms(2) show ?thesis by auto
qed

lemma demo_test_ended: "\<exists>s th b. tss_test_run 1 demo_config demo_fuel demo_memory True s [th] \<and> th_pc th = Ended b"
proof -
  have "\<exists>s th b. tss_test_run 1 demo_config demo_fuel demo_memory True s [th] \<and> th_pc th = Ended b"
    if "tss_test_run 1 demo_config demo_fuel demo_memory True s [th]" "th_array th \<noteq> [] \<or> th_pc th \<noteq> Filling" "th_pc th \<noteq> Failed" for s th
    using that
  proof (induction "th_todo 1 th" arbitrary: s th rule: less_induct)
    case less
    show ?case
    proof (cases "\<exists>b. th_pc th = Ended b")
      case False
      then have "th_todo 1 th \<noteq> 0" "\<not> allocates 1 th" using less.prems(2,3) test_pc_ok [OF less.prems(1)]
        by (cases "th_pc th"; auto simp: th_todo_def allocates_def th_pc_ok_def)+
      from demo_test_next [OF less.prems(1) this(2,1)] obtain th' s' where n: "test_thread_step 1 demo_fuel [] th s = Some (th', s')"
        "th_todo 1 th' < th_todo 1 th" "tss_test_run 1 demo_config demo_fuel demo_memory True s' [th']" by blast
      have "th_array th' \<noteq> [] \<or> th_pc th' \<noteq> Filling" "th_pc th' \<noteq> Failed"
        using n(1) less.prems(2,3) \<open>\<not> allocates 1 th\<close> False
        by (cases "th_pc th"; auto simp: test_thread_step_def allocates_def bind_eq_Some_conv split: if_splits)+
      then show ?thesis by (rule less.hyps [OF n(2,3)])
    qed (use less.prems(1) in auto)
  qed
  from this [OF demo_test_allocated] show ?thesis by (simp add: demo_thread_def)
qed

theorem test_never_messed_up_witness:
  "\<exists>s. tss_test_run 1 demo_config demo_fuel demo_memory True s [demo_thread] \<and> \<not> messed_up demo_thread \<and> distinct (th_held demo_thread)"
  using test_never_messed_up [OF demo_test_allocated] demo_test_allocated by auto

theorem test_thread_proceeds_witness:
  "\<exists>th' s'. test_thread_step 1 demo_fuel [] demo_thread (demo_one (2 ^ 64)) = Some (th', s') \<and> th_todo 1 th' < 5"
  using test_thread_proceeds [of 1 demo_config demo_fuel demo_memory True "demo_one (2 ^ 64)" "[]" demo_thread "[]" "[]"] demo_test_allocated
  by (simp add: demo_thread_def th_todo_def)

theorem test_returns_memory_witness:
  "\<exists>s s' th. tss_test_run 1 demo_config demo_fuel demo_memory True s [th] \<and> th_pc th = Ended False \<and>
     tss_test_finish demo_fuel s = Some s' \<and> mapped s' = (\<lambda>x. False)"
proof -
  obtain s th b where r: "tss_test_run 1 demo_config demo_fuel demo_memory True s [th]" "th_pc th = Ended b" using demo_test_ended by blast
  moreover from test_pc_ok [OF r(1)] r(2) have "\<not> b" by (auto simp: th_pc_ok_def)
  moreover from test_returns_memory [OF r(1)] r(2) obtain s' where "tss_test_finish demo_fuel s = Some s'" "mapped s' = mapped demo_memory" by auto
  ultimately show ?thesis by (auto simp: demo_memory_def)
qed

end
