(* ===== verification/Jfs_File_Walk.thy ===== *)
theory Jfs_File_Walk
  imports Jfs_File_Io
begin

text \<open>
  The file walker (\<open>src/src/modules/file_walk.c\<close>, \<open>src/src/include/file_walk.h\<close>): a walk keeps a
  stack of directory paths still to be read and the list of directories read so far; one
  step pops a path, reads that directory, pushes its subdirectories and records its files.

  An array obtained from \<open>malloc\<close> is a list of slots, \<open>None\<close> a slot that was never written; a
  null array is \<open>None\<close>. Reading an unwritten slot, an index outside the array and a null
  array are undefined in C: an operation that does so returns \<open>None\<close>. The world of a step is
  the allocator state together with the number of open directory streams. What the kernel
  answers to \<open>opendir\<close> and \<open>readdir\<close> is a function from path strings: an \<open>errno\<close>, or the
  entries \<open>readdir\<close> delivers with the value of \<open>errno\<close> when it returns null.
\<close>

section \<open>Data\<close>

datatype dirent_type = DT_REG | DT_DIR | DT_UNKNOWN | DT_OTHER nat

record dirent =
  d_name :: string
  d_type :: dirent_type
  d_ino :: nat

datatype jfs_fw_types_t = JFS_FW_REG | JFS_FW_DIR

record jfs_fw_file =
  file_type :: jfs_fw_types_t
  file_name :: jfs_fio_name
  file_inode :: nat

type_synonym 'a slots = "'a option list option"

record jfs_fw_dir =
  dir_path :: jfs_fio_path
  dir_files :: "jfs_fw_file slots"
  dir_file_count :: nat

record 'a fw_vector =
  vec_count :: nat
  vec_capacity :: nat
  vec_array :: "'a slots"

type_synonym fw_path_vector = "jfs_fio_path fw_vector"
type_synonym fw_file_vector = "jfs_fw_file fw_vector"
type_synonym fw_dir_vector = "jfs_fw_dir fw_vector"

record jfs_fw_state =
  path_vec :: fw_path_vector
  dir_vec :: fw_dir_vector

record jfs_fw_record =
  rec_dir_count :: nat
  rec_dir_array :: "jfs_fw_dir slots"

record fw_world = heap +
  open_dirs :: int

type_synonym fw_fs = "string \<Rightarrow> (dirent list \<times> errno) sys"

definition file_zero :: jfs_fw_file where
  "file_zero = \<lparr>file_type = JFS_FW_REG, file_name = name_zero, file_inode = 0\<rparr>"

definition dir_zero :: jfs_fw_dir where
  "dir_zero = \<lparr>dir_path = path_zero, dir_files = None, dir_file_count = 0\<rparr>"

definition vec_zero :: "'a fw_vector" where
  "vec_zero = \<lparr>vec_count = 0, vec_capacity = 0, vec_array = None\<rparr>"

definition record_zero :: jfs_fw_record where
  "record_zero = \<lparr>rec_dir_count = 0, rec_dir_array = None\<rparr>"

section \<open>Arrays\<close>

definition array_read :: "'a slots \<Rightarrow> nat \<Rightarrow> 'a option" where
  "array_read arr i = do { xs \<leftarrow> arr; c_assert (i < length xs); xs ! i }"

definition array_write :: "'a slots \<Rightarrow> nat \<Rightarrow> 'a \<Rightarrow> 'a slots" where
  "array_write arr i x = do { xs \<leftarrow> arr; c_assert (i < length xs); Some (xs[i := Some x]) }"

text \<open>What \<open>realloc\<close> keeps of an array when it gives it \<open>n\<close> slots.\<close>

definition array_resize :: "nat \<Rightarrow> 'a slots \<Rightarrow> 'a option list" where
  "array_resize n arr =
     (let xs = (case arr of None \<Rightarrow> [] | Some xs \<Rightarrow> xs)
      in take n xs @ replicate (n - length xs) None)"

text \<open>The loops \<open>for (i = 0; i < count; i++) elem_free (&array[i])\<close>.\<close>

fun free_elems :: "('a \<Rightarrow> 'w \<Rightarrow> ('a \<times> 'w) option) \<Rightarrow> 'a option list \<Rightarrow> nat \<Rightarrow> 'w \<Rightarrow> 'w option" where
  "free_elems elem_free xs 0 w = Some w"
| "free_elems elem_free [] (Suc n) w = None"
| "free_elems elem_free (x # xs) (Suc n) w =
     do { v \<leftarrow> x; (_, w) \<leftarrow> elem_free v w; free_elems elem_free xs n w }"

text \<open>\<open>if (array != NULL) { for ... elem_free (&array[i]); free (array); }\<close>\<close>

definition free_array ::
  "('a \<Rightarrow> 'h heap_scheme \<Rightarrow> ('a \<times> 'h heap_scheme) option) \<Rightarrow> 'a slots \<Rightarrow> nat
     \<Rightarrow> 'h heap_scheme \<Rightarrow> 'h heap_scheme option" where
  "free_array elem_free arr count w =
     (case arr of
        None \<Rightarrow> Some w
      | Some xs \<Rightarrow> do { w \<leftarrow> free_elems elem_free xs count w; Some (heap_free False w) })"

section \<open>Files and directories\<close>

definition jfs_fw_file_free :: "jfs_fw_file \<Rightarrow> fw_world \<Rightarrow> jfs_fw_file \<times> fw_world" where
  "jfs_fw_file_free file_free w =
     (let (_, w) = jfs_fio_name_free (file_name file_free) w in (file_zero, w))"

definition jfs_fw_file_transfer :: "jfs_fw_file \<Rightarrow> jfs_fw_file \<Rightarrow> jfs_fw_file \<times> jfs_fw_file" where
  "jfs_fw_file_transfer file_init file_free = (file_free, file_zero)"

definition jfs_fw_dir_free :: "jfs_fw_dir \<Rightarrow> fw_world \<Rightarrow> (jfs_fw_dir \<times> fw_world) option" where
  "jfs_fw_dir_free dir_free w = do {
     w \<leftarrow> free_array (\<lambda>f w. Some (jfs_fw_file_free f w)) (dir_files dir_free) (dir_file_count dir_free) w;
     let (_, w) = jfs_fio_path_free (dir_path dir_free) w;
     Some (dir_zero, w)
   }"

definition jfs_fw_dir_transfer :: "jfs_fw_dir \<Rightarrow> jfs_fw_dir \<Rightarrow> jfs_fw_dir \<times> jfs_fw_dir" where
  "jfs_fw_dir_transfer dir_init dir_free = (dir_free, dir_zero)"

section \<open>Vectors\<close>

text \<open>
  The three vector types of the source have the same code. It is written once, over the
  function that frees an element and the value an element has after it was moved out.
\<close>

definition FW_VECTOR_DEFAULT_CAPACITY :: nat where
  "FW_VECTOR_DEFAULT_CAPACITY = 16"

definition fw_vector_init ::
  "'a fw_vector \<Rightarrow> fw_world \<Rightarrow> jfs_err_t \<Rightarrow> 'a fw_vector \<times> fw_world \<times> jfs_err_t" where
  "fw_vector_init vec_init w err =
     (let (new_array, w, err) = heap_malloc w err
      in if err \<noteq> JFS_OK then (vec_init, w, err)
         else (\<lparr>vec_count = 0, vec_capacity = FW_VECTOR_DEFAULT_CAPACITY,
                vec_array = Some (replicate FW_VECTOR_DEFAULT_CAPACITY None)\<rparr>, w, err))"

definition fw_vector_free ::
  "('a \<Rightarrow> fw_world \<Rightarrow> ('a \<times> fw_world) option) \<Rightarrow> 'a fw_vector \<Rightarrow> fw_world
     \<Rightarrow> ('a fw_vector \<times> fw_world) option" where
  "fw_vector_free elem_free vec_free w = do {
     w \<leftarrow> free_array elem_free (vec_array vec_free) (vec_count vec_free) w;
     Some (vec_zero, w)
   }"

definition fw_vector_put ::
  "'a \<Rightarrow> 'a fw_vector \<Rightarrow> 'a \<Rightarrow> ('a fw_vector \<times> 'a) option" where
  "fw_vector_put zero vec elem = do {
     xs \<leftarrow> array_write (vec_array vec) (vec_count vec) elem;
     Some (vec\<lparr>vec_array := Some xs, vec_count := vec_count vec + 1\<rparr>, zero)
   }"

definition fw_vector_push ::
  "'a \<Rightarrow> 'a fw_vector \<Rightarrow> 'a \<Rightarrow> fw_world \<Rightarrow> jfs_err_t
     \<Rightarrow> ('a fw_vector \<times> 'a \<times> fw_world \<times> jfs_err_t) option" where
  "fw_vector_push zero vec elem_free w err =
     (if vec_count vec \<ge> vec_capacity vec
      then let new_capacity = vec_capacity vec * 2;
               (new_array, w, err) = heap_realloc (vec_array vec = None) w err
           in if err \<noteq> JFS_OK then Some (vec, elem_free, w, err)
              else do {
                (vec, elem) \<leftarrow> fw_vector_put zero
                  (vec\<lparr>vec_array := Some (array_resize new_capacity (vec_array vec)),
                       vec_capacity := new_capacity\<rparr>) elem_free;
                Some (vec, elem, w, err)
              }
      else do { (vec, elem) \<leftarrow> fw_vector_put zero vec elem_free; Some (vec, elem, w, err) })"

definition fw_vector_to_array ::
  "'a fw_vector \<Rightarrow> fw_world \<Rightarrow> jfs_err_t \<Rightarrow> 'a slots \<times> 'a fw_vector \<times> fw_world \<times> jfs_err_t" where
  "fw_vector_to_array vec_free w err =
     (if vec_count vec_free = 0 then (None, vec_free, w, JFS_ERR_EMPTY)
      else let (new_array, w, err) = heap_realloc (vec_array vec_free = None) w err
           in if err \<noteq> JFS_OK then (None, vec_free, w, err)
              else (Some (array_resize (vec_count vec_free) (vec_array vec_free)), vec_zero, w, err))"

definition fw_path_vector_init ::
  "fw_path_vector \<Rightarrow> fw_world \<Rightarrow> jfs_err_t \<Rightarrow> fw_path_vector \<times> fw_world \<times> jfs_err_t" where
  "fw_path_vector_init = fw_vector_init"

definition fw_path_vector_free :: "fw_path_vector \<Rightarrow> fw_world \<Rightarrow> (fw_path_vector \<times> fw_world) option" where
  "fw_path_vector_free = fw_vector_free (\<lambda>p w. Some (jfs_fio_path_free p w))"

definition fw_path_vector_push ::
  "fw_path_vector \<Rightarrow> jfs_fio_path \<Rightarrow> fw_world \<Rightarrow> jfs_err_t
     \<Rightarrow> (fw_path_vector \<times> jfs_fio_path \<times> fw_world \<times> jfs_err_t) option" where
  "fw_path_vector_push = fw_vector_push path_zero"

definition fw_path_vector_pop ::
  "fw_path_vector \<Rightarrow> jfs_fio_path \<Rightarrow> jfs_err_t \<Rightarrow> (fw_path_vector \<times> jfs_fio_path \<times> jfs_err_t) option" where
  "fw_path_vector_pop vec path_init err =
     (if vec_count vec = 0 then Some (vec, path_init, JFS_ERR_EMPTY)
      else do {
        let vec = vec\<lparr>vec_count := vec_count vec - 1\<rparr>;
        path \<leftarrow> array_read (vec_array vec) (vec_count vec);
        let (path_init, path_free) = jfs_fio_path_transfer path_init path;
        xs \<leftarrow> array_write (vec_array vec) (vec_count vec) path_free;
        Some (vec\<lparr>vec_array := Some xs\<rparr>, path_init, err)
      })"

definition fw_file_vector_init ::
  "fw_file_vector \<Rightarrow> fw_world \<Rightarrow> jfs_err_t \<Rightarrow> fw_file_vector \<times> fw_world \<times> jfs_err_t" where
  "fw_file_vector_init = fw_vector_init"

definition fw_file_vector_free :: "fw_file_vector \<Rightarrow> fw_world \<Rightarrow> (fw_file_vector \<times> fw_world) option" where
  "fw_file_vector_free = fw_vector_free (\<lambda>f w. Some (jfs_fw_file_free f w))"

definition fw_file_vector_push ::
  "fw_file_vector \<Rightarrow> jfs_fw_file \<Rightarrow> fw_world \<Rightarrow> jfs_err_t
     \<Rightarrow> (fw_file_vector \<times> jfs_fw_file \<times> fw_world \<times> jfs_err_t) option" where
  "fw_file_vector_push = fw_vector_push file_zero"

definition fw_file_vector_to_array ::
  "fw_file_vector \<Rightarrow> fw_world \<Rightarrow> jfs_err_t
     \<Rightarrow> jfs_fw_file slots \<times> fw_file_vector \<times> fw_world \<times> jfs_err_t" where
  "fw_file_vector_to_array = fw_vector_to_array"

definition fw_dir_vector_init ::
  "fw_dir_vector \<Rightarrow> fw_world \<Rightarrow> jfs_err_t \<Rightarrow> fw_dir_vector \<times> fw_world \<times> jfs_err_t" where
  "fw_dir_vector_init = fw_vector_init"

definition fw_dir_vector_free :: "fw_dir_vector \<Rightarrow> fw_world \<Rightarrow> (fw_dir_vector \<times> fw_world) option" where
  "fw_dir_vector_free = fw_vector_free jfs_fw_dir_free"

definition fw_dir_vector_push ::
  "fw_dir_vector \<Rightarrow> jfs_fw_dir \<Rightarrow> fw_world \<Rightarrow> jfs_err_t
     \<Rightarrow> (fw_dir_vector \<times> jfs_fw_dir \<times> fw_world \<times> jfs_err_t) option" where
  "fw_dir_vector_push = fw_vector_push dir_zero"

definition fw_dir_vector_to_array ::
  "fw_dir_vector \<Rightarrow> fw_world \<Rightarrow> jfs_err_t
     \<Rightarrow> jfs_fw_dir slots \<times> fw_dir_vector \<times> fw_world \<times> jfs_err_t" where
  "fw_dir_vector_to_array = fw_vector_to_array"


section \<open>Reading a directory\<close>

fun fw_map_dirent_type :: "dirent_type \<Rightarrow> jfs_err_t \<Rightarrow> jfs_fw_types_t \<times> jfs_err_t" where
  "fw_map_dirent_type DT_REG err = (JFS_FW_REG, err)"
| "fw_map_dirent_type DT_DIR err = (JFS_FW_DIR, err)"
| "fw_map_dirent_type DT_UNKNOWN err = (JFS_FW_REG, JFS_ERR_FW_UNKNOWN)"
| "fw_map_dirent_type (DT_OTHER _) err = (JFS_FW_REG, JFS_ERR_FW_UNSUPPORTED)"

definition fw_file_init ::
  "jfs_fw_file \<Rightarrow> dirent \<Rightarrow> fw_world \<Rightarrow> jfs_err_t \<Rightarrow> jfs_fw_file \<times> fw_world \<times> jfs_err_t" where
  "fw_file_init file_init ent w err =
     (let (new_type, err) = fw_map_dirent_type (d_type ent) err
      in if err \<noteq> JFS_OK then (file_init, w, err)
         else let (new_name, w, err) = jfs_fio_name_init name_zero (d_name ent) w err
              in if err \<noteq> JFS_OK then (file_init, w, err)
                 else let (name, new_name) = jfs_fio_name_transfer (file_name file_init) new_name
                      in (file_init\<lparr>file_name := name, file_inode := d_ino ent, file_type := new_type\<rparr>,
                          w, err))"

definition fw_handle_dirent ::
  "dirent \<Rightarrow> fw_file_vector \<Rightarrow> fw_world \<Rightarrow> jfs_err_t \<Rightarrow> (fw_file_vector \<times> fw_world \<times> jfs_err_t) option" where
  "fw_handle_dirent ent vec w err =
     (let (file, w, err) = fw_file_init file_zero ent w err
      in if err \<noteq> JFS_OK then Some (vec, w, err)
         else do {
           (vec, file, w, err) \<leftarrow> fw_file_vector_push vec file w err;
           if err \<noteq> JFS_OK then let (file, w) = jfs_fw_file_free file w in Some (vec, w, err)
           else Some (vec, w, err)
         })"

text \<open>The stream is the entries still to come and the value of \<open>errno\<close> after the last one.\<close>

fun fw_scan_dir ::
  "dirent list \<Rightarrow> errno \<Rightarrow> fw_file_vector \<Rightarrow> fw_world \<Rightarrow> jfs_err_t
     \<Rightarrow> (fw_file_vector \<times> fw_world \<times> jfs_err_t) option" where
  "fw_scan_dir [] last_errno vec w err =
     (if last_errno \<noteq> E_NONE then Some (vec, w, JFS_ERR_SYS) else Some (vec, w, err))"
| "fw_scan_dir (ent # ents) last_errno vec w err =
     (if d_name ent = ''.'' \<or> d_name ent = ''..'' then fw_scan_dir ents last_errno vec w err
      else do {
        (vec, w, err) \<leftarrow> fw_handle_dirent ent vec w err;
        if err = JFS_ERR_FW_UNSUPPORTED then fw_scan_dir ents last_errno vec w (RES_ERR err)
        else if err \<noteq> JFS_OK then Some (vec, w, err)
        else fw_scan_dir ents last_errno vec w err
      })"

text \<open>The loop of \<open>fw_push_dir_paths\<close> over the first \<open>n\<close> slots of the file array.\<close>

fun fw_push_loop ::
  "jfs_fw_file option list \<Rightarrow> nat \<Rightarrow> fw_path_vector \<Rightarrow> jfs_fio_path \<Rightarrow> jfs_fio_path
     \<Rightarrow> jfs_fio_path_buf \<Rightarrow> fw_world \<Rightarrow> jfs_err_t \<Rightarrow> (fw_path_vector \<times> fw_world \<times> jfs_err_t) option" where
  "fw_push_loop xs 0 pvec dpath push_path buf w err = Some (pvec, w, err)"
| "fw_push_loop [] (Suc n) pvec dpath push_path buf w err = None"
| "fw_push_loop (x # xs) (Suc n) pvec dpath push_path buf w err = do {
     file \<leftarrow> x;
     if file_type file = JFS_FW_REG then fw_push_loop xs n pvec dpath push_path buf w err
     else do {
       (buf, err) \<leftarrow> jfs_fio_path_buf_compose buf dpath (file_name file) err;
       if err = JFS_ERR_FIO_PATH_OVERFLOW
       then fw_push_loop xs n pvec dpath push_path buf w (RES_ERR err)
       else
         let (push_path, w, err) = jfs_fio_path_init push_path (buf_data buf) w err
         in if err \<noteq> JFS_OK then Some (pvec, w, err)
            else do {
              (pvec, push_path, w, err) \<leftarrow> fw_path_vector_push pvec push_path w err;
              if err \<noteq> JFS_OK
              then let (push_path, w) = jfs_fio_path_free push_path w in Some (pvec, w, err)
              else fw_push_loop xs n pvec dpath push_path buf w err
            }
     }
   }"

definition fw_push_dir_paths ::
  "fw_path_vector \<Rightarrow> fw_file_vector \<Rightarrow> jfs_fio_path \<Rightarrow> fw_world \<Rightarrow> jfs_err_t
     \<Rightarrow> (fw_path_vector \<times> fw_world \<times> jfs_err_t) option" where
  "fw_push_dir_paths pvec file_vec dpath w err =
     (case vec_array file_vec of
        None \<Rightarrow> if vec_count file_vec = 0 then Some (pvec, w, err) else None
      | Some xs \<Rightarrow> fw_push_loop xs (vec_count file_vec) pvec dpath path_zero
                     \<lparr>buf_len = 0, buf_data = []\<rparr> w err)"

text \<open>The new directory, and what is left of the vector and the path it was made from.\<close>

definition fw_dir_init ::
  "jfs_fw_dir \<Rightarrow> fw_file_vector \<Rightarrow> jfs_fio_path \<Rightarrow> fw_world \<Rightarrow> jfs_err_t
     \<Rightarrow> (jfs_fw_dir \<times> fw_file_vector \<times> jfs_fio_path \<times> fw_world \<times> jfs_err_t) option" where
  "fw_dir_init dir_init vec_free path_free w err = do {
     let new_count = vec_count vec_free;
     (new_files, vec_free, w, err, failed) \<leftarrow>
       (if vec_count vec_free > 0
        then let (new_files, vec_free, w, err) = fw_file_vector_to_array vec_free w err
             in Some (new_files, vec_free, w, err, err \<noteq> JFS_OK)
        else do {
          (vec_free, w) \<leftarrow> fw_file_vector_free vec_free w;
          Some (None, vec_free, w, err, False)
        });
     if failed then Some (dir_init, vec_free, path_free, w, err)
     else let (path, path_free) = jfs_fio_path_transfer (dir_path dir_init) path_free
          in Some (dir_init\<lparr>dir_file_count := new_count, dir_files := new_files, dir_path := path\<rparr>,
                   vec_free, path_free, w, err)
   }"

section \<open>The walk\<close>

definition fw_opendir ::
  "fw_fs \<Rightarrow> jfs_fio_path \<Rightarrow> fw_world \<Rightarrow> jfs_err_t
     \<Rightarrow> ((dirent list \<times> errno) option \<times> fw_world \<times> jfs_err_t) option" where
  "fw_opendir fs path w err = do {
     str \<leftarrow> path_str path;
     let (sys_dir, err) = jfs_opendir (fs str) err;
     Some (sys_dir, w\<lparr>open_dirs := open_dirs w + (if sys_dir \<noteq> None then 1 else 0)\<rparr>, err)
   }"

definition fw_closedir :: "fw_world \<Rightarrow> fw_world" where
  "fw_closedir w = w\<lparr>open_dirs := open_dirs w - 1\<rparr>"

text \<open>\<open>junk\<close> is what the block returned by \<open>malloc\<close> contains before it is written.\<close>

definition fw_create_cleanup ::
  "jfs_fw_state option \<Rightarrow> jfs_fio_path \<Rightarrow> fw_world \<Rightarrow> jfs_err_t
     \<Rightarrow> (jfs_fw_state option \<times> fw_world \<times> jfs_err_t) option" where
  "fw_create_cleanup state new_path w err = do {
     w \<leftarrow> (case state of
             None \<Rightarrow> Some w
           | Some st \<Rightarrow> do {
               (_, w) \<leftarrow> fw_dir_vector_free (dir_vec st) w;
               (_, w) \<leftarrow> fw_path_vector_free (path_vec st) w;
               Some (heap_free False w)
             });
     let (_, w) = jfs_fio_path_free new_path w;
     Some (None, w, err)
   }"

definition jfs_fw_state_create ::
  "jfs_fw_state \<Rightarrow> jfs_fio_path \<Rightarrow> fw_world \<Rightarrow> jfs_err_t
     \<Rightarrow> (jfs_fw_state option \<times> fw_world \<times> jfs_err_t) option" where
  "jfs_fw_state_create junk start_path w err =
     (let (p, w, err) = heap_malloc w err
      in if err \<noteq> JFS_OK then fw_create_cleanup (case p of None \<Rightarrow> None | Some _ \<Rightarrow> Some junk) path_zero w err
      else let (pvec, w, err) = fw_path_vector_init (path_vec junk) w err; state = junk\<lparr>path_vec := pvec\<rparr>
      in if err \<noteq> JFS_OK then fw_create_cleanup (Some state) path_zero w err
      else let (dvec, w, err) = fw_dir_vector_init (dir_vec state) w err; state = state\<lparr>dir_vec := dvec\<rparr>
      in if err \<noteq> JFS_OK then fw_create_cleanup (Some state) path_zero w err
      else do {
        str \<leftarrow> path_str start_path;
        let (new_path, w, err) = jfs_fio_path_init path_zero str w err;
        if err \<noteq> JFS_OK then fw_create_cleanup (Some state) new_path w err
        else do {
          (pvec, new_path, w, err) \<leftarrow> fw_path_vector_push (path_vec state) new_path w err;
          let state = state\<lparr>path_vec := pvec\<rparr>;
          if err \<noteq> JFS_OK then fw_create_cleanup (Some state) new_path w err
          else Some (Some state, w, err)
        }
      })"

definition jfs_fw_state_destroy :: "jfs_fw_state option \<Rightarrow> fw_world \<Rightarrow> fw_world option" where
  "jfs_fw_state_destroy state_move w =
     (case state_move of
        None \<Rightarrow> Some w
      | Some st \<Rightarrow> do {
          (_, w) \<leftarrow> fw_path_vector_free (path_vec st) w;
          (_, w) \<leftarrow> fw_dir_vector_free (dir_vec st) w;
          Some (heap_free False w)
        })"

definition fw_step_cleanup ::
  "jfs_fw_state \<Rightarrow> bool \<Rightarrow> fw_file_vector \<Rightarrow> jfs_fio_path \<Rightarrow> jfs_fw_dir \<Rightarrow> fw_world \<Rightarrow> jfs_err_t
     \<Rightarrow> (bool \<times> jfs_fw_state \<times> fw_world \<times> jfs_err_t) option" where
  "fw_step_cleanup state is_open file_vec dpath dir w err = do {
     let w = (if is_open then fw_closedir w else w);
     (_, w) \<leftarrow> fw_file_vector_free file_vec w;
     let (_, w) = jfs_fio_path_free dpath w;
     (_, w) \<leftarrow> jfs_fw_dir_free dir w;
     let err = REMAP_ERR JFS_ERR_ACCESS JFS_ERR_FW_SKIP err;
     let err = REMAP_ERR JFS_ERR_INVAL_PATH JFS_ERR_FW_FAIL err;
     Some (vec_count (path_vec state) = 0, state, w, err)
   }"

definition jfs_fw_state_step ::
  "fw_fs \<Rightarrow> jfs_fw_state \<Rightarrow> fw_world \<Rightarrow> jfs_err_t
     \<Rightarrow> (bool \<times> jfs_fw_state \<times> fw_world \<times> jfs_err_t) option" where
  "jfs_fw_state_step fs state w err =
     (if vec_count (path_vec state) = 0 then Some (True, state, w, err)
      else let (file_vec, w, err) = fw_file_vector_init vec_zero w err
      in if err \<noteq> JFS_OK then fw_step_cleanup state False file_vec path_zero dir_zero w err
      else do {
        (pvec, dpath, err) \<leftarrow> fw_path_vector_pop (path_vec state) path_zero err;
        let state = state\<lparr>path_vec := pvec\<rparr>;
        if err \<noteq> JFS_OK then fw_step_cleanup state False file_vec dpath dir_zero w err
        else do {
          (sys_dir, w, err) \<leftarrow> fw_opendir fs dpath w err;
          if err \<noteq> JFS_OK then fw_step_cleanup state (sys_dir \<noteq> None) file_vec dpath dir_zero w err
          else do {
            (ents, last_errno) \<leftarrow> sys_dir;
            (file_vec, w, err) \<leftarrow> fw_scan_dir ents last_errno file_vec w err;
            if err \<noteq> JFS_OK then fw_step_cleanup state True file_vec dpath dir_zero w err
            else do {
              (pvec, w, err) \<leftarrow> fw_push_dir_paths (path_vec state) file_vec dpath w err;
              let state = state\<lparr>path_vec := pvec\<rparr>;
              if err \<noteq> JFS_OK then fw_step_cleanup state True file_vec dpath dir_zero w err
              else do {
                (dir, file_vec, dpath, w, err) \<leftarrow> fw_dir_init dir_zero file_vec dpath w err;
                if err \<noteq> JFS_OK then fw_step_cleanup state True file_vec dpath dir w err
                else do {
                  (dvec, dir, w, err) \<leftarrow> fw_dir_vector_push (dir_vec state) dir w err;
                  let state = state\<lparr>dir_vec := dvec\<rparr>;
                  if err \<noteq> JFS_OK then fw_step_cleanup state True file_vec dpath dir w err
                  else Some (vec_count (path_vec state) > 0, state, fw_closedir w, err)
                }
              }
            }
          }
        }
      })"

text \<open>The state is \<open>None\<close> once it has been freed.\<close>

definition jfs_fw_record_init ::
  "jfs_fw_record \<Rightarrow> jfs_fw_state \<Rightarrow> fw_world \<Rightarrow> jfs_err_t
     \<Rightarrow> (jfs_fw_record \<times> jfs_fw_state option \<times> fw_world \<times> jfs_err_t) option" where
  "jfs_fw_record_init record_init state_move w err =
     (if vec_count (path_vec state_move) > 0 then Some (record_init, Some state_move, w, JFS_ERR_FW_STATE)
      else
        let new_dir_count = vec_count (dir_vec state_move);
            (new_dir_array, dvec, w, err) = fw_dir_vector_to_array (dir_vec state_move) w err;
            state_move = state_move\<lparr>dir_vec := dvec\<rparr>
        in if err \<noteq> JFS_OK then Some (record_init, Some state_move, w, err)
           else do {
             w \<leftarrow> jfs_fw_state_destroy (Some state_move) w;
             Some (\<lparr>rec_dir_count = new_dir_count, rec_dir_array = new_dir_array\<rparr>, None, w, err)
           })"

definition jfs_fw_record_free :: "jfs_fw_record \<Rightarrow> fw_world \<Rightarrow> (jfs_fw_record \<times> fw_world) option" where
  "jfs_fw_record_free record_free w = do {
     w \<leftarrow> free_array jfs_fw_dir_free (rec_dir_array record_free) (rec_dir_count record_free) w;
     Some (record_zero, w)
   }"


text \<open>
  The loop in which \<open>src/src/test/test.c\<close> drives a walk, with fuel: it ends when a step returns
  0, or at an error other than \<open>JFS_ERR_FW_SKIP\<close>.
\<close>

fun fw_walk_loop ::
  "nat \<Rightarrow> fw_fs \<Rightarrow> jfs_fw_state \<Rightarrow> fw_world \<Rightarrow> jfs_err_t \<Rightarrow> (jfs_fw_state \<times> fw_world \<times> jfs_err_t) run option" where
  "fw_walk_loop 0 fs state w err = Some (Running (state, w, err))"
| "fw_walk_loop (Suc n) fs state w err = do {
     (ret, state, w, err) \<leftarrow> jfs_fw_state_step fs state w err;
     if \<not> ret then Some (Returned (state, w, err))
     else if err = JFS_ERR_FW_SKIP then fw_walk_loop n fs state w (RES_ERR err)
     else if err \<noteq> JFS_OK then Some (Returned (state, w, err))
     else fw_walk_loop n fs state w err
   }"

section \<open>Accounting\<close>

text \<open>
  \<open>delta w w' d\<close>: between \<open>w\<close> and \<open>w'\<close> the number of live blocks changed by \<open>d\<close>, no directory
  stream was opened or closed on balance, and an allocator that never fails stays so.
\<close>

definition delta :: "fw_world \<Rightarrow> fw_world \<Rightarrow> int \<Rightarrow> bool" where
  "delta w w' d \<longleftrightarrow> live w' = live w + d \<and> open_dirs w' = open_dirs w \<and>
     (alloc_script w = [] \<longrightarrow> alloc_script w' = [])"

lemma delta_refl [simp]: "delta w w 0"
  by (simp add: delta_def)

lemma delta_trans: "delta w w' d \<Longrightarrow> delta w' w'' e \<Longrightarrow> delta w w'' (d + e)"
  by (simp add: delta_def)

lemma delta_cong: "delta w w' d \<Longrightarrow> d = e \<Longrightarrow> delta w w' e"
  by simp

lemma delta_free: "delta w (heap_free is_null w) (if is_null then 0 else -1)"
  by (simp add: delta_def heap_free_def)

lemma next_alloc_empty: "\<not> next_alloc w \<Longrightarrow> alloc_script w \<noteq> []"
  by (auto simp: next_alloc_def)

text \<open>\<open>vec_wf v xs\<close>: the vector \<open>v\<close> holds the elements \<open>xs\<close>, in slots of its array that are written.\<close>

definition vec_wf :: "'a fw_vector \<Rightarrow> 'a list \<Rightarrow> bool" where
  "vec_wf v xs \<longleftrightarrow> (\<exists>rest. vec_array v = Some (map Some xs @ rest) \<and>
     vec_capacity v = length xs + length rest) \<and> vec_count v = length xs \<and> 0 < vec_capacity v"

lemma vec_wf_count: "vec_wf v xs \<Longrightarrow> vec_count v = length xs"
  by (simp add: vec_wf_def)

lemma vector_init_cases:
  obtains (ok) v' w' where "fw_vector_init v w JFS_OK = (v', w', JFS_OK)" "vec_wf v' []" "delta w w' 1"
  | (fail) w' where "fw_vector_init v w JFS_OK = (v, w', JFS_ERR_SYS)" "delta w w' 0"
      "alloc_script w \<noteq> []"
  by (rule heap_malloc_cases [of w JFS_OK])
    (auto simp: fw_vector_init_def vec_wf_def FW_VECTOR_DEFAULT_CAPACITY_def delta_def next_alloc_empty)

lemma vector_put:
  assumes "vec_array v = Some (map Some xs @ r # rest)" and "vec_count v = length xs"
    and "vec_capacity v = length xs + length (r # rest)"
  shows "\<exists>v'. fw_vector_put zero v x = Some (v', zero) \<and> vec_wf v' (xs @ [x])"
  using assms by (auto simp: fw_vector_put_def array_write_def vec_wf_def list_update_append)

lemma vector_push_cases:
  assumes "vec_wf v xs"
  obtains (ok) v' w' where "fw_vector_push zero v x w JFS_OK = Some (v', zero, w', JFS_OK)"
      "vec_wf v' (xs @ [x])" "delta w w' 0"
  | (fail) w' where "fw_vector_push zero v x w JFS_OK = Some (v, x, w', JFS_ERR_SYS)" "delta w w' 0"
      "alloc_script w \<noteq> []"
proof -
  from assms obtain rest where arr: "vec_array v = Some (map Some xs @ rest)"
    and cap: "vec_capacity v = length xs + length rest"
    and cnt: "vec_count v = length xs" and pos: "0 < vec_capacity v"
    by (auto simp: vec_wf_def)
  show ?thesis
  proof (cases rest)
    case (Cons r rs)
    then have "\<exists>v'. fw_vector_put zero v x = Some (v', zero) \<and> vec_wf v' (xs @ [x])"
      using arr cap cnt by (intro vector_put) auto
    moreover have "\<not> vec_capacity v \<le> vec_count v" using Cons cap cnt by simp
    ultimately show ?thesis using ok [of _ w] by (auto simp: fw_vector_push_def)
  next
    case Nil
    let ?v = "v\<lparr>vec_array := Some (array_resize (vec_capacity v * 2) (vec_array v)),
               vec_capacity := vec_capacity v * 2\<rparr>"
    obtain k where k: "length xs = Suc k" using Nil cap pos by (cases "length xs") auto
    then have "array_resize (vec_capacity v * 2) (vec_array v) =
        map Some xs @ None # replicate k None"
      using arr cap Nil by (simp add: array_resize_def)
    then have put: "\<exists>v'. fw_vector_put zero ?v x = Some (v', zero) \<and> vec_wf v' (xs @ [x])"
      using cap cnt Nil k by (intro vector_put) auto
    have full: "vec_capacity v \<le> vec_count v" using Nil cap cnt by simp
    show ?thesis
    proof (rule heap_realloc_cases [of w JFS_OK])
      assume "heap_realloc False w JFS_OK = (Some (), w\<lparr>alloc_script := tl (alloc_script w)\<rparr>, JFS_OK)"
      with put full arr show ?thesis
        using ok [of _ "w\<lparr>alloc_script := tl (alloc_script w)\<rparr>"]
        by (auto simp: fw_vector_push_def Let_def delta_def)
    next
      assume "\<not> next_alloc w"
        "heap_realloc False w JFS_OK = (None, w\<lparr>alloc_script := tl (alloc_script w)\<rparr>, JFS_ERR_SYS)"
      with full arr show ?thesis
        using fail [of "w\<lparr>alloc_script := tl (alloc_script w)\<rparr>"]
        by (auto simp: fw_vector_push_def Let_def delta_def next_alloc_empty)
    qed
  qed
qed

lemma path_vector_pop:
  assumes "vec_wf v (xs @ [x])"
  shows "\<exists>v'. fw_path_vector_pop v p err = Some (v', x, err) \<and> vec_wf v' xs"
  using assms
  by (auto simp: fw_path_vector_pop_def vec_wf_def array_read_def array_write_def
      jfs_fio_path_transfer_def nth_append list_update_append)

lemma vector_to_array_cases:
  assumes "vec_wf v xs" and "xs \<noteq> []"
  obtains (ok) w' where "fw_vector_to_array v w JFS_OK = (Some (map Some xs), vec_zero, w', JFS_OK)"
      "delta w w' 0"
  | (fail) w' where "fw_vector_to_array v w JFS_OK = (None, v, w', JFS_ERR_SYS)" "delta w w' 0"
      "alloc_script w \<noteq> []"
  using assms
  by (rule_tac heap_realloc_cases [of w JFS_OK])
    (auto simp: fw_vector_to_array_def vec_wf_def array_resize_def delta_def next_alloc_empty)


text \<open>
  What the vectors rely on of the elements they hold: freeing a good element gives back the
  blocks it owns and touches nothing else.
\<close>

locale fw_elem =
  fixes elem_free :: "'a \<Rightarrow> fw_world \<Rightarrow> ('a \<times> fw_world) option"
    and own :: "'a \<Rightarrow> int"
    and good :: "'a \<Rightarrow> bool"
  assumes elem_free: "good x \<Longrightarrow> \<exists>x' w'. elem_free x w = Some (x', w') \<and> delta w w' (- own x)"
begin

lemma free_elems:
  "\<forall>x\<in>set xs. good x \<Longrightarrow> \<exists>w'. free_elems elem_free (map Some xs @ rest) (length xs) w = Some w' \<and>
     delta w w' (- sum_list (map own xs))"
proof (induction xs arbitrary: w)
  case Nil
  then show ?case by simp
next
  case (Cons x xs)
  then obtain x' w1 where 1: "elem_free x w = Some (x', w1)" "delta w w1 (- own x)"
    using elem_free [of x w] by auto
  from Cons obtain w2 where 2: "free_elems elem_free (map Some xs @ rest) (length xs) w1 = Some w2"
      "delta w1 w2 (- sum_list (map own xs))" by auto
  from 1 2 delta_trans [OF 1(2) 2(2)] show ?case by simp
qed

lemma free_array:
  assumes "\<forall>x\<in>set xs. good x"
  shows "\<exists>w'. free_array elem_free (Some (map Some xs @ rest)) (length xs) w = Some w' \<and>
     delta w w' (- (1 + sum_list (map own xs)))"
proof -
  from free_elems [OF assms, of rest w] obtain w1
    where 1: "free_elems elem_free (map Some xs @ rest) (length xs) w = Some w1"
      "delta w w1 (- sum_list (map own xs))" by blast
  have "delta w (heap_free False w1) (- (1 + sum_list (map own xs)))"
    by (rule delta_cong [OF delta_trans [OF 1(2) delta_free [of w1 False]]]) simp
  with 1(1) show ?thesis by (simp add: free_array_def)
qed

lemma vector_free:
  assumes "vec_wf v xs" and "\<forall>x\<in>set xs. good x"
  shows "\<exists>w'. fw_vector_free elem_free v w = Some (vec_zero, w') \<and>
     delta w w' (- (1 + sum_list (map own xs)))"
proof -
  from assms(1) obtain rest where "vec_array v = Some (map Some xs @ rest)" "vec_count v = length xs"
    by (auto simp: vec_wf_def)
  with free_array [OF assms(2), of rest w] show ?thesis by (auto simp: fw_vector_free_def)
qed

end

lemma vector_free_zero [simp]: "fw_vector_free elem_free vec_zero w = Some (vec_zero, w)"
  by (simp add: fw_vector_free_def vec_zero_def free_array_def)

text \<open>
  The values of the data types that the walk builds, from their contents: a path from its
  string, a file from its type, name and inode, a directory from its path and its files.
\<close>

definition mk_path :: "string \<Rightarrow> jfs_fio_path" where
  "mk_path s = \<lparr>path_len = length s, path_str = Some s\<rparr>"

definition mk_file :: "jfs_fw_types_t \<times> string \<times> nat \<Rightarrow> jfs_fw_file" where
  "mk_file = (\<lambda>(t, n, i). \<lparr>file_type = t, file_name = \<lparr>name_len = length n, name_str = Some n\<rparr>, file_inode = i\<rparr>)"

definition mk_dir :: "string \<times> (jfs_fw_types_t \<times> string \<times> nat) list \<Rightarrow> jfs_fw_dir" where
  "mk_dir = (\<lambda>(s, fs). \<lparr>dir_path = mk_path s,
      dir_files = (if fs = [] then None else Some (map Some (map mk_file fs))),
      dir_file_count = length fs\<rparr>)"

fun dir_blocks :: "string \<times> (jfs_fw_types_t \<times> string \<times> nat) list \<Rightarrow> int" where
  "dir_blocks (s, fs) = 1 + (if fs = [] then 0 else 1 + int (length fs))"

definition own_dir :: "jfs_fw_dir \<Rightarrow> int" where
  "own_dir d = 1 + (if dir_files d = None then 0 else 1 + int (dir_file_count d))"

lemma own_mk_dir [simp]: "own_dir (mk_dir d) = dir_blocks d"
  by (cases d) (simp add: own_dir_def mk_dir_def)

definition one_block :: "'a \<Rightarrow> int" where
  "one_block x = 1"

lemma sum_list_one_block [simp]: "sum_list (map one_block xs) = int (length xs)"
  by (induction xs) (auto simp: one_block_def)

interpretation path_elem: fw_elem "\<lambda>p w. Some (jfs_fio_path_free p w)" one_block "\<lambda>p. p \<in> range mk_path"
proof
  fix x w
  assume "x \<in> range mk_path"
  then show "\<exists>x' w'. Some (jfs_fio_path_free x w) = Some (x', w') \<and> delta w w' (- one_block x)"
    using delta_free [of w False] by (auto simp: jfs_fio_path_free_def mk_path_def one_block_def)
qed

interpretation file_elem: fw_elem "\<lambda>f w. Some (jfs_fw_file_free f w)" one_block "\<lambda>f. f \<in> range mk_file"
proof
  fix x w
  assume "x \<in> range mk_file"
  then show "\<exists>x' w'. Some (jfs_fw_file_free x w) = Some (x', w') \<and> delta w w' (- one_block x)"
    using delta_free [of w False]
    by (auto simp: jfs_fw_file_free_def jfs_fio_name_free_def mk_file_def one_block_def)
qed

lemma dir_free_mk:
  "\<exists>w'. jfs_fw_dir_free (mk_dir d) w = Some (dir_zero, w') \<and> delta w w' (- dir_blocks d)"
proof -
  obtain s fs where d: "d = (s, fs)" by (cases d)
  have "\<exists>w1. free_array (\<lambda>f w. Some (jfs_fw_file_free f w)) (dir_files (mk_dir d))
      (dir_file_count (mk_dir d)) w = Some w1 \<and> delta w w1 (1 - dir_blocks d)"
  proof (cases fs)
    case Nil
    then show ?thesis by (simp add: d mk_dir_def free_array_def)
  next
    case (Cons f fs')
    have *: "\<forall>x\<in>set (map mk_file fs). x \<in> range mk_file" by auto
    from file_elem.free_array [OF *, of "[]" w] Cons show ?thesis
      by (simp only: sum_list_one_block) (simp add: d mk_dir_def algebra_simps)
  qed
  then obtain w1 where w1: "free_array (\<lambda>f w. Some (jfs_fw_file_free f w)) (dir_files (mk_dir d))
      (dir_file_count (mk_dir d)) w = Some w1" "delta w w1 (1 - dir_blocks d)" by blast
  have "jfs_fio_path_free (dir_path (mk_dir d)) w1 = (path_zero, heap_free False w1)"
    by (simp add: d mk_dir_def mk_path_def jfs_fio_path_free_def)
  with w1 delta_trans [OF w1(2) delta_free [of w1 False]] show ?thesis
    by (simp add: jfs_fw_dir_free_def)
qed

interpretation dir_elem: fw_elem jfs_fw_dir_free own_dir "\<lambda>d. d \<in> range mk_dir"
  by unfold_locales (use dir_free_mk in fastforce)


section \<open>Scanning\<close>

text \<open>The entries that a scan records, and what it records of them.\<close>

definition is_listed :: "dirent \<Rightarrow> bool" where
  "is_listed ent \<longleftrightarrow> d_name ent \<noteq> ''.'' \<and> d_name ent \<noteq> ''..'' \<and> (d_type ent = DT_REG \<or> d_type ent = DT_DIR)"

definition ent_file :: "dirent \<Rightarrow> jfs_fw_types_t \<times> string \<times> nat" where
  "ent_file ent = (if d_type ent = DT_DIR then JFS_FW_DIR else JFS_FW_REG, d_name ent, d_ino ent)"

definition scan_files :: "dirent list \<Rightarrow> (jfs_fw_types_t \<times> string \<times> nat) list" where
  "scan_files ents = map ent_file (filter is_listed ents)"

text \<open>A listing without entries of unknown type or with too long names, read to its end.\<close>

definition scannable :: "dirent list \<Rightarrow> errno \<Rightarrow> bool" where
  "scannable ents last_errno \<longleftrightarrow> last_errno = E_NONE \<and>
     (\<forall>ent\<in>set ents. d_type ent \<noteq> DT_UNKNOWN \<and> length (d_name ent) \<le> NAME_MAX)"

lemma name_init_cases:
  obtains (ok) w' where "length s \<le> NAME_MAX" "delta w w' 1"
      "jfs_fio_name_init n s w JFS_OK = (\<lparr>name_len = length s, name_str = Some s\<rparr>, w', JFS_OK)"
  | (fail) w' err where "err \<noteq> JFS_OK" "err \<noteq> JFS_ERR_FW_UNSUPPORTED" "delta w w' 0"
      "jfs_fio_name_init n s w JFS_OK = (n, w', err)" "alloc_script w = [] \<Longrightarrow> length s > NAME_MAX"
proof (cases "length s > NAME_MAX")
  case True
  then show thesis using fail [of JFS_ERR_FIO_NAME_LEN w] by (simp add: jfs_fio_name_init_def)
next
  case False
  let ?w = "w\<lparr>alloc_script := tl (alloc_script w)\<rparr>"
  show thesis
  proof (rule heap_malloc_cases [of w JFS_OK])
    assume "heap_malloc w JFS_OK =
        (Some (), w\<lparr>alloc_script := tl (alloc_script w), live := live w + 1\<rparr>, JFS_OK)"
    with False show thesis
      by (intro ok [of "?w\<lparr>live := live w + 1\<rparr>"]) (simp_all add: jfs_fio_name_init_def strlcpy_def delta_def)
  next
    assume "\<not> next_alloc w" "heap_malloc w JFS_OK = (None, ?w, JFS_ERR_SYS)"
    with False show thesis
      by (intro fail [of JFS_ERR_SYS ?w]) (simp_all add: jfs_fio_name_init_def delta_def next_alloc_empty)
  qed
qed

lemma handle_dirent_cases:
  assumes "vec_wf vec (map mk_file fs)"
  obtains (ok) vec' w' where "d_type ent = DT_REG \<or> d_type ent = DT_DIR" "delta w w' 1"
      "fw_handle_dirent ent vec w JFS_OK = Some (vec', w', JFS_OK)" "vec_wf vec' (map mk_file (fs @ [ent_file ent]))"
  | (unsupported) k where "d_type ent = DT_OTHER k"
      "fw_handle_dirent ent vec w JFS_OK = Some (vec, w, JFS_ERR_FW_UNSUPPORTED)"
  | (fail) w' err where "err \<noteq> JFS_OK" "err \<noteq> JFS_ERR_FW_UNSUPPORTED" "delta w w' 0"
      "fw_handle_dirent ent vec w JFS_OK = Some (vec, w', err)"
      "alloc_script w = [] \<Longrightarrow> d_type ent = DT_UNKNOWN \<or> length (d_name ent) > NAME_MAX"
proof (cases "d_type ent = DT_REG \<or> d_type ent = DT_DIR")
  case True
  let ?t = "if d_type ent = DT_DIR then JFS_FW_DIR else JFS_FW_REG"
  have type: "fw_map_dirent_type (d_type ent) JFS_OK = (?t, JFS_OK)" using True by auto
  show thesis
  proof (rule name_init_cases [of "d_name ent" w name_zero])
    fix w1
    assume 1: "delta w w1 1" "jfs_fio_name_init name_zero (d_name ent) w JFS_OK =
        (\<lparr>name_len = length (d_name ent), name_str = Some (d_name ent)\<rparr>, w1, JFS_OK)"
    then have init: "fw_file_init file_zero ent w JFS_OK = (mk_file (ent_file ent), w1, JFS_OK)"
      by (simp add: fw_file_init_def type jfs_fio_name_transfer_def file_zero_def mk_file_def ent_file_def)
    show thesis
    proof (rule vector_push_cases [OF assms, of file_zero "mk_file (ent_file ent)" w1])
      fix v' w2
      assume "fw_vector_push file_zero vec (mk_file (ent_file ent)) w1 JFS_OK = Some (v', file_zero, w2, JFS_OK)"
        and 2: "vec_wf v' (map mk_file fs @ [mk_file (ent_file ent)])" "delta w1 w2 0"
      then show thesis
        using ok [OF True _ _ ] delta_trans [OF 1(1) 2(2)] 2(1)
        by (simp add: fw_handle_dirent_def init fw_file_vector_push_def)
    next
      fix w2
      assume push: "fw_vector_push file_zero vec (mk_file (ent_file ent)) w1 JFS_OK =
          Some (vec, mk_file (ent_file ent), w2, JFS_ERR_SYS)" and 2: "delta w1 w2 0" "alloc_script w1 \<noteq> []"
      have free: "jfs_fw_file_free (mk_file (ent_file ent)) w2 = (file_zero, heap_free False w2)"
        by (simp add: jfs_fw_file_free_def jfs_fio_name_free_def mk_file_def ent_file_def)
      have "delta w (heap_free False w2) 0"
        by (rule delta_cong [OF delta_trans [OF delta_trans [OF 1(1) 2(1)] delta_free]]) simp
      then show thesis
        using fail [of JFS_ERR_SYS "heap_free False w2"] 2(2) 1(1) push
        by (simp add: fw_handle_dirent_def init fw_file_vector_push_def free delta_def)
    qed
  next
    fix w1 err
    assume "err \<noteq> JFS_OK" "err \<noteq> JFS_ERR_FW_UNSUPPORTED" "delta w w1 0"
      "jfs_fio_name_init name_zero (d_name ent) w JFS_OK = (name_zero, w1, err)"
      "alloc_script w = [] \<Longrightarrow> length (d_name ent) > NAME_MAX"
    then show thesis
      using fail [of err w1] by (simp add: fw_handle_dirent_def fw_file_init_def type)
  qed
next
  case False
  then consider "d_type ent = DT_UNKNOWN" | k where "d_type ent = DT_OTHER k"
    by (cases "d_type ent") auto
  then show thesis
    by cases (use fail [of JFS_ERR_FW_UNKNOWN w] unsupported in
      \<open>simp_all add: fw_handle_dirent_def fw_file_init_def\<close>)
qed

text \<open>
  A scan appends files to the vector and owns one more block per file. When it returns
  without an error the files are those of the listing; it does so for a scannable listing
  when the allocator does not fail.
\<close>

lemma scan_dir:
  assumes "vec_wf vec (map mk_file fs)"
  shows "\<exists>vec' w' err fs'. fw_scan_dir ents e vec w JFS_OK = Some (vec', w', err) \<and>
    vec_wf vec' (map mk_file (fs @ fs')) \<and> delta w w' (int (length fs')) \<and>
    (err = JFS_OK \<longrightarrow> fs' = scan_files ents \<and> e = E_NONE) \<and>
    (alloc_script w = [] \<and> scannable ents e \<longrightarrow> err = JFS_OK)"
  using assms
proof (induction ents arbitrary: vec fs w)
  case Nil
  then show ?case by (auto simp: scan_files_def scannable_def intro!: exI [of _ "[]"])
next
  case (Cons ent ents)
  show ?case
  proof (cases "d_name ent = ''.'' \<or> d_name ent = ''..''")
    case True
    then have "scan_files (ent # ents) = scan_files ents" by (auto simp: scan_files_def is_listed_def)
    moreover have "scannable (ent # ents) e \<longrightarrow> scannable ents e" by (simp add: scannable_def)
    moreover have "fw_scan_dir (ent # ents) e vec w JFS_OK = fw_scan_dir ents e vec w JFS_OK"
      using True by simp
    ultimately show ?thesis using Cons.IH [OF Cons.prems, of w] by (simp only:) blast
  next
    case name: False
    from Cons.prems show ?thesis
    proof (cases rule: handle_dirent_cases [of vec fs ent w])
      case (ok vec1 w1)
      from Cons.IH [OF ok(4), of w1] obtain vec2 w2 err fs'
        where *: "fw_scan_dir ents e vec1 w1 JFS_OK = Some (vec2, w2, err)"
          "vec_wf vec2 (map mk_file ((fs @ [ent_file ent]) @ fs'))" "delta w1 w2 (int (length fs'))"
          "err = JFS_OK \<longrightarrow> fs' = scan_files ents \<and> e = E_NONE"
          "alloc_script w1 = [] \<and> scannable ents e \<longrightarrow> err = JFS_OK" by blast
      have "scan_files (ent # ents) = ent_file ent # scan_files ents"
        using ok(1) name by (auto simp: scan_files_def is_listed_def)
      moreover have "delta w w2 (int (length (ent_file ent # fs')))"
        by (rule delta_cong [OF delta_trans [OF ok(2) *(3)]]) simp
      moreover have "alloc_script w = [] \<longrightarrow> alloc_script w1 = []" using ok(2) by (simp add: delta_def)
      ultimately show ?thesis using name ok(3) *
        by (intro exI [of _ vec2] exI [of _ w2] exI [of _ err] exI [of _ "ent_file ent # fs'"])
          (auto simp: scannable_def)
    next
      case (unsupported k)
      then have "scan_files (ent # ents) = scan_files ents" by (auto simp: scan_files_def is_listed_def)
      moreover have "scannable (ent # ents) e \<longrightarrow> scannable ents e" by (simp add: scannable_def)
      moreover have "fw_scan_dir (ent # ents) e vec w JFS_OK = fw_scan_dir ents e vec w JFS_OK"
        using name unsupported by (simp add: RES_ERR_def)
      ultimately show ?thesis using Cons.IH [OF Cons.prems, of w] by (simp only:) blast
    next
      case (fail w1 err)
      with name Cons.prems show ?thesis
        by (intro exI [of _ vec] exI [of _ w1] exI [of _ err] exI [of _ "[]"])
          (auto simp: scannable_def)
    qed
  qed
qed


section \<open>Pushing the subdirectories\<close>

text \<open>The paths a directory contributes: those of its subdirectories that fit into a path.\<close>

definition children :: "string \<Rightarrow> (jfs_fw_types_t \<times> string \<times> nat) list \<Rightarrow> string list" where
  "children s fs = map (\<lambda>(t, n, i). trim_slash (s @ ''/'' @ n))
     (filter (\<lambda>(t, n, i). t = JFS_FW_DIR \<and> length s + length n + 1 \<le> PATH_MAX) fs)"

lemma trim_slash_nonempty: "s \<noteq> [] \<Longrightarrow> trim_slash s \<noteq> []"
  by (cases s) (auto simp: trim_slash_def)

lemma trim_slash_length: "length (trim_slash s) \<le> length s"
  by (simp add: trim_slash_def)

lemma path_init_cases:
  assumes "length (trim_slash s) \<le> PATH_MAX"
  obtains (ok) w' where "jfs_fio_path_init p s w JFS_OK = (mk_path (trim_slash s), w', JFS_OK)"
      "delta w w' 1"
  | (fail) w' where "jfs_fio_path_init p s w JFS_OK = (p, w', JFS_ERR_SYS)" "delta w w' 0"
      "alloc_script w \<noteq> []"
proof (rule heap_malloc_cases [of w JFS_OK])
  let ?w = "w\<lparr>alloc_script := tl (alloc_script w), live := live w + 1\<rparr>"
  assume "heap_malloc w JFS_OK = (Some (), ?w, JFS_OK)"
  with assms show thesis by (intro ok [of ?w]) (simp_all add: path_init_eq mk_path_def delta_def)
next
  let ?w = "w\<lparr>alloc_script := tl (alloc_script w)\<rparr>"
  assume "\<not> next_alloc w" "heap_malloc w JFS_OK = (None, ?w, JFS_ERR_SYS)"
  with assms show thesis
    by (intro fail [of ?w]) (simp_all add: path_init_eq delta_def next_alloc_empty)
qed

lemma compose_mk:
  assumes "s \<noteq> []"
  shows "jfs_fio_path_buf_compose buf (mk_path s) (file_name (mk_file (t, n, i))) JFS_OK =
    (if length s + length n + 1 \<le> PATH_MAX
     then Some (\<lparr>buf_len = length s + length n + 1, buf_data = s @ ''/'' @ n\<rparr>, JFS_OK)
     else Some (buf, JFS_ERR_FIO_PATH_OVERFLOW))"
  using assms by (simp add: jfs_fio_path_buf_compose_def mk_path_def mk_file_def jfs_fio_path_buf_clear_def)

lemma push_path_cases:
  assumes "vec_wf pv (map mk_path ss)" and "length (trim_slash s) \<le> PATH_MAX"
  obtains (ok) w1 pv' w' where "jfs_fio_path_init path_zero s w JFS_OK = (mk_path (trim_slash s), w1, JFS_OK)"
      "fw_path_vector_push pv (mk_path (trim_slash s)) w1 JFS_OK = Some (pv', path_zero, w', JFS_OK)"
      "vec_wf pv' (map mk_path (ss @ [trim_slash s]))" "delta w w' 1"
  | (init_fail) w' where "jfs_fio_path_init path_zero s w JFS_OK = (path_zero, w', JFS_ERR_SYS)"
      "delta w w' 0" "alloc_script w \<noteq> []"
  | (push_fail) w1 w2 w' where "jfs_fio_path_init path_zero s w JFS_OK = (mk_path (trim_slash s), w1, JFS_OK)"
      "fw_path_vector_push pv (mk_path (trim_slash s)) w1 JFS_OK =
         Some (pv, mk_path (trim_slash s), w2, JFS_ERR_SYS)"
      "jfs_fio_path_free (mk_path (trim_slash s)) w2 = (path_zero, w')" "delta w w' 0" "alloc_script w \<noteq> []"
proof (rule path_init_cases [OF assms(2), of path_zero w])
  fix w1
  assume 1: "jfs_fio_path_init path_zero s w JFS_OK = (mk_path (trim_slash s), w1, JFS_OK)" "delta w w1 1"
  show thesis
  proof (rule vector_push_cases [OF assms(1), of path_zero "mk_path (trim_slash s)" w1])
    fix v' w2
    assume "fw_vector_push path_zero pv (mk_path (trim_slash s)) w1 JFS_OK = Some (v', path_zero, w2, JFS_OK)"
      "vec_wf v' (map mk_path ss @ [mk_path (trim_slash s)])" and d: "delta w1 w2 0"
    with 1 delta_trans [OF 1(2) d] show thesis
      by (intro ok [of w1 v' w2]) (simp_all add: fw_path_vector_push_def)
  next
    fix w2
    assume p: "fw_vector_push path_zero pv (mk_path (trim_slash s)) w1 JFS_OK =
        Some (pv, mk_path (trim_slash s), w2, JFS_ERR_SYS)" and d: "delta w1 w2 0" "alloc_script w1 \<noteq> []"
    have "delta w (heap_free False w2) 0"
      by (rule delta_cong [OF delta_trans [OF delta_trans [OF 1(2) d(1)] delta_free]]) simp
    moreover have "alloc_script w \<noteq> []" using 1(2) d(2) by (auto simp: delta_def)
    ultimately show thesis using 1 p
      by (intro push_fail [of w1 w2 "heap_free False w2"])
        (simp_all add: fw_path_vector_push_def jfs_fio_path_free_def mk_path_def)
  qed
next
  fix w'
  assume "jfs_fio_path_init path_zero s w JFS_OK = (path_zero, w', JFS_ERR_SYS)" "delta w w' 0"
    "alloc_script w \<noteq> []"
  then show thesis by (rule init_fail)
qed

lemma push_loop:
  assumes "vec_wf pv (map mk_path ss)" and "s \<noteq> []"
  shows "\<exists>pv' w' err cs. fw_push_loop (map Some (map mk_file fs) @ rest) (length fs) pv (mk_path s) path_zero buf w JFS_OK
      = Some (pv', w', err) \<and> vec_wf pv' (map mk_path (ss @ cs)) \<and> delta w w' (int (length cs)) \<and>
      (\<exists>cs'. children s fs = cs @ cs') \<and> (err = JFS_OK \<longrightarrow> cs = children s fs) \<and>
      (alloc_script w = [] \<longrightarrow> err = JFS_OK)"
  using assms(1)
proof (induction fs arbitrary: pv ss buf w)
  case Nil
  then show ?case by (auto simp: children_def intro!: exI [of _ "[]"])
next
  case (Cons f fs)
  obtain t n i where f: "f = (t, n, i)" by (cases f)
  let ?full = "s @ ''/'' @ n"
  let ?loop = "\<lambda>fs. fw_push_loop (map Some (map mk_file fs) @ rest) (length fs)"
  show ?case
  proof (cases "t = JFS_FW_DIR \<and> length s + length n + 1 \<le> PATH_MAX")
    case False
    have "children s (f # fs) = children s fs" using False by (auto simp: children_def f)
    moreover have "?loop (f # fs) pv (mk_path s) path_zero buf w JFS_OK =
        ?loop fs pv (mk_path s) path_zero buf w JFS_OK"
      using False compose_mk [OF assms(2), of buf t n i]
      by (cases t) (auto simp: f RES_ERR_def mk_file_def)
    ultimately show ?thesis using Cons.IH [OF Cons.prems, of buf w] by (simp only:)
  next
    case True
    have ch: "children s (f # fs) = trim_slash ?full # children s fs"
      using True by (simp add: children_def f)
    have type: "file_type (mk_file f) = JFS_FW_DIR" using True by (simp add: f mk_file_def)
    have comp: "jfs_fio_path_buf_compose buf (mk_path s) (file_name (mk_file f)) JFS_OK =
        Some (\<lparr>buf_len = length s + length n + 1, buf_data = ?full\<rparr>, JFS_OK)"
      using True compose_mk [OF assms(2), of buf t n i] by (simp add: f)
    have len: "length (trim_slash ?full) \<le> PATH_MAX"
      using True trim_slash_length [of ?full] by simp
    from Cons.prems len show ?thesis
    proof (cases rule: push_path_cases [of pv ss "?full" w])
      case (ok w1 pv1 w2)
      let ?b = "\<lparr>buf_len = length s + length n + 1, buf_data = ?full\<rparr>"
      from Cons.IH [OF ok(3), of ?b w2] obtain pv' w' err cs
        where *: "?loop fs pv1 (mk_path s) path_zero ?b w2 JFS_OK = Some (pv', w', err)"
          "vec_wf pv' (map mk_path ((ss @ [trim_slash ?full]) @ cs))" "delta w2 w' (int (length cs))"
          "\<exists>cs'. children s fs = cs @ cs'" "err = JFS_OK \<longrightarrow> cs = children s fs"
          "alloc_script w2 = [] \<longrightarrow> err = JFS_OK" by blast
      have "?loop (f # fs) pv (mk_path s) path_zero buf w JFS_OK = Some (pv', w', err)"
        using *(1) ok(1,2) by (simp add: type comp)
      moreover have "delta w w' (int (length (trim_slash ?full # cs)))"
        by (rule delta_cong [OF delta_trans [OF ok(4) *(3)]]) simp
      moreover have "alloc_script w = [] \<longrightarrow> alloc_script w2 = []" using ok(4) by (simp add: delta_def)
      ultimately show ?thesis using *(2,4,5,6) ch
        by (intro exI [of _ pv'] exI [of _ w'] exI [of _ err] exI [of _ "trim_slash ?full # cs"]) simp
    next
      case (init_fail w')
      then have "?loop (f # fs) pv (mk_path s) path_zero buf w JFS_OK = Some (pv, w', JFS_ERR_SYS)"
        by (simp add: type comp)
      with init_fail Cons.prems show ?thesis
        by (intro exI [of _ pv] exI [of _ w'] exI [of _ JFS_ERR_SYS] exI [of _ "[]"]) simp
    next
      case (push_fail w1 w2 w')
      then have "?loop (f # fs) pv (mk_path s) path_zero buf w JFS_OK = Some (pv, w', JFS_ERR_SYS)"
        by (simp add: type comp)
      with push_fail Cons.prems show ?thesis
        by (intro exI [of _ pv] exI [of _ w'] exI [of _ JFS_ERR_SYS] exI [of _ "[]"]) simp
    qed
  qed
qed

lemma push_dir_paths:
  assumes "vec_wf pv (map mk_path ss)" and "vec_wf fv (map mk_file fs)" and "s \<noteq> []"
  shows "\<exists>pv' w' err cs. fw_push_dir_paths pv fv (mk_path s) w JFS_OK = Some (pv', w', err) \<and>
      vec_wf pv' (map mk_path (ss @ cs)) \<and> delta w w' (int (length cs)) \<and>
      (\<exists>cs'. children s fs = cs @ cs') \<and> (err = JFS_OK \<longrightarrow> cs = children s fs) \<and>
      (alloc_script w = [] \<longrightarrow> err = JFS_OK)"
proof -
  from assms(2) obtain rest where "vec_array fv = Some (map Some (map mk_file fs) @ rest)"
    "vec_count fv = length fs" by (auto simp: vec_wf_def)
  then show ?thesis using push_loop [OF assms(1,3)] by (simp only: fw_push_dir_paths_def option.case)
qed


section \<open>One step of the walk\<close>

lemma dir_init_cases:
  assumes "vec_wf fv (map mk_file fs)"
  obtains (ok) w' where "fw_dir_init dir_zero fv (mk_path s) w JFS_OK =
        Some (mk_dir (s, fs), vec_zero, path_zero, w', JFS_OK)"
      "delta w w' (dir_blocks (s, fs) - (2 + int (length fs)))"
  | (fail) w' where "fw_dir_init dir_zero fv (mk_path s) w JFS_OK =
        Some (dir_zero, fv, mk_path s, w', JFS_ERR_SYS)" "delta w w' 0" "alloc_script w \<noteq> []"
proof (cases "fs = []")
  case True
  then have "fw_vector_free (\<lambda>f w. Some (jfs_fw_file_free f w)) fv w = Some (vec_zero, heap_free False w)"
    using assms by (auto simp: vec_wf_def fw_vector_free_def free_array_def)
  moreover have "vec_count fv = 0" using assms True by (simp add: vec_wf_def)
  ultimately show thesis using True delta_free [of w False]
    by (intro ok [of "heap_free False w"])
      (simp_all add: fw_dir_init_def fw_file_vector_free_def jfs_fio_path_transfer_def dir_zero_def mk_dir_def)
next
  case False
  then have cnt: "vec_count fv = length fs" "fs \<noteq> []" using assms by (simp_all add: vec_wf_def)
  from False have "map mk_file fs \<noteq> []" by simp
  with assms show thesis
  proof (cases rule: vector_to_array_cases [of fv "map mk_file fs" w])
    case (ok w')
    with cnt show thesis
      by (intro that(1) [of w'])
        (simp_all add: fw_dir_init_def fw_file_vector_to_array_def jfs_fio_path_transfer_def dir_zero_def mk_dir_def)
  next
    case (fail w')
    with cnt show thesis
      by (intro that(2) [of w'])
        (simp_all add: fw_dir_init_def fw_file_vector_to_array_def)
  qed
qed

text \<open>The error codes that a failed step reports.\<close>

definition fw_remap :: "jfs_err_t \<Rightarrow> jfs_err_t" where
  "fw_remap err = REMAP_ERR JFS_ERR_INVAL_PATH JFS_ERR_FW_FAIL (REMAP_ERR JFS_ERR_ACCESS JFS_ERR_FW_SKIP err)"

lemma fw_remap_fails: "err \<noteq> JFS_OK \<Longrightarrow> fw_remap err \<noteq> JFS_OK"
  by (simp add: fw_remap_def REMAP_ERR_def)

lemma file_vector_free:
  "vec_wf fv (map mk_file fs) \<Longrightarrow>
     \<exists>w'. fw_file_vector_free fv w = Some (vec_zero, w') \<and> delta w w' (- (1 + int (length fs)))"
  using file_elem.vector_free [of fv "map mk_file fs" w]
  by (simp only: sum_list_one_block fw_file_vector_free_def) simp

lemma path_free_mk: "\<exists>w'. jfs_fio_path_free (mk_path s) w = (path_zero, w') \<and> delta w w' (- 1)"
  using delta_free [of w False] by (simp add: jfs_fio_path_free_def mk_path_def)

lemma zero_frees [simp]:
  "fw_file_vector_free vec_zero w = Some (vec_zero, w)"
  "jfs_fio_path_free path_zero h = (path_zero, h)"
  "jfs_fw_dir_free dir_zero w = Some (dir_zero, w)"
  by (simp_all add: fw_file_vector_free_def jfs_fio_path_free_def path_zero_def heap_free_def
      jfs_fw_dir_free_def dir_zero_def free_array_def)

text \<open>The clean-up frees all that the step holds: \<open>a\<close>, \<open>b\<close> and \<open>c\<close> blocks.\<close>

lemma step_cleanup:
  assumes "\<And>w. \<exists>w'. fw_file_vector_free fv w = Some (vec_zero, w') \<and> delta w w' (- a)"
    and "\<And>w. \<exists>w'. jfs_fio_path_free dp w = (path_zero, w') \<and> delta w w' (- b)"
    and "\<And>w. \<exists>w'. jfs_fw_dir_free dir w = Some (dir_zero, w') \<and> delta w w' (- c)"
  shows "\<exists>w'. fw_step_cleanup st is_open fv dp dir w err =
      Some (vec_count (path_vec st) = 0, st, w', fw_remap err) \<and>
      live w' = live w - (a + b + c) \<and> open_dirs w' = open_dirs w - (if is_open then 1 else 0) \<and>
      (alloc_script w = [] \<longrightarrow> alloc_script w' = [])"
proof -
  let ?w = "if is_open then fw_closedir w else w"
  obtain w1 where 1: "fw_file_vector_free fv ?w = Some (vec_zero, w1)" "delta ?w w1 (- a)" using assms(1) by blast
  obtain w2 where 2: "jfs_fio_path_free dp w1 = (path_zero, w2)" "delta w1 w2 (- b)" using assms(2) by blast
  obtain w3 where 3: "jfs_fw_dir_free dir w2 = Some (dir_zero, w3)" "delta w2 w3 (- c)" using assms(3) by blast
  have "fw_step_cleanup st is_open fv dp dir w err = Some (vec_count (path_vec st) = 0, st, w3, fw_remap err)"
    using 1(1) 2(1) 3(1) by (simp add: fw_step_cleanup_def fw_remap_def)
  moreover have "live w3 = live w - (a + b + c) \<and> open_dirs w3 = open_dirs w - (if is_open then 1 else 0) \<and>
      (alloc_script w = [] \<longrightarrow> alloc_script w3 = [])"
    using 1(2) 2(2) 3(2) by (simp add: delta_def fw_closedir_def split: if_splits)
  ultimately show ?thesis by blast
qed

text \<open>
  \<open>fw_rep st ss ds\<close>: the state \<open>st\<close> has the paths \<open>ss\<close> on its stack, the top one last, and has
  recorded the directories \<open>ds\<close>. \<open>fw_blocks\<close> counts the blocks such a state owns: the state
  itself, its two arrays, and what their elements own.
\<close>

definition fw_rep :: "jfs_fw_state \<Rightarrow> string list \<Rightarrow> (string \<times> (jfs_fw_types_t \<times> string \<times> nat) list) list \<Rightarrow> bool" where
  "fw_rep st ss ds \<longleftrightarrow> vec_wf (path_vec st) (map mk_path ss) \<and> vec_wf (dir_vec st) (map mk_dir ds) \<and> [] \<notin> set ss"

definition fw_blocks :: "string list \<Rightarrow> (string \<times> (jfs_fw_types_t \<times> string \<times> nat) list) list \<Rightarrow> int" where
  "fw_blocks ss ds = 3 + int (length ss) + sum_list (map dir_blocks ds)"

lemma children_nonempty: "[] \<notin> set (children s fs)"
  using trim_slash_nonempty [of "s @ ''/'' @ n" for n] by (auto simp: children_def) (metis append_is_Nil_conv list.distinct(1))

text \<open>
  What a step may do from a stack with \<open>s\<close> on top. It stays within memory, keeps the
  representation, and the blocks that are live but not owned by the state are the same
  before and after. It succeeds only by recording the directory; it fails with the stack
  unchanged (only when the allocator failed) or with \<open>s\<close> popped.
\<close>

definition step_ok ::
  "fw_fs \<Rightarrow> string list \<Rightarrow> string \<Rightarrow> (string \<times> (jfs_fw_types_t \<times> string \<times> nat) list) list
     \<Rightarrow> bool \<Rightarrow> string list \<Rightarrow> (string \<times> (jfs_fw_types_t \<times> string \<times> nat) list) list \<Rightarrow> bool" where
  "step_ok fs ss s ds ret ss' ds' \<longleftrightarrow> (\<exists>ents. fs s = SysOk (ents, E_NONE) \<and>
     ss' = ss @ children s (scan_files ents) \<and> ds' = ds @ [(s, scan_files ents)] \<and> ret = (ss' \<noteq> []))"

definition step_failed ::
  "fw_fs \<Rightarrow> bool \<Rightarrow> string list \<Rightarrow> string \<Rightarrow> bool \<Rightarrow> string list \<Rightarrow> jfs_err_t \<Rightarrow> bool" where
  "step_failed fs may_fail ss s ret ss' err \<longleftrightarrow> err \<noteq> JFS_OK \<and> ret = (ss' = []) \<and>
     (ss' = ss @ [s] \<and> may_fail \<or>
      ss' = ss \<and> \<not> is_ok (fs s) \<and> err = fw_remap (snd (jfs_opendir (fs s) JFS_OK)) \<or>
      (\<exists>ents e cs cs'. fs s = SysOk (ents, e) \<and> ss' = ss @ cs \<and> children s (scan_files ents) = cs @ cs' \<and>
         (may_fail \<or> cs = [] \<and> \<not> scannable ents e)))"

definition step_post ::
  "fw_fs \<Rightarrow> string list \<Rightarrow> string \<Rightarrow> (string \<times> (jfs_fw_types_t \<times> string \<times> nat) list) list \<Rightarrow> fw_world
     \<Rightarrow> (bool \<times> jfs_fw_state \<times> fw_world \<times> jfs_err_t) option \<Rightarrow> bool" where
  "step_post fs ss s ds w res \<longleftrightarrow> (\<exists>ret st' w' err ss' ds'. res = Some (ret, st', w', err) \<and>
     fw_rep st' ss' ds' \<and> live w' - fw_blocks ss' ds' = live w - fw_blocks (ss @ [s]) ds \<and>
     open_dirs w' = open_dirs w \<and> (alloc_script w = [] \<longrightarrow> alloc_script w' = []) \<and>
     (if err = JFS_OK then step_ok fs ss s ds ret ss' ds'
      else ds' = ds \<and> step_failed fs (alloc_script w \<noteq> []) ss s ret ss' err))"


text \<open>A step that goes to its clean-up holding \<open>a + b + c\<close> blocks of its own.\<close>

lemma step_post_cleanup:
  assumes "\<And>w. \<exists>w'. fw_file_vector_free fv w = Some (vec_zero, w') \<and> delta w w' (- a)"
    and "\<And>w. \<exists>w'. jfs_fio_path_free dp w = (path_zero, w') \<and> delta w w' (- b)"
    and "\<And>w. \<exists>w'. jfs_fw_dir_free dir w = Some (dir_zero, w') \<and> delta w w' (- c)"
    and rep: "fw_rep st ss' ds" and "err \<noteq> JFS_OK"
    and "live w1 = live w + (a + b + c) + int (length ss') - int (length (ss @ [s]))"
    and "open_dirs w1 = open_dirs w + (if is_open then 1 else 0)"
    and "alloc_script w = [] \<longrightarrow> alloc_script w1 = []"
    and "step_failed fs (alloc_script w \<noteq> []) ss s (ss' = []) ss' (fw_remap err)"
  shows "step_post fs ss s ds w (fw_step_cleanup st is_open fv dp dir w1 err)"
proof -
  from step_cleanup [OF assms(1-3), of st is_open w1 err] obtain w'
    where "fw_step_cleanup st is_open fv dp dir w1 err = Some (vec_count (path_vec st) = 0, st, w', fw_remap err)"
      and "live w' = live w1 - (a + b + c)"
      and "open_dirs w' = open_dirs w1 - (if is_open then 1 else 0)"
      and "alloc_script w1 = [] \<longrightarrow> alloc_script w' = []" by blast
  moreover have "(vec_count (path_vec st) = 0) = (ss' = [])"
    using rep by (auto simp: fw_rep_def vec_wf_def)
  ultimately show ?thesis
    unfolding step_post_def using assms fw_remap_fails [OF \<open>err \<noteq> JFS_OK\<close>]
    by (intro exI [of _ "ss' = []"] exI [of _ st] exI [of _ w'] exI [of _ "fw_remap err"]
        exI [of _ ss'] exI [of _ ds]) (simp add: fw_blocks_def)
qed

text \<open>The last part of a step, once the subdirectories are pushed.\<close>

lemma step_record:
  assumes rep: "fw_rep st (ss @ children s fs) ds" and fv: "vec_wf fv (map mk_file fs)"
    and ents: "fsys s = SysOk (ents, E_NONE)" "fs = scan_files ents"
    and live: "live w1 = live w + (1 + int (length fs)) + int (length (children s fs))"
    and dirs: "open_dirs w1 = open_dirs w + 1" and scr: "alloc_script w = [] \<longrightarrow> alloc_script w1 = []"
  shows "step_post fsys ss s ds w (do {
      (dir, file_vec, dpath, w, err) \<leftarrow> fw_dir_init dir_zero fv (mk_path s) w1 JFS_OK;
      if err \<noteq> JFS_OK then fw_step_cleanup st True file_vec dpath dir w err
      else do {
        (dvec, dir, w, err) \<leftarrow> fw_dir_vector_push (dir_vec st) dir w err;
        let state = st\<lparr>dir_vec := dvec\<rparr>;
        if err \<noteq> JFS_OK then fw_step_cleanup state True file_vec dpath dir w err
        else Some (vec_count (path_vec state) > 0, state, fw_closedir w, err)
      }
    })"
  using fv
proof (cases rule: dir_init_cases [of fv fs s w1])
  case (fail w2)
  have "step_post fsys ss s ds w (fw_step_cleanup st True fv (mk_path s) dir_zero w2 JFS_ERR_SYS)"
  proof (rule step_post_cleanup [OF file_vector_free [OF fv] path_free_mk _ rep])
    show "\<exists>w'. jfs_fw_dir_free dir_zero w = Some (dir_zero, w') \<and> delta w w' (- 0)" for w by simp
    show "step_failed fsys (alloc_script w \<noteq> []) ss s (ss @ children s fs = []) (ss @ children s fs) (fw_remap JFS_ERR_SYS)"
      using fail(3) scr ents by (auto simp: step_failed_def fw_remap_def REMAP_ERR_def)
  qed (use fail(2) live dirs scr in \<open>auto simp: delta_def\<close>)
  with fail(1) show ?thesis by simp
next
  case (ok w2)
  have dv: "vec_wf (dir_vec st) (map mk_dir ds)" using rep by (simp add: fw_rep_def)
  then show ?thesis
  proof (cases rule: vector_push_cases [of "dir_vec st" "map mk_dir ds" dir_zero "mk_dir (s, fs)" w2])
    case (ok dv' w3)
    let ?st = "st\<lparr>dir_vec := dv'\<rparr>"
    have "fw_rep ?st (ss @ children s fs) (ds @ [(s, fs)])"
      using rep ok(2) by (simp add: fw_rep_def)
    moreover have "vec_count (path_vec st) > 0 \<longleftrightarrow> ss @ children s fs \<noteq> []"
      using rep by (auto simp: fw_rep_def vec_wf_def)
    moreover note \<open>fw_dir_init dir_zero fv (mk_path s) w1 JFS_OK = _\<close>
      \<open>delta w1 w2 (dir_blocks (s, fs) - (2 + int (length fs)))\<close>
    ultimately show ?thesis
      unfolding step_post_def using ok(1,3) live dirs scr ents
      by (intro exI [of _ "ss @ children s fs \<noteq> []"] exI [of _ ?st] exI [of _ "fw_closedir w3"]
          exI [of _ JFS_OK] exI [of _ "ss @ children s fs"] exI [of _ "ds @ [(s, fs)]"])
        (simp add: fw_dir_vector_push_def step_ok_def fw_blocks_def delta_def fw_closedir_def)
  next
    case (fail w3)
    have "step_post fsys ss s ds w (fw_step_cleanup st True vec_zero path_zero (mk_dir (s, fs)) w3 JFS_ERR_SYS)"
    proof (rule step_post_cleanup [OF _ _ dir_free_mk rep])
      show "\<exists>w'. fw_file_vector_free vec_zero w = Some (vec_zero, w') \<and> delta w w' (- 0)" for w by simp
      show "\<exists>w'. jfs_fio_path_free path_zero w = (path_zero, w') \<and> delta w w' (- 0)" for w :: fw_world by simp
      show "step_failed fsys (alloc_script w \<noteq> []) ss s (ss @ children s fs = []) (ss @ children s fs) (fw_remap JFS_ERR_SYS)"
        using fail(3) scr ents ok(2) by (auto simp: step_failed_def fw_remap_def REMAP_ERR_def delta_def)
    qed (use fail(2) ok(2) live dirs scr in \<open>auto simp: delta_def\<close>)
    with fail(1) ok(1) show ?thesis by (simp add: fw_dir_vector_push_def)
  qed
qed


lemma scan_step:
  assumes rep: "fw_rep st ss ds" and fv: "vec_wf fv []" and "s \<noteq> []"
    and ents: "fsys s = SysOk (ents, e)"
    and live: "live w1 = live w + 1" and dirs: "open_dirs w1 = open_dirs w + 1"
    and scr: "alloc_script w = [] \<longrightarrow> alloc_script w1 = []"
  shows "step_post fsys ss s ds w (do {
      (file_vec, w, err) \<leftarrow> fw_scan_dir ents e fv w1 JFS_OK;
      if err \<noteq> JFS_OK then fw_step_cleanup st True file_vec (mk_path s) dir_zero w err
      else do {
        (pvec, w, err) \<leftarrow> fw_push_dir_paths (path_vec st) file_vec (mk_path s) w err;
        let state = st\<lparr>path_vec := pvec\<rparr>;
        if err \<noteq> JFS_OK then fw_step_cleanup state True file_vec (mk_path s) dir_zero w err
        else do {
          (dir, file_vec, dpath, w, err) \<leftarrow> fw_dir_init dir_zero file_vec (mk_path s) w err;
          if err \<noteq> JFS_OK then fw_step_cleanup state True file_vec dpath dir w err
          else do {
            (dvec, dir, w, err) \<leftarrow> fw_dir_vector_push (dir_vec state) dir w err;
            let state = state\<lparr>dir_vec := dvec\<rparr>;
            if err \<noteq> JFS_OK then fw_step_cleanup state True file_vec dpath dir w err
            else Some (vec_count (path_vec state) > 0, state, fw_closedir w, err)
          }
        }
      }
    })"
proof -
  have no_dir: "\<exists>w'. jfs_fw_dir_free dir_zero w = Some (dir_zero, w') \<and> delta w w' (- 0)" for w by simp
  from scan_dir [of fv "[]" ents e w1] fv obtain fv' w2 err fs
    where scan: "fw_scan_dir ents e fv w1 JFS_OK = Some (fv', w2, err)" "vec_wf fv' (map mk_file fs)"
      "delta w1 w2 (int (length fs))" "err = JFS_OK \<longrightarrow> fs = scan_files ents \<and> e = E_NONE"
      "alloc_script w1 = [] \<and> scannable ents e \<longrightarrow> err = JFS_OK" by auto
  show ?thesis
  proof (cases "err = JFS_OK")
    case False
    have "step_post fsys ss s ds w (fw_step_cleanup st True fv' (mk_path s) dir_zero w2 err)"
    proof (rule step_post_cleanup [OF file_vector_free [OF scan(2)] path_free_mk no_dir rep False])
      show "step_failed fsys (alloc_script w \<noteq> []) ss s (ss = []) ss (fw_remap err)"
        using False scan(5) scr ents fw_remap_fails [OF False] by (auto simp: step_failed_def)
    qed (use scan(3) live dirs scr in \<open>auto simp: delta_def\<close>)
    with scan(1) False show ?thesis by simp
  next
    case True
    with scan(4) have fs: "fs = scan_files ents" "e = E_NONE" by auto
    have pv: "vec_wf (path_vec st) (map mk_path ss)" using rep by (simp add: fw_rep_def)
    from push_dir_paths [OF pv scan(2) \<open>s \<noteq> []\<close>, of w2] obtain pv' w3 err' cs
      where push: "fw_push_dir_paths (path_vec st) fv' (mk_path s) w2 JFS_OK = Some (pv', w3, err')"
        "vec_wf pv' (map mk_path (ss @ cs))" "delta w2 w3 (int (length cs))" "\<exists>cs'. children s fs = cs @ cs'"
        "err' = JFS_OK \<longrightarrow> cs = children s fs" "alloc_script w2 = [] \<longrightarrow> err' = JFS_OK" by blast
    let ?st = "st\<lparr>path_vec := pv'\<rparr>"
    have rep': "fw_rep ?st (ss @ cs) ds"
      using rep push(2,4) children_nonempty [of s fs] by (auto simp: fw_rep_def)
    have d: "live w3 = live w + (1 + int (length fs)) + int (length cs)" "open_dirs w3 = open_dirs w + 1"
      "alloc_script w = [] \<longrightarrow> alloc_script w3 = []"
      using scan(3) push(3) live dirs scr by (auto simp: delta_def)
    show ?thesis
    proof (cases "err' = JFS_OK")
      case False
      have "step_post fsys ss s ds w (fw_step_cleanup ?st True fv' (mk_path s) dir_zero w3 err')"
      proof (rule step_post_cleanup [OF file_vector_free [OF scan(2)] path_free_mk no_dir rep' False])
        have "alloc_script w \<noteq> []" using False push(6) scan(3) scr by (auto simp: delta_def)
        then show "step_failed fsys (alloc_script w \<noteq> []) ss s (ss @ cs = []) (ss @ cs) (fw_remap err')"
          using push(4) ents fs fw_remap_fails [OF False] by (auto simp: step_failed_def)
      qed (use d in auto)
      with scan(1) True push(1) False show ?thesis by simp
    next
      case ok: True
      then have cs: "cs = children s fs" using push(5) by simp
      from step_record [where fsys = fsys, OF rep' [unfolded cs] scan(2) ents [unfolded fs(2)] fs(1)
          d(1) [unfolded cs] d(2,3)]
      show ?thesis using scan(1) push(1) ok True by (simp add: Let_def)
    qed
  qed
qed

lemma step_nonempty:
  assumes rep: "fw_rep st (ss @ [s]) ds"
  shows "step_post fsys ss s ds w (jfs_fw_state_step fsys st w JFS_OK)"
proof -
  have no_dir: "\<exists>w'. jfs_fw_dir_free dir_zero w = Some (dir_zero, w') \<and> delta w w' (- 0)" for w by simp
  have cnt: "vec_count (path_vec st) \<noteq> 0" using rep by (auto simp: fw_rep_def vec_wf_def)
  show ?thesis
  proof (cases rule: vector_init_cases [of "vec_zero :: fw_file_vector" w])
    case (fail w1)
    have "step_post fsys ss s ds w (fw_step_cleanup st False vec_zero path_zero dir_zero w1 JFS_ERR_SYS)"
    proof (rule step_post_cleanup [OF _ _ no_dir rep])
      show "\<exists>w'. fw_file_vector_free vec_zero w = Some (vec_zero, w') \<and> delta w w' (- 0)" for w by simp
      show "\<exists>w'. jfs_fio_path_free path_zero w = (path_zero, w') \<and> delta w w' (- 0)" for w :: fw_world by simp
      show "step_failed fsys (alloc_script w \<noteq> []) ss s (ss @ [s] = []) (ss @ [s]) (fw_remap JFS_ERR_SYS)"
        using fail(3) by (simp add: step_failed_def fw_remap_def REMAP_ERR_def)
    qed (use fail(2) in \<open>auto simp: delta_def\<close>)
    with fail(1) cnt show ?thesis by (simp add: jfs_fw_state_step_def fw_file_vector_init_def)
  next
    case (ok fv w1)
    have "vec_wf (path_vec st) (map mk_path ss @ [mk_path s])" using rep by (simp add: fw_rep_def)
    from path_vector_pop [OF this, of path_zero JFS_OK] obtain pv
      where pop: "fw_path_vector_pop (path_vec st) path_zero JFS_OK = Some (pv, mk_path s, JFS_OK)"
        "vec_wf pv (map mk_path ss)" by blast
    let ?st = "st\<lparr>path_vec := pv\<rparr>"
    have rep': "fw_rep ?st ss ds" and "s \<noteq> []" using rep pop(2) by (auto simp: fw_rep_def)
    have str: "path_str (mk_path s) = Some s" by (simp add: mk_path_def)
    show ?thesis
    proof (cases "fsys s")
      case (SysErr e)
      define err where "err = snd (jfs_opendir (fsys s) JFS_OK)"
      have err: "err \<noteq> JFS_OK" and op: "jfs_opendir (fsys s) JFS_OK = (None, err)"
        using SysErr opendir_w.call_fail [of "fsys s" JFS_OK] opendir_w.call_fail_err [of "fsys s" JFS_OK]
        by (auto simp: err_def prod_eq_iff)
      have "step_post fsys ss s ds w (fw_step_cleanup ?st False fv (mk_path s) dir_zero w1 err)"
      proof (rule step_post_cleanup [OF file_vector_free [of fv "[]"] path_free_mk no_dir rep' err])
        show "step_failed fsys (alloc_script w \<noteq> []) ss s (ss = []) ss (fw_remap err)"
          using SysErr fw_remap_fails [OF err] by (auto simp: step_failed_def err_def)
      qed (use ok in \<open>auto simp: delta_def\<close>)
      then show ?thesis using cnt ok(1) pop(1) err
        by (simp add: jfs_fw_state_step_def fw_file_vector_init_def fw_opendir_def str op)
    next
      case (SysOk l)
      obtain ents e where l: "l = (ents, e)" by (cases l)
      let ?w = "w1\<lparr>open_dirs := open_dirs w1 + 1\<rparr>"
      from scan_step [OF rep' ok(2) \<open>s \<noteq> []\<close>, of fsys ents e ?w w] show ?thesis
        using cnt ok(1,3) pop(1) SysOk l
        by (simp add: jfs_fw_state_step_def fw_file_vector_init_def fw_opendir_def str jfs_opendir_def delta_def Let_def)
    qed
  qed
qed


lemma step_empty: "fw_rep st [] ds \<Longrightarrow> jfs_fw_state_step fsys st w err = Some (True, st, w, err)"
  by (simp add: jfs_fw_state_step_def fw_rep_def vec_wf_def)

lemma step_success:
  assumes "fw_rep st (ss @ [s]) ds" and "alloc_script w = []" and "fsys s = SysOk (ents, e)"
    and "scannable ents e"
  shows "\<exists>st' w'. jfs_fw_state_step fsys st w JFS_OK =
      Some (ss @ children s (scan_files ents) \<noteq> [], st', w', JFS_OK) \<and>
    fw_rep st' (ss @ children s (scan_files ents)) (ds @ [(s, scan_files ents)]) \<and> alloc_script w' = [] \<and>
    open_dirs w' = open_dirs w \<and>
    live w' - fw_blocks (ss @ children s (scan_files ents)) (ds @ [(s, scan_files ents)]) = live w - fw_blocks (ss @ [s]) ds"
  using step_nonempty [OF assms(1), of fsys w] assms(2-4)
  by (auto simp: step_post_def step_ok_def step_failed_def split: if_splits)

lemma step_unreadable:
  assumes "fw_rep st (ss @ [s]) ds" and "alloc_script w = []" and "\<not> is_ok (fsys s)"
  shows "\<exists>st' w'. jfs_fw_state_step fsys st w JFS_OK =
      Some (ss = [], st', w', fw_remap (snd (jfs_opendir (fsys s) JFS_OK))) \<and>
    fw_rep st' ss ds \<and> alloc_script w' = [] \<and> open_dirs w' = open_dirs w \<and>
    live w' - fw_blocks ss ds = live w - fw_blocks (ss @ [s]) ds"
  using step_nonempty [OF assms(1), of fsys w] assms(2,3)
  by (auto simp: step_post_def step_ok_def step_failed_def split: if_splits)

section \<open>Creating and destroying\<close>

lemma path_vector_free:
  "vec_wf v (map mk_path ss) \<Longrightarrow>
     \<exists>w'. fw_path_vector_free v w = Some (vec_zero, w') \<and> delta w w' (- (1 + int (length ss)))"
  using path_elem.vector_free [of v "map mk_path ss" w]
  by (simp only: sum_list_one_block fw_path_vector_free_def) simp

lemma dir_vector_free:
  "vec_wf v (map mk_dir ds) \<Longrightarrow>
     \<exists>w'. fw_dir_vector_free v w = Some (vec_zero, w') \<and> delta w w' (- (1 + sum_list (map dir_blocks ds)))"
  using dir_elem.vector_free [of v "map mk_dir ds" w]
  by (simp add: fw_dir_vector_free_def comp_def)

lemma state_destroy:
  assumes "fw_rep st ss ds"
  shows "\<exists>w'. jfs_fw_state_destroy (Some st) w = Some w' \<and> delta w w' (- fw_blocks ss ds)"
proof -
  from assms have pv: "vec_wf (path_vec st) (map mk_path ss)" and dv: "vec_wf (dir_vec st) (map mk_dir ds)"
    by (simp_all add: fw_rep_def)
  from path_vector_free [OF pv, of w] obtain w1 where 1: "fw_path_vector_free (path_vec st) w = Some (vec_zero, w1)"
    "delta w w1 (- (1 + int (length ss)))" by blast
  from dir_vector_free [OF dv, of w1] obtain w2 where 2: "fw_dir_vector_free (dir_vec st) w1 = Some (vec_zero, w2)"
    "delta w1 w2 (- (1 + sum_list (map dir_blocks ds)))" by blast
  have "delta w (heap_free False w2) (- fw_blocks ss ds)"
    by (rule delta_cong [OF delta_trans [OF delta_trans [OF 1(2) 2(2)] delta_free]]) (simp add: fw_blocks_def)
  with 1(1) 2(1) show ?thesis by (simp add: jfs_fw_state_destroy_def)
qed

lemma heap_malloc_ok:
  fixes w :: fw_world
  assumes "alloc_script w = []"
  shows "\<exists>w'. heap_malloc w JFS_OK = (Some (), w', JFS_OK) \<and> delta w w' 1 \<and> alloc_script w' = []"
  using assms by (cases rule: heap_malloc_cases [of w JFS_OK]) (auto simp: delta_def next_alloc_def)

lemma state_create:
  assumes "alloc_script w = []" and "path_str start = Some s" and "s \<noteq> []" and "length (trim_slash s) \<le> PATH_MAX"
  shows "\<exists>st w'. jfs_fw_state_create junk start w JFS_OK = Some (Some st, w', JFS_OK) \<and>
    fw_rep st [trim_slash s] [] \<and> delta w w' (fw_blocks [trim_slash s] []) \<and> alloc_script w' = []"
proof -
  from heap_malloc_ok [OF assms(1)] obtain w1 where 1: "heap_malloc w JFS_OK = (Some (), w1, JFS_OK)"
    "delta w w1 1" "alloc_script w1 = []" by blast
  obtain pv w2 where 2: "fw_vector_init (path_vec junk) w1 JFS_OK = (pv, w2, JFS_OK)" "vec_wf pv []" "delta w1 w2 1"
    using 1(3) by (cases rule: vector_init_cases [of "path_vec junk" w1]) auto
  then have s2: "alloc_script w2 = []" using 1(3) by (simp add: delta_def)
  obtain dv w3 where 3: "fw_vector_init (dir_vec junk) w2 JFS_OK = (dv, w3, JFS_OK)" "vec_wf dv []" "delta w2 w3 1"
    using s2 by (cases rule: vector_init_cases [of "dir_vec junk" w2]) auto
  then have s3: "alloc_script w3 = []" using s2 by (simp add: delta_def)
  obtain w4 where 4: "jfs_fio_path_init path_zero s w3 JFS_OK = (mk_path (trim_slash s), w4, JFS_OK)" "delta w3 w4 1"
    using s3 by (cases rule: path_init_cases [OF assms(4), of path_zero w3]) auto
  then have s4: "alloc_script w4 = []" using s3 by (simp add: delta_def)
  obtain pv' w5 where 5: "fw_vector_push path_zero pv (mk_path (trim_slash s)) w4 JFS_OK = Some (pv', path_zero, w5, JFS_OK)"
    "vec_wf pv' [mk_path (trim_slash s)]" "delta w4 w5 0"
    using s4 by (cases rule: vector_push_cases [OF 2(2), of path_zero "mk_path (trim_slash s)" w4]) auto
  let ?st = "junk\<lparr>path_vec := pv', dir_vec := dv\<rparr>"
  have "jfs_fw_state_create junk start w JFS_OK = Some (Some ?st, w5, JFS_OK)"
    using 1(1) 2(1) 3(1) 4(1) 5(1) assms(2)
    by (simp add: jfs_fw_state_create_def fw_path_vector_init_def fw_dir_vector_init_def fw_path_vector_push_def Let_def)
  moreover have "fw_rep ?st [trim_slash s] []"
    using 5(2) 3(2) trim_slash_nonempty [OF assms(3)] by (simp add: fw_rep_def)
  moreover have "delta w w5 (fw_blocks [trim_slash s] [])" "alloc_script w5 = []"
    using 1(2) 2(3) 3(3) 4(2) 5(3) s4 by (simp_all add: delta_def fw_blocks_def)
  ultimately show ?thesis by blast
qed

lemma record_init:
  assumes rep: "fw_rep st [] ds" and "ds \<noteq> []" and "alloc_script w = []"
  shows "\<exists>w'. jfs_fw_record_init r st w JFS_OK =
      Some (\<lparr>rec_dir_count = length ds, rec_dir_array = Some (map Some (map mk_dir ds))\<rparr>, None, w', JFS_OK) \<and>
    delta w w' (- 2)"
proof -
  from rep have dv: "vec_wf (dir_vec st) (map mk_dir ds)" and pv: "vec_wf (path_vec st) []"
    by (simp_all add: fw_rep_def)
  have "map mk_dir ds \<noteq> []" using assms(2) by simp
  then obtain w1 where 1: "fw_vector_to_array (dir_vec st) w JFS_OK = (Some (map Some (map mk_dir ds)), vec_zero, w1, JFS_OK)"
    "delta w w1 0" using assms(3) by (cases rule: vector_to_array_cases [OF dv, of w]) auto
  from path_vector_free [of "path_vec st" "[]" w1] pv obtain w2
    where 2: "fw_path_vector_free (path_vec st) w1 = Some (vec_zero, w2)" "delta w1 w2 (- 1)" by auto
  have "fw_dir_vector_free vec_zero w2 = Some (vec_zero, w2)" by (simp add: fw_dir_vector_free_def)
  then have "jfs_fw_state_destroy (Some (st\<lparr>dir_vec := vec_zero\<rparr>)) w1 = Some (heap_free False w2)"
    using 2(1) by (simp add: jfs_fw_state_destroy_def)
  moreover have "delta w (heap_free False w2) (- 2)"
    by (rule delta_cong [OF delta_trans [OF delta_trans [OF 1(2) 2(2)] delta_free]]) simp
  ultimately show ?thesis
    using 1(1) vec_wf_count [OF pv] vec_wf_count [OF dv]
    by (simp add: jfs_fw_record_init_def fw_dir_vector_to_array_def)
qed

lemma record_free:
  "\<exists>w'. jfs_fw_record_free \<lparr>rec_dir_count = length ds, rec_dir_array = Some (map Some (map mk_dir ds))\<rparr> w =
      Some (record_zero, w') \<and> delta w w' (- (1 + sum_list (map dir_blocks ds)))"
  using dir_elem.free_array [of "map mk_dir ds" "[]" w] by (auto simp: jfs_fw_record_free_def comp_def)

section \<open>The order of a walk\<close>

text \<open>
  What a walk reads of a directory, its subdirectories, and all it records from a path on: the
  directory first, then its subdirectories, the last pushed first. The walk is finite because
  a subdirectory has a longer path and paths longer than \<open>PATH_MAX\<close> are left out.
\<close>

fun dir_listing :: "(dirent list \<times> errno) sys \<Rightarrow> (jfs_fw_types_t \<times> string \<times> nat) list" where
  "dir_listing (SysOk (ents, _)) = scan_files ents"
| "dir_listing (SysErr _) = []"

definition subdirs :: "fw_fs \<Rightarrow> string \<Rightarrow> string list" where
  "subdirs fsys s = children s (dir_listing (fsys s))"

function walk_order :: "fw_fs \<Rightarrow> string \<Rightarrow> (string \<times> (jfs_fw_types_t \<times> string \<times> nat) list) list" where
  "walk_order fsys s = (s, dir_listing (fsys s)) #
     concat (map (walk_order fsys) (rev (filter (\<lambda>c. length s < length c \<and> length c \<le> PATH_MAX) (subdirs fsys s))))"
  by pat_completeness auto
termination by (relation "measure (\<lambda>(_, s). PATH_MAX - length s)") auto

declare walk_order.simps [simp del]

inductive reach_dir :: "fw_fs \<Rightarrow> string \<Rightarrow> string \<Rightarrow> bool" for fsys s where
  start: "reach_dir fsys s s"
| child: "reach_dir fsys s d \<Longrightarrow> c \<in> set (subdirs fsys d) \<Longrightarrow> reach_dir fsys s c"

lemma reach_trans: "reach_dir fsys d e \<Longrightarrow> reach_dir fsys s d \<Longrightarrow> reach_dir fsys s e"
  by (induction rule: reach_dir.induct) (auto intro: reach_dir.child)

text \<open>A directory that can be read to its end, with the entry names a file system has.\<close>

definition readable :: "fw_fs \<Rightarrow> string \<Rightarrow> bool" where
  "readable fsys d \<longleftrightarrow> (case fsys d of
     SysOk (ents, e) \<Rightarrow> scannable ents e \<and> (\<forall>ent\<in>set ents. d_name ent \<noteq> [])
   | SysErr _ \<Rightarrow> False)"

lemma subdirs_longer:
  assumes "readable fsys d" and "c \<in> set (subdirs fsys d)"
  shows "length d < length c \<and> length c \<le> PATH_MAX"
proof -
  obtain ents e where ents: "fsys d = SysOk (ents, e)" "\<forall>ent\<in>set ents. d_name ent \<noteq> []"
    using assms(1) by (auto simp: readable_def split: sys.splits)
  with assms(2) obtain n where c: "c = trim_slash (d @ ''/'' @ n)" "length d + length n + 1 \<le> PATH_MAX" "n \<noteq> []"
    by (auto simp: subdirs_def children_def scan_files_def ent_file_def)
  then have "length (d @ ''/'' @ n) - 1 \<le> length c" by (auto simp: trim_slash_def)
  moreover have "length c \<le> length (d @ ''/'' @ n)" unfolding c(1) by (rule trim_slash_length)
  moreover have "1 \<le> length n" using c(3) by (cases n) auto
  ultimately show ?thesis using c(2) by simp
qed

lemma walk_order_readable:
  "readable fsys s \<Longrightarrow>
     walk_order fsys s = (s, dir_listing (fsys s)) # concat (map (walk_order fsys) (rev (subdirs fsys s)))"
  by (subst walk_order.simps) (use subdirs_longer in \<open>force intro!: arg_cong [where f = "\<lambda>x. concat (map (walk_order fsys) (rev x))"] simp: filter_id_conv\<close>)


lemma walk_order_reach:
  "(d, l) \<in> set (walk_order fsys s) \<Longrightarrow> reach_dir fsys s d \<and> l = dir_listing (fsys d)"
proof (induction fsys s arbitrary: d l rule: walk_order.induct)
  case (1 fsys s)
  from 1(2) consider "d = s" "l = dir_listing (fsys s)"
    | c where "c \<in> set (subdirs fsys s)" "length s < length c" "length c \<le> PATH_MAX" "(d, l) \<in> set (walk_order fsys c)"
    by (subst (asm) walk_order.simps) auto
  then show ?case
  proof cases
    case 1
    then show ?thesis by (simp add: reach_dir.start)
  next
    case (2 c)
    have "reach_dir fsys s c" using 2(1) by (blast intro: reach_dir.intros)
    with 1(1) [of c] 2 show ?thesis by (auto intro: reach_trans)
  qed
qed

lemma walk_order_closed:
  "(d, l) \<in> set (walk_order fsys s) \<Longrightarrow> readable fsys d \<Longrightarrow> c \<in> set (subdirs fsys d) \<Longrightarrow>
     (c, dir_listing (fsys c)) \<in> set (walk_order fsys s)"
proof (induction fsys s arbitrary: d l rule: walk_order.induct)
  case (1 fsys s)
  have head: "(x, dir_listing (fsys x)) \<in> set (walk_order fsys x)" for x by (subst walk_order.simps) simp
  have sub: "set (walk_order fsys x) \<subseteq> set (walk_order fsys s)"
    if "x \<in> set (subdirs fsys s)" "length s < length x" "length x \<le> PATH_MAX" for x
    using that by (subst (2) walk_order.simps) auto
  from 1(2) consider "d = s"
    | x where "x \<in> set (subdirs fsys s)" "length s < length x" "length x \<le> PATH_MAX" "(d, l) \<in> set (walk_order fsys x)"
    by (subst (asm) walk_order.simps) auto
  then show ?case
  proof cases
    case 1
    with \<open>readable fsys d\<close> \<open>c \<in> set (subdirs fsys d)\<close> show ?thesis
      using subdirs_longer [of fsys d c] sub [of c] head [of c] by auto
  next
    case (2 x)
    from 1(1) [of x d l] 2 \<open>readable fsys d\<close> \<open>c \<in> set (subdirs fsys d)\<close> sub [of x] show ?thesis by auto
  qed
qed

lemma walk_order_complete:
  assumes "\<forall>d. reach_dir fsys s d \<longrightarrow> readable fsys d"
  shows "set (walk_order fsys s) = {(d, dir_listing (fsys d)) |d. reach_dir fsys s d}"
proof -
  have "(d, dir_listing (fsys d)) \<in> set (walk_order fsys s)" if "reach_dir fsys s d" for d
    using that
  proof induction
    case start
    show ?case by (subst walk_order.simps) simp
  next
    case (child d c)
    then show ?case using assms walk_order_closed by blast
  qed
  then show ?thesis using walk_order_reach by fastforce
qed

lemma readable_step:
  assumes "readable fsys s"
  obtains ents where "fsys s = SysOk (ents, E_NONE)" "scannable ents E_NONE" "dir_listing (fsys s) = scan_files ents"
    "subdirs fsys s = children s (scan_files ents)"
  using assms by (auto simp: readable_def scannable_def subdirs_def split: sys.splits)

lemma walk_loop:
  assumes "fw_rep st ss ds" and "ss \<noteq> []" and "alloc_script w = []"
    and "\<forall>s\<in>set ss. \<forall>d. reach_dir fsys s d \<longrightarrow> readable fsys d"
    and "n = length (concat (map (walk_order fsys) (rev ss)))"
  shows "\<exists>st' w'. fw_walk_loop n fsys st w JFS_OK = Some (Returned (st', w', JFS_OK)) \<and>
    fw_rep st' [] (ds @ concat (map (walk_order fsys) (rev ss))) \<and> alloc_script w' = [] \<and>
    open_dirs w' = open_dirs w \<and>
    live w' - fw_blocks [] (ds @ concat (map (walk_order fsys) (rev ss))) = live w - fw_blocks ss ds"
  using assms
proof (induction n arbitrary: st ss ds w)
  case 0
  have "walk_order fsys x \<noteq> []" for x by (subst walk_order.simps) simp
  with 0 show ?case by (cases ss) auto
next
  case (Suc n)
  obtain ss0 s where ss: "ss = ss0 @ [s]" using Suc.prems(2) by (cases ss rule: rev_cases) auto
  have rd: "readable fsys s" using Suc.prems(4) ss by (auto intro: reach_dir.start)
  then obtain ents where ents: "fsys s = SysOk (ents, E_NONE)" "scannable ents E_NONE"
      "dir_listing (fsys s) = scan_files ents" "subdirs fsys s = children s (scan_files ents)"
    by (rule readable_step)
  let ?ss = "ss0 @ subdirs fsys s"
  let ?d = "(s, scan_files ents)"
  have order: "concat (map (walk_order fsys) (rev ss)) = ?d # concat (map (walk_order fsys) (rev ?ss))"
    by (simp add: ss walk_order_readable [OF rd] ents(3))
  from step_success [where fsys = fsys, OF Suc.prems(1) [unfolded ss] Suc.prems(3) ents(1,2)] obtain st1 w1
    where step: "jfs_fw_state_step fsys st w JFS_OK = Some (?ss \<noteq> [], st1, w1, JFS_OK)"
      "fw_rep st1 ?ss (ds @ [?d])" "alloc_script w1 = []" "open_dirs w1 = open_dirs w"
      "live w1 - fw_blocks ?ss (ds @ [?d]) = live w - fw_blocks ss ds"
    unfolding ss ents(4) by blast
  show ?case
  proof (cases "?ss = []")
    case True
    with step order show ?thesis by simp
  next
    case False
    have sub: "reach_dir fsys s c" if "c \<in> set (subdirs fsys s)" for c
      using that by (blast intro: reach_dir.intros)
    have "\<forall>x\<in>set ?ss. \<forall>d. reach_dir fsys x d \<longrightarrow> readable fsys d"
      using Suc.prems(4) ss by (auto intro: reach_trans dest: sub)
    moreover have "n = length (concat (map (walk_order fsys) (rev ?ss)))"
      using Suc.prems(5) unfolding order by simp
    ultimately obtain st' w' where "fw_walk_loop n fsys st1 w1 JFS_OK = Some (Returned (st', w', JFS_OK))"
      "fw_rep st' [] ((ds @ [?d]) @ concat (map (walk_order fsys) (rev ?ss)))" "alloc_script w' = []"
      "open_dirs w' = open_dirs w1"
      "live w' - fw_blocks [] ((ds @ [?d]) @ concat (map (walk_order fsys) (rev ?ss))) = live w1 - fw_blocks ?ss (ds @ [?d])"
      using Suc.IH [OF step(2) False step(3)] by blast
    with step False show ?thesis unfolding order by simp
  qed
qed


section \<open>Properties\<close>

text \<open>C5. A step of the walk never leaves memory and leaks nothing, whatever the kernel and the
  allocator answer. From a well-formed state it returns, the state is well formed again, it
  has closed the directory stream it opened, and the number of live blocks has changed by
  exactly as much as the number of blocks the state owns. A step that reports success has
  recorded the top directory with its files and replaced it by its subdirectories; a step
  that reports an error has recorded nothing.\<close>

theorem fw_step_safe:
  assumes "fw_rep st ss ds"
  shows "\<exists>ret st' w' err ss' ds'. jfs_fw_state_step fsys st w JFS_OK = Some (ret, st', w', err) \<and>
    fw_rep st' ss' ds' \<and> open_dirs w' = open_dirs w \<and>
    live w' - live w = fw_blocks ss' ds' - fw_blocks ss ds \<and>
    (err \<noteq> JFS_OK \<longrightarrow> ds' = ds) \<and>
    (err = JFS_OK \<and> ss \<noteq> [] \<longrightarrow> ss' = butlast ss @ subdirs fsys (last ss) \<and>
       ds' = ds @ [(last ss, dir_listing (fsys (last ss)))])"
proof (cases ss rule: rev_cases)
  case Nil
  with assms step_empty [of st ds fsys w JFS_OK] show ?thesis by force
next
  case (snoc ss0 s)
  then have "step_post fsys ss0 s ds w (jfs_fw_state_step fsys st w JFS_OK)"
    using step_nonempty assms by simp
  then obtain ret st' w' err ss' ds' where *: "jfs_fw_state_step fsys st w JFS_OK = Some (ret, st', w', err)"
      "fw_rep st' ss' ds'" "live w' - fw_blocks ss' ds' = live w - fw_blocks ss ds" "open_dirs w' = open_dirs w"
      "if err = JFS_OK then step_ok fsys ss0 s ds ret ss' ds'
       else ds' = ds \<and> step_failed fsys (alloc_script w \<noteq> []) ss0 s ret ss' err"
    unfolding step_post_def snoc by blast
  have "err = JFS_OK \<Longrightarrow> ss' = butlast ss @ subdirs fsys (last ss) \<and>
      ds' = ds @ [(last ss, dir_listing (fsys (last ss)))]"
    using *(5) by (auto simp: step_ok_def subdirs_def snoc)
  with * show ?thesis by (intro exI [of _ ret] exI [of _ st'] exI [of _ w'] exI [of _ err]
        exI [of _ ss'] exI [of _ ds']) auto
qed

definition demo_state :: "string list \<Rightarrow> jfs_fw_state" where
  "demo_state ss = \<lparr>
     path_vec = \<lparr>vec_count = length ss, vec_capacity = length ss + 1, vec_array = Some (map Some (map mk_path ss) @ [None])\<rparr>,
     dir_vec = \<lparr>vec_count = 0, vec_capacity = 1, vec_array = Some [None]\<rparr>\<rparr>"

definition demo_world :: fw_world where
  "demo_world = \<lparr>alloc_script = [], live = 4, open_dirs = 0\<rparr>"

definition demo_fs :: fw_fs where
  "demo_fs p =
    (if p = ''/r'' then SysOk ([\<lparr>d_name = ''.'', d_type = DT_DIR, d_ino = 1\<rparr>,
        \<lparr>d_name = ''a'', d_type = DT_DIR, d_ino = 2\<rparr>, \<lparr>d_name = ''f'', d_type = DT_REG, d_ino = 3\<rparr>,
        \<lparr>d_name = ''l'', d_type = DT_OTHER 10, d_ino = 4\<rparr>], E_NONE)
     else if p = ''/r/a'' then SysOk ([], E_NONE)
     else SysErr EACCES)"

lemma demo_rep: "[] \<notin> set ss \<Longrightarrow> fw_rep (demo_state ss) ss []"
  by (auto simp: fw_rep_def demo_state_def vec_wf_def)

theorem fw_step_safe_witness:
  "\<exists>st' w' ss' ds'. jfs_fw_state_step demo_fs (demo_state [''/r'']) demo_world JFS_OK = Some (True, st', w', JFS_OK) \<and>
    fw_rep st' ss' ds' \<and> ss' = [''/r/a''] \<and>
    ds' = [(''/r'', [(JFS_FW_DIR, ''a'', 2), (JFS_FW_REG, ''f'', 3)])] \<and> live w' = 8 \<and> open_dirs w' = 0"
proof -
  have run: "map_option (\<lambda>(r, _, _, e). (r, e)) (jfs_fw_state_step demo_fs (demo_state [''/r'']) demo_world JFS_OK) = Some (True, JFS_OK)"
    by code_simp
  have sub: "subdirs demo_fs ''/r'' = [''/r/a'']"
    "dir_listing (demo_fs ''/r'') = [(JFS_FW_DIR, ''a'', 2), (JFS_FW_REG, ''f'', 3)]" by code_simp+
  have "fw_rep (demo_state [''/r'']) [''/r''] []" by (rule demo_rep) simp
  from fw_step_safe [OF this, of demo_fs demo_world] run sub show ?thesis
    by (auto simp: fw_blocks_def demo_world_def)
qed

text \<open>C4. A whole walk terminates and is complete. Driven by the loop of \<open>test.c\<close> from a stack of
  paths whose reachable directories can all be read, with an allocator that does not fail,
  the walk ends without an error after one step per directory, having recorded exactly the
  directories reachable from those paths, each with its files, in depth-first order; it
  leaks no block and no directory stream.\<close>

theorem fw_walk_complete:
  assumes "fw_rep st [s] []" and "alloc_script w = []"
    and "\<forall>d. reach_dir fsys s d \<longrightarrow> readable fsys d"
  shows "\<exists>st' w'. fw_walk_loop (length (walk_order fsys s)) fsys st w JFS_OK = Some (Returned (st', w', JFS_OK)) \<and>
    fw_rep st' [] (walk_order fsys s) \<and>
    set (walk_order fsys s) = {(d, dir_listing (fsys d)) |d. reach_dir fsys s d} \<and>
    open_dirs w' = open_dirs w \<and> live w' - live w = fw_blocks [] (walk_order fsys s) - fw_blocks [s] []"
  using walk_loop [OF assms(1) _ assms(2), of fsys] walk_order_complete [OF assms(3)] assms(3) by auto

lemma demo_reach: "reach_dir demo_fs ''/r'' d \<Longrightarrow> d = ''/r'' \<or> d = ''/r/a''"
proof (induction rule: reach_dir.induct)
  case (child d c)
  have "set (subdirs demo_fs ''/r'') = {''/r/a''}" "set (subdirs demo_fs ''/r/a'') = {}" by code_simp+
  with child show ?case by (elim disjE) simp_all
qed simp

lemma demo_order: "walk_order demo_fs ''/r'' =
    [(''/r'', [(JFS_FW_DIR, ''a'', 2), (JFS_FW_REG, ''f'', 3)]), (''/r/a'', [])]"
  by code_simp

lemma demo_readable: "reach_dir demo_fs ''/r'' d \<Longrightarrow> readable demo_fs d"
proof -
  have "readable demo_fs ''/r''" "readable demo_fs ''/r/a''"
    by (simp_all add: readable_def scannable_def NAME_MAX_def demo_fs_def)
  then show "reach_dir demo_fs ''/r'' d \<Longrightarrow> readable demo_fs d" using demo_reach by blast
qed

theorem fw_walk_complete_witness:
  "\<exists>st' w'. fw_walk_loop 2 demo_fs (demo_state [''/r'']) demo_world JFS_OK = Some (Returned (st', w', JFS_OK)) \<and>
    fw_rep st' [] [(''/r'', [(JFS_FW_DIR, ''a'', 2), (JFS_FW_REG, ''f'', 3)]), (''/r/a'', [])]"
proof -
  have rep: "fw_rep (demo_state [''/r'']) [''/r''] []" by (rule demo_rep) simp
  have 2: "length (walk_order demo_fs ''/r'') = 2" by (simp add: demo_order)
  from fw_walk_complete [OF rep, of demo_world demo_fs] demo_readable show ?thesis
    unfolding 2 unfolding demo_order by (auto simp: demo_world_def demo_fs_def)
qed

text \<open>C40. With an allocator that does not fail, a directory that cannot be opened is reported and dropped from the stack, with nothing
  recorded and nothing leaked: \<open>JFS_ERR_FW_SKIP\<close> when access is denied, \<open>JFS_ERR_FW_FAIL\<close> when the
  path does not lead to a directory, \<open>JFS_ERR_SYS\<close> otherwise.\<close>

theorem fw_step_unreadable:
  assumes "fw_rep st (ss @ [s]) ds" and "alloc_script w = []" and "fsys s = SysErr e"
  shows "\<exists>st' w' err. jfs_fw_state_step fsys st w JFS_OK = Some (ss = [], st', w', err) \<and>
    err = (if e = EACCES then JFS_ERR_FW_SKIP else if e = ENOENT \<or> e = ENOTDIR then JFS_ERR_FW_FAIL else JFS_ERR_SYS) \<and>
    fw_rep st' ss ds \<and> open_dirs w' = open_dirs w \<and> live w' - live w = fw_blocks ss ds - fw_blocks (ss @ [s]) ds"
proof -
  have "fw_remap (snd (jfs_opendir (fsys s) JFS_OK)) =
      (if e = EACCES then JFS_ERR_FW_SKIP else if e = ENOENT \<or> e = ENOTDIR then JFS_ERR_FW_FAIL else JFS_ERR_SYS)"
    by (cases e) (simp_all add: assms(3) jfs_opendir_def fw_remap_def REMAP_ERR_def)
  then show ?thesis using step_unreadable [OF assms(1,2), of fsys] assms(3) by (auto simp: algebra_simps)
qed

theorem fw_step_unreadable_witness:
  "\<exists>st' w'. jfs_fw_state_step demo_fs (demo_state [''/r'', ''/x'']) demo_world JFS_OK =
      Some (False, st', w', JFS_ERR_FW_SKIP) \<and> fw_rep st' [''/r''] []"
proof -
  have rep: "fw_rep (demo_state [''/r'', ''/x'']) ([''/r''] @ [''/x'']) []" by (simp add: demo_rep)
  from fw_step_unreadable [OF rep, of demo_world demo_fs EACCES] show ?thesis
    by (auto simp: demo_world_def demo_fs_def)
qed

text \<open>The value a step returns after an error has the opposite meaning of the one it returns
  after a success, so the loop of \<open>test.c\<close> goes wrong at a directory without access. When it is
  the last one on the stack the loop never ends; otherwise the loop ends at once with
  \<open>JFS_ERR_FW_SKIP\<close> and paths left on the stack.\<close>

theorem fw_walk_skip_breaks_loop:
  assumes "fw_rep st (ss @ [s]) ds" and "alloc_script w = []" and "fsys s = SysErr EACCES"
  shows "(ss = [] \<longrightarrow> (\<exists>st' w'. fw_rep st' [] ds \<and> (\<forall>n. fw_walk_loop (Suc n) fsys st w JFS_OK = Some (Running (st', w', JFS_OK))))) \<and>
    (ss \<noteq> [] \<longrightarrow> (\<exists>st' w'. fw_rep st' ss ds \<and> (\<forall>n. fw_walk_loop (Suc n) fsys st w JFS_OK = Some (Returned (st', w', JFS_ERR_FW_SKIP)))))"
proof -
  have err: "fw_remap (snd (jfs_opendir (fsys s) JFS_OK)) = JFS_ERR_FW_SKIP"
    by (simp add: assms(3) jfs_opendir_def fw_remap_def REMAP_ERR_def)
  from step_unreadable [OF assms(1,2), of fsys] assms(3) obtain st' w'
    where step: "jfs_fw_state_step fsys st w JFS_OK = Some (ss = [], st', w', JFS_ERR_FW_SKIP)" "fw_rep st' ss ds"
    unfolding err by auto
  have spin: "fw_walk_loop n fsys st' w' JFS_OK = Some (Running (st', w', JFS_OK))" if "ss = []" for n
    using step_empty [of st' ds fsys w' JFS_OK] step(2) that by (induction n) simp_all
  show ?thesis using step spin by (auto simp: RES_ERR_def)
qed

theorem fw_walk_skip_breaks_loop_witness:
  "\<exists>st' w'. \<forall>n. fw_walk_loop (Suc n) demo_fs (demo_state [''/x'']) demo_world JFS_OK = Some (Running (st', w', JFS_OK))"
proof -
  have rep: "fw_rep (demo_state [''/x'']) ([] @ [''/x'']) []" by (simp add: demo_rep)
  from fw_walk_skip_breaks_loop [OF rep, of demo_world demo_fs] show ?thesis
    by (auto simp: demo_world_def demo_fs_def)
qed

text \<open>C28. The life of a walk gives back all it takes. With an allocator that does not fail, from a non-empty path of at most
  \<open>PATH_MAX\<close> characters, and when every directory that can be reached from it can be read (\<open>fw_walk_skip_breaks_loop\<close>
  is the other case), creating a state, walking to the end, turning the state into a record and freeing the record succeed, the record lists the
  directories in the order of the walk, and in the end as many blocks and directory streams
  are live as in the beginning.\<close>

theorem fw_lifecycle:
  assumes "alloc_script w = []" and "path_str start = Some s" and "s \<noteq> []" and "length (trim_slash s) \<le> PATH_MAX"
    and "\<forall>d. reach_dir fsys (trim_slash s) d \<longrightarrow> readable fsys d"
  shows "\<exists>st st' rec w1 w2 w3 w4.
    jfs_fw_state_create junk start w JFS_OK = Some (Some st, w1, JFS_OK) \<and>
    fw_walk_loop (length (walk_order fsys (trim_slash s))) fsys st w1 JFS_OK = Some (Returned (st', w2, JFS_OK)) \<and>
    jfs_fw_record_init r st' w2 JFS_OK = Some (rec, None, w3, JFS_OK) \<and>
    rec = \<lparr>rec_dir_count = length (walk_order fsys (trim_slash s)),
           rec_dir_array = Some (map Some (map mk_dir (walk_order fsys (trim_slash s))))\<rparr> \<and>
    jfs_fw_record_free rec w3 = Some (record_zero, w4) \<and>
    live w4 = live w \<and> open_dirs w4 = open_dirs w"
proof -
  let ?s = "trim_slash s" and ?ds = "walk_order fsys (trim_slash s)"
  from state_create [OF assms(1-4), of junk] obtain st w1
    where 1: "jfs_fw_state_create junk start w JFS_OK = Some (Some st, w1, JFS_OK)" "fw_rep st [?s] []"
      "delta w w1 (fw_blocks [?s] [])" "alloc_script w1 = []" by blast
  from walk_loop [OF 1(2) _ 1(4), of fsys] assms(5) obtain st' w2
    where 2: "fw_walk_loop (length ?ds) fsys st w1 JFS_OK = Some (Returned (st', w2, JFS_OK))" "fw_rep st' [] ?ds"
      "alloc_script w2 = []" "open_dirs w2 = open_dirs w1" "live w2 - fw_blocks [] ?ds = live w1 - fw_blocks [?s] []"
    by auto
  have "?ds \<noteq> []" by (subst walk_order.simps) simp
  from record_init [OF 2(2) this 2(3), of r] obtain w3
    where 3: "jfs_fw_record_init r st' w2 JFS_OK = Some (\<lparr>rec_dir_count = length ?ds,
        rec_dir_array = Some (map Some (map mk_dir ?ds))\<rparr>, None, w3, JFS_OK)" "delta w2 w3 (- 2)" by blast
  from record_free [of ?ds w3] obtain w4
    where 4: "jfs_fw_record_free \<lparr>rec_dir_count = length ?ds, rec_dir_array = Some (map Some (map mk_dir ?ds))\<rparr> w3 =
        Some (record_zero, w4)" "delta w3 w4 (- (1 + sum_list (map dir_blocks ?ds)))" by blast
  have "live w4 = live w \<and> open_dirs w4 = open_dirs w"
    using 1(3) 2(4,5) 3(2) 4(2) by (simp add: delta_def fw_blocks_def)
  with 1(1) 2(1) 3(1) 4(1) show ?thesis by blast
qed

theorem fw_lifecycle_witness:
  "\<exists>st st' rec w1 w2 w3 w4.
    jfs_fw_state_create (demo_state []) (mk_path ''/r/'') demo_world JFS_OK = Some (Some st, w1, JFS_OK) \<and>
    fw_walk_loop 2 demo_fs st w1 JFS_OK = Some (Returned (st', w2, JFS_OK)) \<and>
    jfs_fw_record_init record_zero st' w2 JFS_OK = Some (rec, None, w3, JFS_OK) \<and>
    rec_dir_count rec = 2 \<and> jfs_fw_record_free rec w3 = Some (record_zero, w4) \<and> live w4 = 4"
proof -
  have t: "trim_slash ''/r/'' = ''/r''" by code_simp
  have n: "length (walk_order demo_fs ''/r'') = 2" by (simp add: demo_order)
  have "alloc_script demo_world = []" "path_str (mk_path ''/r/'') = Some ''/r/''" "(''/r/'' :: string) \<noteq> []"
    "length (trim_slash ''/r/'') \<le> PATH_MAX" "live demo_world = 4"
    by (simp_all add: demo_world_def mk_path_def t PATH_MAX_def)
  with fw_lifecycle [of demo_world "mk_path ''/r/''" "''/r/''" demo_fs "demo_state []" record_zero] demo_readable
  show ?thesis unfolding t n by fastforce
qed

text \<open>When the allocation of the path array fails, \<open>jfs_fw_state_create\<close> frees vectors it has
  not initialised. If the fresh block happens to be zero the failure is clean; but the block
  may hold anything, and there are contents for which the clean-up reads outside an array
  and contents for which it frees a block that it never allocated.\<close>

theorem fw_create_cleanup_uninitialised:
  assumes "alloc_script w = [True, False]"
  shows "(\<exists>w'. jfs_fw_state_create \<lparr>path_vec = vec_zero, dir_vec = vec_zero\<rparr> start w JFS_OK = Some (None, w', JFS_ERR_SYS) \<and>
      live w' = live w) \<and>
    (\<exists>junk. jfs_fw_state_create junk start w JFS_OK = None) \<and>
    (\<exists>junk w'. jfs_fw_state_create junk start w JFS_OK = Some (None, w', JFS_ERR_SYS) \<and> live w' = live w - 1)"
proof -
  let ?bad = "\<lparr>path_vec = vec_zero, dir_vec = \<lparr>vec_count = 1, vec_capacity = 0, vec_array = Some []\<rparr>\<rparr>"
  let ?one = "\<lparr>path_vec = vec_zero, dir_vec = \<lparr>vec_count = 0, vec_capacity = 0, vec_array = Some []\<rparr>\<rparr>"
  have junk: "jfs_fw_state_create junk start w JFS_OK =
      fw_create_cleanup (Some junk) path_zero (w\<lparr>alloc_script := [], live := live w + 1\<rparr>) JFS_ERR_SYS" for junk
    using assms by (simp add: jfs_fw_state_create_def heap_malloc_def jfs_malloc_def next_alloc_def
        fw_path_vector_init_def fw_vector_init_def)
  have "jfs_fw_state_create ?bad start w JFS_OK = None" unfolding junk
    by (simp add: fw_create_cleanup_def fw_dir_vector_free_def fw_vector_free_def free_array_def)
  moreover have "\<exists>w'. jfs_fw_state_create ?one start w JFS_OK = Some (None, w', JFS_ERR_SYS) \<and> live w' = live w - 1"
    unfolding junk by (simp add: fw_create_cleanup_def fw_dir_vector_free_def fw_path_vector_free_def
        fw_vector_free_def free_array_def vec_zero_def heap_free_def)
  moreover have "\<exists>w'. jfs_fw_state_create \<lparr>path_vec = vec_zero, dir_vec = vec_zero\<rparr> start w JFS_OK =
      Some (None, w', JFS_ERR_SYS) \<and> live w' = live w"
    unfolding junk by (simp add: fw_create_cleanup_def fw_dir_vector_free_def fw_path_vector_free_def heap_free_def)
  ultimately show ?thesis by blast
qed

theorem fw_create_cleanup_uninitialised_witness:
  "\<exists>junk. jfs_fw_state_create junk (mk_path ''/r'') \<lparr>alloc_script = [True, False], live = 0, open_dirs = 0\<rparr> JFS_OK = None"
  using fw_create_cleanup_uninitialised [of "\<lparr>alloc_script = [True, False], live = 0, open_dirs = 0\<rparr>" "mk_path ''/r''"]
  by simp

end
