(* ===== verification/Jfs_Test.thy ===== *)
theory Jfs_Test
  imports Jfs_File_Walk "HOL-Library.Signed_Division"
begin

text \<open>
  The rest of the test program \<open>src/src/test/test.c\<close> (its allocator test is in \<open>Jfs_Test_Tss\<close>): the clock readings and the
  elapsed time, the status line, the threads that use the heap, and \<open>file_walk_test\<close>, which walks a fixed directory with the
  walker of \<open>Jfs_File_Walk\<close> and prints the record. What is printed is a list of lines in the result. A \<open>goto cleanup\<close> is a call of
  \<open>walk_test_cleanup\<close>; the loop has fuel \<open>n\<close>, and \<open>Running\<close> is a walk that did not end within it. The
  theorems: the printed time is right to a microsecond; every error path of the walk test gives back all
  blocks and streams while the successful one leaks the start path; and on a readable tree it prints exactly what is there.
\<close>

section \<open>Times and status\<close>

record timespec =
  tv_sec :: int
  tv_nsec :: int

record test_times =
  time_start :: timespec
  time_stop :: timespec

definition start_time :: "timespec \<Rightarrow> test_times \<Rightarrow> test_times" where
  "start_time now tm = tm\<lparr>time_start := now\<rparr>"

definition stop_time :: "timespec \<Rightarrow> test_times \<Rightarrow> test_times" where
  "stop_time now tm = tm\<lparr>time_stop := now\<rparr>"

text \<open>The value of a \<open>long\<close> expression; a signed overflow is \<open>None\<close>.\<close>

definition as_long :: "int \<Rightarrow> int option" where
  "as_long x = (if - (2 ^ 63) \<le> x \<and> x < 2 ^ 63 then Some x else None)"

definition print_time :: "test_times \<Rightarrow> int option" where
  "print_time tm = do {
     seconds \<leftarrow> as_long (tv_sec (time_stop tm) - tv_sec (time_start tm));
     nanoseconds \<leftarrow> as_long (tv_nsec (time_stop tm) - tv_nsec (time_start tm));
     product \<leftarrow> as_long (seconds * 1000000);
     as_long (product + nanoseconds sdiv 1000)
   }"

definition print_status :: "string \<Rightarrow> jfs_err_t \<Rightarrow> string \<times> jfs_err_t" where
  "print_status test_name err =
     (if err = JFS_OK then (''Success: '' @ test_name, err) else (''Fail: '' @ test_name, RES_ERR err))"

section \<open>Threads that use the heap\<close>

text \<open>\<open>malloc_fill\<close> is the loop that allocates the remaining \<open>k\<close> things; \<open>array\<close> lists the values stored in those
  allocated so far. \<open>malloc_check\<close> compares and frees them. The result is \<open>not_correct\<close>, or \<open>None\<close> at the early return.\<close>

fun malloc_fill :: "nat \<Rightarrow> size_t \<Rightarrow> size_t list \<Rightarrow> 'h heap_scheme \<Rightarrow> jfs_err_t \<Rightarrow> size_t list \<times> 'h heap_scheme \<times> jfs_err_t" where
  "malloc_fill 0 pt array h err = (array, h, err)"
| "malloc_fill (Suc k) pt array h err =
     (let (p, h, err) = heap_malloc h err
      in if err \<noteq> JFS_OK then (array, h, err) else malloc_fill k pt (array @ [pt + of_nat (length array)]) h err)"

fun malloc_check :: "size_t \<Rightarrow> size_t list \<Rightarrow> nat \<Rightarrow> bool \<Rightarrow> 'h heap_scheme \<Rightarrow> bool \<times> 'h heap_scheme" where
  "malloc_check pt [] i not_correct h = (not_correct, h)"
| "malloc_check pt (v # vs) i not_correct h = malloc_check pt vs (Suc i) (not_correct \<or> v \<noteq> pt + of_nat i) (heap_free False h)"

definition tss_test_thread_malloc :: "nat \<Rightarrow> size_t \<Rightarrow> 'h heap_scheme \<Rightarrow> bool option \<times> 'h heap_scheme" where
  "tss_test_thread_malloc n pt h =
     (let (array, h, err) = malloc_fill n pt [] h JFS_OK
      in if err \<noteq> JFS_OK then (None, h) else let (not_correct, h) = malloc_check pt array 0 False h in (Some not_correct, h))"

section \<open>Walking a directory\<close>

text \<open>The lines that are printed: a directory, a file in it, the two totals, and the elapsed time in microseconds at the end, \<open>None\<close>
  when its computation overflows.\<close>

datatype test_out = OutDir string | OutFile string | OutDirs nat | OutFiles nat | OutTime "int option"

fun print_files :: "jfs_fw_file slots \<Rightarrow> nat list \<Rightarrow> test_out list option" where
  "print_files files [] = Some []"
| "print_files files (j # js) = do {
     f \<leftarrow> array_read files j;
     n \<leftarrow> name_str (file_name f);
     rest \<leftarrow> print_files files js;
     Some (OutFile n # rest)
   }"

fun print_dirs :: "jfs_fw_dir slots \<Rightarrow> nat list \<Rightarrow> nat \<Rightarrow> (test_out list \<times> nat) option" where
  "print_dirs dirs [] total_files = Some ([], total_files)"
| "print_dirs dirs (i # is) total_files = do {
     d \<leftarrow> array_read dirs i;
     s \<leftarrow> path_str (dir_path d);
     names \<leftarrow> print_files (dir_files d) [0..<dir_file_count d];
     (rest, total_files) \<leftarrow> print_dirs dirs is (total_files + dir_file_count d);
     Some (OutDir s # names @ rest, total_files)
   }"

definition print_walk :: "jfs_fw_record \<Rightarrow> test_out list option" where
  "print_walk rec = do {
     (lines, total_files) \<leftarrow> print_dirs (rec_dir_array rec) [0..<rec_dir_count rec] 0;
     Some (lines @ [OutDirs (rec_dir_count rec), OutFiles total_files])
   }"

text \<open>The loop, with what it does after: \<open>True\<close> when it leaves for the cleanup.\<close>

fun test_walk_loop ::
  "nat \<Rightarrow> fw_fs \<Rightarrow> jfs_fw_state \<Rightarrow> fw_world \<Rightarrow> jfs_err_t \<Rightarrow> (bool \<times> jfs_fw_state \<times> fw_world \<times> jfs_err_t) run option" where
  "test_walk_loop 0 fs state w err = Some (Running (False, state, w, err))"
| "test_walk_loop (Suc n) fs state w err = do {
     (ret, state, w, err) \<leftarrow> jfs_fw_state_step fs state w err;
     if \<not> ret then Some (Returned (False, state, w, err))
     else if err = JFS_ERR_FW_SKIP then test_walk_loop n fs state w (RES_ERR err)
     else if err \<noteq> JFS_OK then Some (Returned (True, state, w, err))
     else test_walk_loop n fs state w err
   }"

definition walk_test_cleanup ::
  "jfs_fio_path \<Rightarrow> jfs_fw_state option \<Rightarrow> fw_world \<Rightarrow> jfs_err_t \<Rightarrow> (test_out list \<times> fw_world \<times> jfs_err_t) run option" where
  "walk_test_cleanup path state w err = do {
     let (path, w) = jfs_fio_path_free path w;
     w \<leftarrow> jfs_fw_state_destroy state w;
     Some (Returned ([], w, err))
   }"

text \<open>From the loop to the end; \<open>now\<close> is what the clock reads when the walk has ended. The reading on the cleanup path is not
  used.\<close>

definition walk_test_run ::
  "nat \<Rightarrow> bool \<Rightarrow> timespec \<Rightarrow> test_times \<Rightarrow> jfs_fio_path \<Rightarrow> fw_fs \<Rightarrow> jfs_fw_state \<Rightarrow> fw_world \<Rightarrow> jfs_err_t
     \<Rightarrow> (test_out list \<times> fw_world \<times> jfs_err_t) run option" where
  "walk_test_run n verbose_flag now tm path fs state w err = do {
     r \<leftarrow> test_walk_loop n fs state w err;
     case r of
       Running (_, state, w, err) \<Rightarrow> Some (Running ([], w, err))
     | Returned (failed, state, w, err) \<Rightarrow>
         if failed then walk_test_cleanup path (Some state) w err
         else do {
           (record, left, w, err) \<leftarrow> jfs_fw_record_init record_zero state w err;
           if err \<noteq> JFS_OK then walk_test_cleanup path left w err
           else do {
             let tm = stop_time now tm;
             lines \<leftarrow> (if verbose_flag then print_walk record else Some []);
             let lines = lines @ [OutTime (print_time tm)];
             (record, w) \<leftarrow> jfs_fw_record_free record w;
             Some (Returned (lines, w, err))
           }
         }
   }"

definition TEST_PATH :: string where
  "TEST_PATH = ''/home/jacob/code/filesync/''"

definition times_zero :: test_times where
  "times_zero = \<lparr>time_start = \<lparr>tv_sec = 0, tv_nsec = 0\<rparr>, time_stop = \<lparr>tv_sec = 0, tv_nsec = 0\<rparr>\<rparr>"

definition file_walk_test ::
  "nat \<Rightarrow> bool \<Rightarrow> timespec \<Rightarrow> timespec \<Rightarrow> jfs_fw_state \<Rightarrow> fw_fs \<Rightarrow> fw_world \<Rightarrow> jfs_err_t \<Rightarrow> (test_out list \<times> fw_world \<times> jfs_err_t) run option" where
  "file_walk_test n verbose_flag started stopped junk fs w err =
     (let tm = start_time started times_zero;
          (path, w, err) = jfs_fio_path_init path_zero TEST_PATH w err in
      if err \<noteq> JFS_OK then walk_test_cleanup path None w err
      else do {
        (created, w, err) \<leftarrow> jfs_fw_state_create junk path w err;
        if err \<noteq> JFS_OK then walk_test_cleanup path created w err
        else do {
          state \<leftarrow> created;
          walk_test_run n verbose_flag stopped tm path fs state w err
        }
      })"

section \<open>The printed time\<close>

definition normalised :: "timespec \<Rightarrow> bool" where
  "normalised t \<longleftrightarrow> 0 \<le> tv_nsec t \<and> tv_nsec t < 1000000000"

definition time_ns :: "timespec \<Rightarrow> int" where
  "time_ns t = 1000000000 * tv_sec t + tv_nsec t"

lemma sdiv_thousand: "\<bar>1000 * (x sdiv 1000) - x\<bar> < 1000" for x :: int
proof -
  have "x sdiv 1000 = (if x < 0 then - ((- x) div 1000) else x div 1000)"
    by (simp add: signed_divide_int_def sgn_if)
  moreover have "0 \<le> y mod 1000 \<and> y mod 1000 < 1000 \<and> 1000 * (y div 1000) = y - y mod 1000" for y :: int
    by (simp add: minus_mod_eq_mult_div)
  ultimately show ?thesis by (smt (verit))
qed

text \<open>C39. The time that \<open>print_time\<close> prints: for two readings of a monotonic clock less than \<open>9223372036854\<close> seconds apart no
  computation overflows, and the microseconds printed are not negative and off by less than one from the time
  that elapsed, also when the nanoseconds of the second reading are the smaller ones.\<close>

theorem print_time_accurate:
  assumes "normalised start" and "normalised stop" and "time_ns start \<le> time_ns stop" and "tv_sec stop - tv_sec start < 9223372036854"
  shows "\<exists>t. print_time (stop_time stop (start_time start times0)) = Some t \<and> 0 \<le> t \<and> \<bar>1000 * t - (time_ns stop - time_ns start)\<bar> < 1000"
proof -
  define ds where "ds = tv_sec stop - tv_sec start"
  define dn where "dn = tv_nsec stop - tv_nsec start"
  have dn: "\<bar>dn\<bar> < 1000000000" and tot: "time_ns stop - time_ns start = 1000000000 * ds + dn" "0 \<le> 1000000000 * ds + dn"
    using assms by (auto simp: normalised_def ds_def dn_def time_ns_def)
  then have ds: "0 \<le> ds" "ds = 0 \<Longrightarrow> 0 \<le> dn" "ds < 9223372036854" using assms(4) by (auto simp: ds_def)
  define k where "k = dn sdiv 1000"
  have q: "1000 * k - dn < 1000" "dn - 1000 < 1000 * k" using sdiv_thousand [of dn] by (simp_all add: k_def abs_less_iff)
  have dn': "dn < 1000000000" "- 1000000000 < dn" using dn by simp_all
  then have k: "k < 1000001" "- 1000001 < k" using q by linarith+
  have "0 \<le> ds * 1000000 + k"
  proof (cases "ds = 0")
    case True
    then show ?thesis using q ds(2) by linarith
  next
    case False
    then have "1 \<le> ds" using ds by linarith
    then have "- 1000 < 1000 * (ds * 1000000 + k)" unfolding distrib_left using q dn' by linarith
    moreover have "- 1000 < 1000 * z \<Longrightarrow> 0 \<le> z" for z :: int by linarith
    ultimately show ?thesis by blast
  qed
  moreover have "print_time (stop_time stop (start_time start times0)) = Some (ds * 1000000 + k)"
    using ds dn' k by (simp add: print_time_def as_long_def start_time_def stop_time_def flip: ds_def dn_def k_def)
  ultimately show ?thesis unfolding tot(1) using q by (intro exI [of _ "ds * 1000000 + k"]) (simp add: algebra_simps abs_less_iff)
qed

theorem print_time_accurate_witness:
  "\<exists>t. print_time (stop_time \<lparr>tv_sec = 5, tv_nsec = 2500\<rparr> (start_time \<lparr>tv_sec = 4, tv_nsec = 999000999\<rparr>
     \<lparr>time_start = \<lparr>tv_sec = 0, tv_nsec = 0\<rparr>, time_stop = \<lparr>tv_sec = 0, tv_nsec = 0\<rparr>\<rparr>)) = Some t \<and> 0 \<le> t \<and> \<bar>1000 * t - 1001501\<bar> < 1000"
  using print_time_accurate [of "\<lparr>tv_sec = 4, tv_nsec = 999000999\<rparr>" "\<lparr>tv_sec = 5, tv_nsec = 2500\<rparr>"
      "\<lparr>time_start = \<lparr>tv_sec = 0, tv_nsec = 0\<rparr>, time_stop = \<lparr>tv_sec = 0, tv_nsec = 0\<rparr>\<rparr>"]
  by (simp add: normalised_def time_ns_def)

lemma malloc_check:
  "malloc_check pt vs i b h = (b \<or> (\<exists>k<length vs. vs ! k \<noteq> pt + of_nat (i + k)), h\<lparr>live := live h - int (length vs)\<rparr>)"
proof (induction vs arbitrary: i b h)
  case (Cons v vs)
  have "(\<exists>k<length (v # vs). (v # vs) ! k \<noteq> pt + of_nat (i + k)) \<longleftrightarrow>
      v \<noteq> pt + of_nat i \<or> (\<exists>k<length vs. vs ! k \<noteq> pt + of_nat (Suc i + k))" unfolding length_Cons Ex_less_Suc2 by simp
  then show ?case using Cons by (simp add: heap_free_def algebra_simps)
qed simp

lemma malloc_fill:
  "\<exists>k h' e. malloc_fill n pt (map (\<lambda>i. pt + of_nat i) [0..<m]) h JFS_OK = (map (\<lambda>i. pt + of_nat i) [0..<m + k], h', e) \<and>
     live h' = live h + int k \<and> (if e = JFS_OK then k = n else k < n) \<and> (alloc_script h = [] \<longrightarrow> e = JFS_OK \<and> alloc_script h' = [])"
proof (induction n arbitrary: m h)
  case (Suc n)
  show ?case
  proof (rule heap_malloc_cases [of h JFS_OK])
    let ?h = "h\<lparr>alloc_script := tl (alloc_script h), live := live h + 1\<rparr>"
    assume a: "next_alloc h" "heap_malloc h JFS_OK = (Some (), ?h, JFS_OK)"
    from Suc [of "Suc m" ?h] obtain k h' e where "malloc_fill n pt (map (\<lambda>i. pt + of_nat i) [0..<Suc m]) ?h JFS_OK =
        (map (\<lambda>i. pt + of_nat i) [0..<Suc m + k], h', e)" "live h' = live ?h + int k" "if e = JFS_OK then k = n else k < n"
        "alloc_script ?h = [] \<longrightarrow> e = JFS_OK \<and> alloc_script h' = []" by blast
    with a show ?thesis by (intro exI [of _ "Suc k"] exI [of _ h'] exI [of _ e]) (auto split: if_splits)
  next
    assume "\<not> next_alloc h" "heap_malloc h JFS_OK = (None, h\<lparr>alloc_script := tl (alloc_script h)\<rparr>, JFS_ERR_SYS)"
    then show ?thesis by (intro exI [of _ 0] exI [of _ "h\<lparr>alloc_script := tl (alloc_script h)\<rparr>"] exI [of _ JFS_ERR_SYS])
        (auto simp: next_alloc_def)
  qed
qed simp

text \<open>A thread on the heap never finds its array messed up and frees all it took, unless an allocation
  fails: then it returns with the blocks it had got so far still allocated.\<close>

theorem test_thread_malloc:
  "\<exists>r h'. tss_test_thread_malloc n pt h = (r, h') \<and>
     (case r of Some not_correct \<Rightarrow> \<not> not_correct \<and> live h' = live h | None \<Rightarrow> alloc_script h \<noteq> [] \<and> live h \<le> live h' \<and> live h' < live h + int n)"
proof -
  from malloc_fill [of n pt 0 h] obtain k h' e where "malloc_fill n pt [] h JFS_OK = (map (\<lambda>i. pt + of_nat i) [0..<k], h', e)"
    "live h' = live h + int k" "if e = JFS_OK then k = n else k < n" "alloc_script h = [] \<longrightarrow> e = JFS_OK" by auto
  then show ?thesis by (cases "e = JFS_OK") (auto simp: tss_test_thread_malloc_def malloc_check)
qed

section \<open>The walk test\<close>

text \<open>The lines printed for the directories of a walk.\<close>

definition walk_lines :: "(string \<times> (jfs_fw_types_t \<times> string \<times> nat) list) list \<Rightarrow> test_out list" where
  "walk_lines ds = concat (map (\<lambda>(s, fs). OutDir s # map (\<lambda>(t, n, i). OutFile n) fs) ds)"

lemma print_files:
  assumes "\<forall>j\<in>set js. array_read arr j = Some (mk_file (fs ! j))"
  shows "print_files arr js = Some (map (\<lambda>j. case fs ! j of (t, n, i) \<Rightarrow> OutFile n) js)"
  using assms by (induction js) (auto simp: mk_file_def split: prod.splits)

lemma map_nth_upt: "map (\<lambda>j. f (xs ! j)) [0..<length xs] = map f xs"
  by (rule nth_equalityI) simp_all

lemma print_mk_dir:
  "print_files (dir_files (mk_dir (s, fs))) [0..<length fs] = Some (map (\<lambda>(t, n, i). OutFile n) fs)"
proof -
  have "\<forall>j\<in>set [0..<length fs]. array_read (dir_files (mk_dir (s, fs))) j = Some (mk_file (fs ! j))"
    by (auto simp: mk_dir_def array_read_def)
  from print_files [OF this] show ?thesis using map_nth_upt [of "\<lambda>(t, n, i). OutFile n" fs] by simp
qed

lemma print_dirs:
  assumes "\<forall>i\<in>set js. array_read arr i = Some (mk_dir (ds ! i))"
  shows "print_dirs arr js m = Some (walk_lines (map ((!) ds) js), m + sum_list (map (length \<circ> snd) (map ((!) ds) js)))"
  using assms
proof (induction js arbitrary: m)
  case (Cons i js)
  obtain s fs where d: "ds ! i = (s, fs)" by fastforce
  have "path_str (dir_path (mk_dir (s, fs))) = Some s" "dir_file_count (mk_dir (s, fs)) = length fs" by (simp_all add: mk_dir_def mk_path_def)
  then show ?case using Cons print_mk_dir [of s fs] d by (simp add: walk_lines_def)
qed (simp add: walk_lines_def)

lemma print_walk:
  "print_walk \<lparr>rec_dir_count = length ds, rec_dir_array = Some (map Some (map mk_dir ds))\<rparr> =
     Some (walk_lines ds @ [OutDirs (length ds), OutFiles (sum_list (map (length \<circ> snd) ds))])"
proof -
  have "\<forall>i\<in>set [0..<length ds]. array_read (Some (map Some (map mk_dir ds))) i = Some (mk_dir (ds ! i))"
    by (auto simp: array_read_def)
  from print_dirs [OF this, of 0] show ?thesis by (simp add: print_walk_def map_nth)
qed

text \<open>The loop is the one of \<open>fw_walk_loop\<close>; the flag says that it was left for the clean-up.\<close>

lemma test_loop_walk:
  "fw_walk_loop n fs st w err = Some (Returned (st', w', JFS_OK)) \<Longrightarrow> test_walk_loop n fs st w err = Some (Returned (False, st', w', JFS_OK))"
proof (induction n arbitrary: st w err)
  case (Suc n)
  then obtain ret st1 w1 e where "jfs_fw_state_step fs st w err = Some (ret, st1, w1, e)" by (auto simp: bind_eq_Some_conv)
  with Suc show ?case by (simp split: if_splits)
qed simp

text \<open>What the loop leaves when it ends, from a state with \<open>ss\<close> on its stack: a well-formed state, with the blocks that are
  live but not its own unchanged; without an error the stack is empty, and with one that did not lead to the clean-up it is not.\<close>

definition walk_post ::
  "string list \<Rightarrow> (string \<times> (jfs_fw_types_t \<times> string \<times> nat) list) list \<Rightarrow> fw_world
     \<Rightarrow> (bool \<times> jfs_fw_state \<times> fw_world \<times> jfs_err_t) run option \<Rightarrow> bool" where
  "walk_post ss ds w res \<longleftrightarrow> (\<exists>r. res = Some r \<and> (\<forall>b st' w' e. r = Returned (b, st', w', e) \<longrightarrow>
    (\<exists>ss' ds'. fw_rep st' ss' ds' \<and> live w' - fw_blocks ss' ds' = live w - fw_blocks ss ds \<and> open_dirs w' = open_dirs w \<and>
      (if b then e \<noteq> JFS_OK else if e = JFS_OK then ss' = [] \<and> ds' \<noteq> [] else ss' \<noteq> []))))"

lemma test_loop_rep:
  assumes "fw_rep st ss ds"
  shows "walk_post ss ds w (test_walk_loop n fs st w JFS_OK)"
  using assms
proof (induction n arbitrary: st ss ds w)
  case (Suc n)
  show ?case
  proof (cases ss rule: rev_cases)
    case Nil
    then show ?thesis using Suc step_empty [of st ds fs w JFS_OK] by simp
  next
    case (snoc ss0 s)
    then have "step_post fs ss0 s ds w (jfs_fw_state_step fs st w JFS_OK)" using step_nonempty Suc.prems by simp
    then obtain ret st1 w1 e ss1 ds1 where 1: "jfs_fw_state_step fs st w JFS_OK = Some (ret, st1, w1, e)"
        "fw_rep st1 ss1 ds1" "live w1 - fw_blocks ss1 ds1 = live w - fw_blocks ss ds" "open_dirs w1 = open_dirs w"
        "if e = JFS_OK then ds1 \<noteq> [] \<and> ret = (ss1 \<noteq> []) else ret = (ss1 = [])"
      unfolding step_post_def snoc step_ok_def step_failed_def by (metis append_is_Nil_conv list.distinct(1))
    have rest: "walk_post ss ds w (test_walk_loop n fs st1 w1 JFS_OK)"
      using Suc.IH [OF 1(2), of w1] unfolding walk_post_def 1(3,4) .
    show ?thesis
    proof (cases "\<not> ret \<or> e \<noteq> JFS_ERR_FW_SKIP \<and> e \<noteq> JFS_OK")
      case True
      then have "test_walk_loop (Suc n) fs st w JFS_OK = Some (Returned (ret, st1, w1, e))" using 1(1) by auto
      moreover have "if ret then e \<noteq> JFS_OK else if e = JFS_OK then ss1 = [] \<and> ds1 \<noteq> [] else ss1 \<noteq> []"
        using True 1(5) by (metis (full_types))
      ultimately show ?thesis using 1(2-4) unfolding walk_post_def by blast
    next
      case False
      then show ?thesis using 1(1) rest by (auto simp: RES_ERR_def)
    qed
  qed
qed (simp add: walk_post_def)

section \<open>Creating and finishing a walk under any allocator\<close>

lemma create_cleanup:
  assumes "\<And>w. \<exists>w'. fw_dir_vector_free (dir_vec st) w = Some (vec_zero, w') \<and> delta w w' (- a)"
    and "\<And>w. \<exists>w'. fw_path_vector_free (path_vec st) w = Some (vec_zero, w') \<and> delta w w' (- b)"
    and "\<And>w :: fw_world. \<exists>w'. jfs_fio_path_free new_path w = (path_zero, w') \<and> delta w w' (- c)"
  shows "\<exists>w'. fw_create_cleanup (Some st) new_path w err = Some (None, w', err) \<and> delta w w' (- (a + b + c + 1))"
proof -
  obtain w1 where 1: "fw_dir_vector_free (dir_vec st) w = Some (vec_zero, w1)" "delta w w1 (- a)" using assms(1) by blast
  obtain w2 where 2: "fw_path_vector_free (path_vec st) w1 = Some (vec_zero, w2)" "delta w1 w2 (- b)" using assms(2) by blast
  obtain w3 where 3: "jfs_fio_path_free new_path (heap_free False w2) = (path_zero, w3)" "delta (heap_free False w2) w3 (- c)" using assms(3) by blast
  have "delta w w3 (- (a + b + c + 1))"
    by (rule delta_cong [OF delta_trans [OF delta_trans [OF delta_trans [OF 1(2) 2(2)] delta_free] 3(2)]]) simp
  then show ?thesis using 1(1) 2(1) 3(1) by (simp add: fw_create_cleanup_def)
qed

lemma zero_vector_frees:
  "\<exists>w'. fw_dir_vector_free vec_zero w = Some (vec_zero, w') \<and> delta w w' (- 0)"
  "\<exists>w'. fw_path_vector_free vec_zero w = Some (vec_zero, w') \<and> delta w w' (- 0)"
  "\<exists>w'. jfs_fio_path_free path_zero w = (path_zero, w') \<and> delta w w' (- 0)"
  by (simp_all add: fw_dir_vector_free_def fw_path_vector_free_def)

lemma empty_vector_frees:
  "vec_wf dv [] \<Longrightarrow> \<exists>w'. fw_dir_vector_free dv w = Some (vec_zero, w') \<and> delta w w' (- 1)"
  "vec_wf pv [] \<Longrightarrow> \<exists>w'. fw_path_vector_free pv w = Some (vec_zero, w') \<and> delta w w' (- 1)"
  using dir_vector_free [of dv "[]" w] path_vector_free [of pv "[]" w] by simp_all

text \<open>Creating a state in a zeroed block succeeds with one path on the stack, or fails and leaves nothing allocated.\<close>

definition create_post :: "string \<Rightarrow> fw_world \<Rightarrow> (jfs_fw_state option \<times> fw_world \<times> jfs_err_t) option \<Rightarrow> bool" where
  "create_post s w res \<longleftrightarrow>
     (\<exists>st w'. res = Some (Some st, w', JFS_OK) \<and> fw_rep st [s] [] \<and> delta w w' (fw_blocks [s] [])) \<or>
     (\<exists>w'. res = Some (None, w', JFS_ERR_SYS) \<and> delta w w' 0)"

lemma create_failed:
  assumes "\<And>w. \<exists>w'. fw_dir_vector_free (dir_vec st) w = Some (vec_zero, w') \<and> delta w w' (- a)"
    and "\<And>w. \<exists>w'. fw_path_vector_free (path_vec st) w = Some (vec_zero, w') \<and> delta w w' (- b)"
    and "\<And>w :: fw_world. \<exists>w'. jfs_fio_path_free p w = (path_zero, w') \<and> delta w w' (- c)" and "delta w w1 (a + b + c + 1)"
  shows "create_post s w (fw_create_cleanup (Some st) p w1 JFS_ERR_SYS)"
  using create_cleanup [OF assms(1-3), of w1 JFS_ERR_SYS] delta_trans [OF assms(4)] unfolding create_post_def by fastforce

lemma create_path:
  assumes s: "s \<noteq> []" "length (trim_slash s) \<le> PATH_MAX" and vec: "vec_wf (path_vec st) []" "vec_wf (dir_vec st) []" and d: "delta w w2 3"
  shows "create_post (trim_slash s) w (let (new_path, w, err) = jfs_fio_path_init path_zero s w2 JFS_OK in
     if err \<noteq> JFS_OK then fw_create_cleanup (Some st) new_path w err
     else do {
       (pvec, new_path, w, err) \<leftarrow> fw_path_vector_push (path_vec st) new_path w err;
       let state = st\<lparr>path_vec := pvec\<rparr>;
       if err \<noteq> JFS_OK then fw_create_cleanup (Some state) new_path w err
       else Some (Some state, w, err)
     })"
proof (cases rule: path_init_cases [OF s(2), of path_zero w2, case_names ok fail])
  case (fail w3)
  have "delta w w3 (1 + 1 + 0 + 1)" by (rule delta_cong [OF delta_trans [OF d fail(2)]]) simp
  from create_failed [OF empty_vector_frees(1) [OF vec(2)] empty_vector_frees(2) [OF vec(1)] zero_vector_frees(3) this] fail(1)
  show ?thesis by simp
next
  case (ok w3)
  note 1 = ok
  show ?thesis
  proof (cases rule: vector_push_cases [OF vec(1), of path_zero "mk_path (trim_slash s)" w3, case_names ok fail])
    case (fail w4)
    have "delta w w4 (1 + 1 + 1 + 1)" by (rule delta_cong [OF delta_trans [OF delta_trans [OF d 1(2)] fail(2)]]) simp
    from create_failed [OF empty_vector_frees(1) [OF vec(2)] empty_vector_frees(2) [OF vec(1)] path_free_mk this] 1(1) fail(1)
    show ?thesis by (simp add: fw_path_vector_push_def)
  next
    case (ok pv w4)
    have "delta w w4 (fw_blocks [trim_slash s] [])"
      by (rule delta_cong [OF delta_trans [OF delta_trans [OF d 1(2)] ok(3)]]) (simp add: fw_blocks_def)
    moreover have "fw_rep (st\<lparr>path_vec := pv\<rparr>) [trim_slash s] []" using ok(2) vec(2) trim_slash_nonempty [OF s(1)] by (simp add: fw_rep_def)
    ultimately show ?thesis using 1(1) ok(1) by (simp add: fw_path_vector_push_def create_post_def)
  qed
qed

lemma vector_init_script:
  assumes "fw_vector_init v w JFS_OK = (v', w', e)"
  shows "e = JFS_OK \<longleftrightarrow> next_alloc w" and "alloc_script w' = tl (alloc_script w)"
  using assms by (auto simp: fw_vector_init_def heap_malloc_def jfs_malloc_def split: if_splits)

lemma next_alloc_script: "\<not> next_alloc w \<Longrightarrow> \<exists>bs. alloc_script w = False # bs"
  by (auto simp: next_alloc_def split: list.splits)

text \<open>The state is freed before its vectors were set when one of their arrays cannot be allocated; then it matters what the
  block for the state held.\<close>

lemma state_create_any:
  assumes s: "path_str start = Some s" "s \<noteq> []" "length (trim_slash s) \<le> PATH_MAX"
    and junk: "path_vec junk = vec_zero \<and> dir_vec junk = vec_zero \<or> False \<notin> set (take 2 (drop 1 (alloc_script w)))"
  shows "create_post (trim_slash s) w (jfs_fw_state_create junk start w JFS_OK)"
proof (rule heap_malloc_cases [of w JFS_OK])
  assume "heap_malloc w JFS_OK = (None, w\<lparr>alloc_script := tl (alloc_script w)\<rparr>, JFS_ERR_SYS)"
  then show ?thesis by (simp add: jfs_fw_state_create_def fw_create_cleanup_def create_post_def delta_def)
next
  let ?w = "w\<lparr>alloc_script := tl (alloc_script w), live := live w + 1\<rparr>"
  assume 1: "heap_malloc w JFS_OK = (Some (), ?w, JFS_OK)"
  have d: "delta w ?w 1" by (simp add: delta_def)
  note defs = jfs_fw_state_create_def fw_path_vector_init_def fw_dir_vector_init_def
  show ?thesis
  proof (cases rule: vector_init_cases [of "path_vec junk" ?w])
    case (fail w1)
    have "\<not> next_alloc ?w" using vector_init_script(1) [OF fail(1)] by simp
    then have z: "path_vec junk = vec_zero" "dir_vec junk = vec_zero" using junk next_alloc_script [of ?w] by (auto simp: drop_Suc)
    have "delta w w1 (0 + 0 + 0 + 1)" by (rule delta_cong [OF delta_trans [OF d fail(2)]]) simp
    then have "create_post (trim_slash s) w (fw_create_cleanup (Some (junk\<lparr>path_vec := path_vec junk\<rparr>)) path_zero w1 JFS_ERR_SYS)"
      using z zero_vector_frees by (intro create_failed [of _ 0 0 _ 0]) simp_all
    then show ?thesis using 1 fail(1) by (simp add: defs)
  next
    case (ok pv w1)
    note 2 = ok
    show ?thesis
    proof (cases rule: vector_init_cases [of "dir_vec junk" w1])
      case (fail w2)
      have "\<not> next_alloc w1" "alloc_script w1 = tl (tl (alloc_script w))"
        using vector_init_script(1) [OF fail(1)] vector_init_script(2) [OF 2(1)] by simp_all
      then have z: "dir_vec junk = vec_zero" using junk next_alloc_script [of w1] by (cases "alloc_script w"; cases "tl (alloc_script w)") auto
      have "delta w w2 (0 + 1 + 0 + 1)" by (rule delta_cong [OF delta_trans [OF delta_trans [OF d 2(3)] fail(2)]]) simp
      then have "create_post (trim_slash s) w
          (fw_create_cleanup (Some (junk\<lparr>path_vec := pv, dir_vec := dir_vec junk\<rparr>)) path_zero w2 JFS_ERR_SYS)"
        using z zero_vector_frees empty_vector_frees(2) [OF 2(2)] by (intro create_failed [of _ 0 1 _ 0]) simp_all
      then show ?thesis using 1 2(1) fail(1) by (simp add: defs)
    next
      case (ok dv w2)
      have "delta w w2 3" by (rule delta_cong [OF delta_trans [OF delta_trans [OF d 2(3)] ok(3)]]) simp
      from create_path [OF s(2,3), of "junk\<lparr>path_vec := pv, dir_vec := dv\<rparr>", OF _ _ this] 2(2) ok(2)
      show ?thesis using 1 2(1) ok(1) s(1) by (simp add: defs Let_def)
    qed
  qed
qed

text \<open>Turning a state into a record: it fails with the state as it was, or succeeds when the stack is empty.\<close>

lemma record_init_any:
  assumes rep: "fw_rep st ss ds" and "if e = JFS_OK then ss = [] \<and> ds \<noteq> [] else ss \<noteq> []"
  obtains (ok) w' where "jfs_fw_record_init r st w e =
      Some (\<lparr>rec_dir_count = length ds, rec_dir_array = Some (map Some (map mk_dir ds))\<rparr>, None, w', JFS_OK)" "ss = []" "delta w w' (- 2)"
  | (fail) w' e' where "jfs_fw_record_init r st w e = Some (r, Some st, w', e')" "e' \<noteq> JFS_OK" "delta w w' 0"
proof (cases "e = JFS_OK")
  case False
  then have "vec_count (path_vec st) > 0" using assms by (auto simp: fw_rep_def vec_wf_def)
  then show thesis by (intro fail [of w JFS_ERR_FW_STATE]) (simp_all add: jfs_fw_record_init_def)
next
  case True
  then have e: "ss = []" "ds \<noteq> []" using assms(2) by auto
  with rep have dv: "vec_wf (dir_vec st) (map mk_dir ds)" and pv: "vec_wf (path_vec st) []" by (simp_all add: fw_rep_def)
  have "map mk_dir ds \<noteq> []" using e(2) by simp
  then show thesis
  proof (cases rule: vector_to_array_cases [OF dv, of w, consumes 1, case_names good bad])
    case (bad w1)
    then show ?thesis using True vec_wf_count [OF pv] by (intro fail [of w1 JFS_ERR_SYS]) (simp_all add: jfs_fw_record_init_def fw_dir_vector_to_array_def)
  next
    case (good w1)
    from path_vector_free [of "path_vec st" "[]" w1] pv obtain w2
      where 2: "fw_path_vector_free (path_vec st) w1 = Some (vec_zero, w2)" "delta w1 w2 (- 1)" by auto
    have "fw_dir_vector_free vec_zero w2 = Some (vec_zero, w2)" by (simp add: fw_dir_vector_free_def)
    moreover have "delta w (heap_free False w2) (- 2)"
      by (rule delta_cong [OF delta_trans [OF delta_trans [OF good(2) 2(2)] delta_free]]) simp
    ultimately show ?thesis using True e(1) good(1) 2(1) vec_wf_count [OF pv] vec_wf_count [OF dv]
      by (intro ok [of "heap_free False w2"]) (simp_all add: jfs_fw_record_init_def fw_dir_vector_to_array_def jfs_fw_state_destroy_def)
  qed
qed

lemma walk_cleanup_none: "\<exists>w'. walk_test_cleanup (mk_path s) None w e = Some (Returned ([], w', e)) \<and> delta w w' (- 1)"
  using path_free_mk [of s w] by (auto simp: walk_test_cleanup_def jfs_fw_state_destroy_def)

lemma walk_cleanup_state:
  assumes "fw_rep st ss ds"
  shows "\<exists>w'. walk_test_cleanup (mk_path s) (Some st) w e = Some (Returned ([], w', e)) \<and> delta w w' (- (1 + fw_blocks ss ds))"
proof -
  obtain w1 where 1: "jfs_fio_path_free (mk_path s) w = (path_zero, w1)" "delta w w1 (- 1)" using path_free_mk [of s w] by blast
  obtain w2 where 2: "jfs_fw_state_destroy (Some st) w1 = Some w2" "delta w1 w2 (- fw_blocks ss ds)" using state_destroy [OF assms, of w1] by blast
  have "delta w w2 (- (1 + fw_blocks ss ds))" by (rule delta_cong [OF delta_trans [OF 1(2) 2(2)]]) simp
  then show ?thesis using 1(1) 2(1) by (simp add: walk_test_cleanup_def)
qed

definition walk_released :: "fw_world \<Rightarrow> (test_out list \<times> fw_world \<times> jfs_err_t) run option \<Rightarrow> bool" where
  "walk_released w res \<longleftrightarrow> (\<exists>r. res = Some r \<and> (\<forall>lines w' e. r = Returned (lines, w', e) \<longrightarrow>
     open_dirs w' = open_dirs w \<and> live w' = live w + (if e = JFS_OK then 1 else 0)))"

text \<open>After the loop; what is held is the start path and what the state owns.\<close>

lemma walk_run_ended:
  assumes run: "test_walk_loop n fs st0 w0 e0 = Some (Returned (b, st, w1, e))" and rep: "fw_rep st ss ds"
    and e: "if b then e \<noteq> JFS_OK else if e = JFS_OK then ss = [] \<and> ds \<noteq> [] else ss \<noteq> []"
    and w: "live w1 = live w + 1 + fw_blocks ss ds" "open_dirs w1 = open_dirs w"
  shows "walk_released w (walk_test_run n verbose_flag now tm (mk_path s) fs st0 w0 e0)"
proof (cases b)
  case True
  then show ?thesis using run walk_cleanup_state [OF rep, of s w1 e] e w by (auto simp: walk_test_run_def walk_released_def delta_def)
next
  case False
  then have "if e = JFS_OK then ss = [] \<and> ds \<noteq> [] else ss \<noteq> []" using e by simp
  then show ?thesis
  proof (cases rule: record_init_any [OF rep, of e record_zero w1, consumes 1, case_names ok fail])
    case (ok w2)
    obtain w3 where "jfs_fw_record_free \<lparr>rec_dir_count = length ds, rec_dir_array = Some (map Some (map mk_dir ds))\<rparr> w2 = Some (record_zero, w3)"
        "delta w2 w3 (- (1 + sum_list (map dir_blocks ds)))" using record_free [of ds w2] by blast
    then show ?thesis using ok w run False
      by (cases verbose_flag) (simp_all add: walk_test_run_def walk_released_def print_walk [unfolded list.map_comp] delta_def fw_blocks_def)
  next
    case (fail w2 e')
    obtain w3 where "walk_test_cleanup (mk_path s) (Some st) w2 e' = Some (Returned ([], w3, e'))" "delta w2 w3 (- (1 + fw_blocks ss ds))"
      using walk_cleanup_state [OF rep, of s w2 e'] by blast
    then show ?thesis using fail w run False by (simp add: walk_test_run_def walk_released_def delta_def)
  qed
qed

lemma walk_run_released:
  assumes rep: "fw_rep st [p] []" and w: "live w1 = live w + 1 + fw_blocks [p] []" "open_dirs w1 = open_dirs w"
  shows "walk_released w (walk_test_run n verbose_flag now tm (mk_path s) fs st w1 JFS_OK)"
proof -
  obtain r where r: "test_walk_loop n fs st w1 JFS_OK = Some r" "\<forall>b st' w' e. r = Returned (b, st', w', e) \<longrightarrow>
      (\<exists>ss ds. fw_rep st' ss ds \<and> live w' - fw_blocks ss ds = live w1 - fw_blocks [p] [] \<and> open_dirs w' = open_dirs w1 \<and>
      (if b then e \<noteq> JFS_OK else if e = JFS_OK then ss = [] \<and> ds \<noteq> [] else ss \<noteq> []))"
    using test_loop_rep [OF rep, of w1 n fs] unfolding walk_post_def by blast
  show ?thesis
  proof (cases r)
    case (Running x)
    then show ?thesis using r(1) by (auto simp: walk_released_def walk_test_run_def split: prod.splits)
  next
    case (Returned x)
    obtain b st' w' e where x: "x = (b, st', w', e)" by (cases x)
    with Returned r(1) have run: "test_walk_loop n fs st w1 JFS_OK = Some (Returned (b, st', w', e))" by simp
    obtain ss ds where l: "fw_rep st' ss ds" "live w' - fw_blocks ss ds = live w1 - fw_blocks [p] []" "open_dirs w' = open_dirs w1"
        "if b then e \<noteq> JFS_OK else if e = JFS_OK then ss = [] \<and> ds \<noteq> [] else ss \<noteq> []" using r(2) Returned x by blast
    have "live w' = live w + 1 + fw_blocks ss ds" "open_dirs w' = open_dirs w" using w l(2,3) by simp_all
    then show ?thesis by (rule walk_run_ended [OF run l(1,4)])
  qed
qed

lemma TEST_PATH_trimmed: "trim_slash TEST_PATH = ''/home/jacob/code/filesync''" "length (trim_slash TEST_PATH) \<le> PATH_MAX" "TEST_PATH \<noteq> []"
  by (simp_all add: trim_slash_def TEST_PATH_def PATH_MAX_def)

lemma test_start:
  "path_str (mk_path (trim_slash TEST_PATH)) = Some (trim_slash TEST_PATH)" "trim_slash TEST_PATH \<noteq> []"
  "length (trim_slash (trim_slash TEST_PATH)) \<le> PATH_MAX" "trim_slash (trim_slash TEST_PATH) = trim_slash TEST_PATH"
  by (simp_all add: mk_path_def TEST_PATH_def trim_slash_def PATH_MAX_def)

text \<open>C29. The walk test, started with the error code \<open>JFS_OK\<close>, stays within memory and accounts for what it takes, whatever the
  kernel answers and whichever allocations fail, provided that the block for the state is zeroed or the two allocations after it (the third
  and fourth ones, for the arrays of its vectors) do not fail; \<open>malloc\<close> does not zero the block, and
  \<open>fw_create_cleanup_uninitialised\<close> is what happens otherwise. If the test returns with an error, wherever it occurred, every block
  and every directory stream was given back; if it returns without one, exactly one block stays allocated: the start path,
  which the successful end does not free.\<close>

theorem file_walk_test_releases:
  assumes junk: "path_vec junk = vec_zero \<and> dir_vec junk = vec_zero \<or> False \<notin> set (take 2 (drop 2 (alloc_script w)))"
  shows "\<exists>r. file_walk_test n verbose_flag started stopped junk fs w JFS_OK = Some r \<and> (\<forall>lines w' e. r = Returned (lines, w', e) \<longrightarrow>
     open_dirs w' = open_dirs w \<and> live w' = live w + (if e = JFS_OK then 1 else 0))"
proof -
  let ?s = "trim_slash TEST_PATH"
  have "walk_released w (file_walk_test n verbose_flag started stopped junk fs w JFS_OK)"
  proof (cases rule: path_init_cases [OF TEST_PATH_trimmed(2), of path_zero w, case_names ok fail])
    case (fail w1)
    then show ?thesis by (simp add: walk_released_def file_walk_test_def walk_test_cleanup_def jfs_fw_state_destroy_def delta_def)
  next
    case (ok w1)
    have "alloc_script w1 = tl (alloc_script w)"
      using ok(1) TEST_PATH_trimmed(2) by (auto simp: path_init_eq heap_malloc_def jfs_malloc_def split: if_splits)
    then have "path_vec junk = vec_zero \<and> dir_vec junk = vec_zero \<or> False \<notin> set (take 2 (drop 1 (alloc_script w1)))"
      using junk by (cases "alloc_script w") auto
    from state_create_any [OF test_start(1-3) this] consider
        (made) st w2 where "jfs_fw_state_create junk (mk_path ?s) w1 JFS_OK = Some (Some st, w2, JFS_OK)" "fw_rep st [?s] []" "delta w1 w2 (fw_blocks [?s] [])"
      | (failed) w2 where "jfs_fw_state_create junk (mk_path ?s) w1 JFS_OK = Some (None, w2, JFS_ERR_SYS)" "delta w1 w2 0"
      unfolding create_post_def test_start(4) by blast
    then show ?thesis
    proof cases
      case failed
      then show ?thesis using ok walk_cleanup_none [of ?s w2 JFS_ERR_SYS] by (auto simp: walk_released_def file_walk_test_def delta_def)
    next
      case made
      have "walk_released w (walk_test_run n verbose_flag stopped (start_time started times_zero) (mk_path ?s) fs st w2 JFS_OK)"
        by (rule walk_run_released [OF made(2)]) (use ok(2) made(3) in \<open>simp_all add: delta_def\<close>)
      then show ?thesis using ok(1) made(1) by (simp add: file_walk_test_def)
    qed
  qed
  then show ?thesis by (simp add: walk_released_def)
qed

text \<open>C30. On a tree whose directories can all be read, with an allocator that does not fail, the walk test returns without an
  error and prints every directory that is reachable from its path, each followed by the names in it, in the
  order of the walk, then the number of directories and the number of names, and at last the elapsed time computed from the
  two readings of the clock.\<close>

theorem file_walk_test_prints:
  assumes "alloc_script w = []" and "\<forall>d. reach_dir fs ''/home/jacob/code/filesync'' d \<longrightarrow> readable fs d"
    and "ds = walk_order fs ''/home/jacob/code/filesync''"
  shows "\<exists>w'. file_walk_test (length ds) True started stopped junk fs w JFS_OK = Some (Returned
      (walk_lines ds @ [OutDirs (length ds), OutFiles (sum_list (map (length \<circ> snd) ds)),
        OutTime (print_time \<lparr>time_start = started, time_stop = stopped\<rparr>)], w', JFS_OK)) \<and>
    set ds = {(d, dir_listing (fs d)) |d. reach_dir fs ''/home/jacob/code/filesync'' d}"
proof -
  let ?s = "trim_slash TEST_PATH"
  have rd: "\<forall>d. reach_dir fs ?s d \<longrightarrow> readable fs d" and ds: "ds = walk_order fs ?s" using assms(2,3) by (simp_all add: TEST_PATH_trimmed(1))
  obtain w1 where 1: "jfs_fio_path_init path_zero TEST_PATH w JFS_OK = (mk_path ?s, w1, JFS_OK)" "alloc_script w1 = []"
    using assms(1) by (cases rule: path_init_cases [OF TEST_PATH_trimmed(2), of path_zero w]) (auto simp: delta_def)
  obtain st w2 where 2: "jfs_fw_state_create junk (mk_path ?s) w1 JFS_OK = Some (Some st, w2, JFS_OK)" "fw_rep st [?s] []" "alloc_script w2 = []"
    using state_create [OF 1(2) test_start(1-3), of junk] unfolding test_start(4) by blast
  obtain st' w3 where 3: "fw_walk_loop (length ds) fs st w2 JFS_OK = Some (Returned (st', w3, JFS_OK))" "fw_rep st' [] ds" "alloc_script w3 = []"
    using walk_loop [OF 2(2) _ 2(3), of fs] rd unfolding ds by auto
  have "ds \<noteq> []" unfolding ds by (subst walk_order.simps) simp
  then obtain w4 where 4: "jfs_fw_record_init record_zero st' w3 JFS_OK =
      Some (\<lparr>rec_dir_count = length ds, rec_dir_array = Some (map Some (map mk_dir ds))\<rparr>, None, w4, JFS_OK)"
    using record_init [OF 3(2) _ 3(3), of record_zero] by blast
  obtain w5 where "jfs_fw_record_free \<lparr>rec_dir_count = length ds, rec_dir_array = Some (map Some (map mk_dir ds))\<rparr> w4 = Some (record_zero, w5)"
    using record_free [of ds w4] by blast
  then have "file_walk_test (length ds) True started stopped junk fs w JFS_OK = Some (Returned
      (walk_lines ds @ [OutDirs (length ds), OutFiles (sum_list (map (length \<circ> snd) ds)),
        OutTime (print_time \<lparr>time_start = started, time_stop = stopped\<rparr>)], w5, JFS_OK))"
    using 1(1) 2(1) test_loop_walk [OF 3(1)] 4 print_walk [of ds] by (simp add: file_walk_test_def walk_test_run_def start_time_def stop_time_def times_zero_def)
  then show ?thesis using walk_order_complete [OF assms(2)] assms(3) by blast
qed

section \<open>A small tree\<close>

definition demo_tree :: fw_fs where
  "demo_tree p =
    (if p = ''/home/jacob/code/filesync'' then SysOk ([\<lparr>d_name = ''.'', d_type = DT_DIR, d_ino = 1\<rparr>,
        \<lparr>d_name = ''src'', d_type = DT_DIR, d_ino = 2\<rparr>, \<lparr>d_name = ''README.md'', d_type = DT_REG, d_ino = 3\<rparr>], E_NONE)
     else if p = ''/home/jacob/code/filesync/src'' then SysOk ([\<lparr>d_name = ''main.c'', d_type = DT_REG, d_ino = 4\<rparr>], E_NONE)
     else SysErr ENOENT)"

lemma demo_tree_order: "walk_order demo_tree ''/home/jacob/code/filesync'' =
    [(''/home/jacob/code/filesync'', [(JFS_FW_DIR, ''src'', 2), (JFS_FW_REG, ''README.md'', 3)]),
     (''/home/jacob/code/filesync/src'', [(JFS_FW_REG, ''main.c'', 4)])]"
  by code_simp

lemma demo_tree_readable: "reach_dir demo_tree ''/home/jacob/code/filesync'' d \<Longrightarrow> readable demo_tree d"
proof -
  assume "reach_dir demo_tree ''/home/jacob/code/filesync'' d"
  then have "d = ''/home/jacob/code/filesync'' \<or> d = ''/home/jacob/code/filesync/src''"
  proof (induction rule: reach_dir.induct)
    case (child d c)
    have "set (subdirs demo_tree ''/home/jacob/code/filesync'') = {''/home/jacob/code/filesync/src''}"
      "set (subdirs demo_tree ''/home/jacob/code/filesync/src'') = {}" by code_simp+
    with child show ?case by (elim disjE) simp_all
  qed simp
  moreover have "readable demo_tree ''/home/jacob/code/filesync''" "readable demo_tree ''/home/jacob/code/filesync/src''"
    by (simp_all add: readable_def scannable_def NAME_MAX_def demo_tree_def)
  ultimately show "readable demo_tree d" by blast
qed

theorem file_walk_test_prints_witness:
  "\<exists>w'. file_walk_test 2 True \<lparr>tv_sec = 5, tv_nsec = 900000000\<rparr> \<lparr>tv_sec = 7, tv_nsec = 100000000\<rparr> \<lparr>path_vec = vec_zero, dir_vec = vec_zero\<rparr> demo_tree \<lparr>alloc_script = [], live = 0, open_dirs = 0\<rparr> JFS_OK =
     Some (Returned ([OutDir ''/home/jacob/code/filesync'', OutFile ''src'', OutFile ''README.md'',
       OutDir ''/home/jacob/code/filesync/src'', OutFile ''main.c'', OutDirs 2, OutFiles 3, OutTime (Some 1200000)], w', JFS_OK))"
proof -
  let ?w = "\<lparr>alloc_script = [], live = 0, open_dirs = 0\<rparr> :: fw_world"
    and ?t0 = "\<lparr>tv_sec = 5, tv_nsec = 900000000\<rparr> :: timespec" and ?t1 = "\<lparr>tv_sec = 7, tv_nsec = 100000000\<rparr> :: timespec"
  have time: "print_time \<lparr>time_start = ?t0, time_stop = ?t1\<rparr> = Some 1200000" by code_simp
  have "alloc_script ?w = []" by simp
  from file_walk_test_prints [OF this _ demo_tree_order [symmetric], of ?t0 ?t1] demo_tree_readable obtain w' where
    "file_walk_test (length (walk_order demo_tree ''/home/jacob/code/filesync'')) True ?t0 ?t1 \<lparr>path_vec = vec_zero, dir_vec = vec_zero\<rparr> demo_tree ?w JFS_OK =
      Some (Returned (walk_lines (walk_order demo_tree ''/home/jacob/code/filesync'') @
        [OutDirs (length (walk_order demo_tree ''/home/jacob/code/filesync'')),
         OutFiles (sum_list (map (length \<circ> snd) (walk_order demo_tree ''/home/jacob/code/filesync''))),
         OutTime (Some 1200000)], w', JFS_OK))"
    unfolding demo_tree_order time by blast
  then show ?thesis unfolding demo_tree_order by (intro exI [of _ w']) (simp add: walk_lines_def numeral_2_eq_2)
qed

theorem file_walk_test_releases_witness:
  "\<exists>r. file_walk_test 2 True \<lparr>tv_sec = 5, tv_nsec = 0\<rparr> \<lparr>tv_sec = 7, tv_nsec = 0\<rparr> \<lparr>path_vec = vec_zero, dir_vec = vec_zero\<rparr>
      demo_tree \<lparr>alloc_script = [True, True, False], live = 0, open_dirs = 0\<rparr> JFS_OK =
      Some r \<and> (\<forall>lines w' e. r = Returned (lines, w', e) \<longrightarrow> open_dirs w' = 0 \<and> live w' = (if e = JFS_OK then 1 else 0))"
  using file_walk_test_releases [where junk = "\<lparr>path_vec = vec_zero, dir_vec = vec_zero\<rparr>" and
      w = "\<lparr>alloc_script = [True, True, False], live = 0, open_dirs = 0\<rparr>"] by simp

end
