(* ===== verification/Spec2Isabelle.thy ===== *)
theory Spec2Isabelle
  imports Jfs_Lru Jfs_Bst_Theorems Jfs_Slab Jfs_Programs Jfs_Tm Jfs_Test_Tss Jfs_Test
begin

text \<open>
  \<^bold>\<open>A verification library for Jacob's File Sync\<close>, a file synchroniser in C whose modules are under
  \<open>src/src/modules\<close>, with two programs, \<open>src/src/server/server.c\<close> and \<open>src/src/daemon/daemon.c\<close>, and a test program,
  \<open>src/src/test/test.c\<close>.

  \<^bold>\<open>The program.\<close> \<open>error.c\<close> wraps the system calls and turns their failures into codes of one enum. On it stand three
  groups of modules. Files and sockets: \<open>file_io.c\<close> (complete reads and writes, paths), \<open>file_walk.c\<close> (a depth-first walk over
  directories that records their entries), \<open>net_socket.c\<close> (TCP sockets), and the two programs, which exchange a message
  over a socket. Containers in one preallocated block: \<open>memory_layout_generator.c\<close> lays the parts out,
  \<open>free_list.c\<close> hands out objects, \<open>memory_block.c\<close> is an array of slots, \<open>lru_cache.c\<close> keeps the most recent keys in a
  memory block, \<open>binary_search_tree.c\<close> is a red-black tree with its nodes in a free list. Memory shared between
  threads: \<open>old_thread_safe_slab.c\<close> (slabs and per-thread caches), \<open>slab_allocator.c\<close> (its unfinished successor),
  \<open>thread_safe_queue.c\<close> (a queue of chunks) and \<open>thread_message.c\<close> (messages between threads).

  \<^bold>\<open>Conventions.\<close> A C function is a function of the same name. It takes and returns the state it changes and its error code
  (\<open>jfs_err_t\<close>, with \<open>JFS_OK\<close> the code without error). A failed assertion, a null or unmapped pointer that is followed,
  a mutex that is locked twice and any other undefined behaviour is the result \<open>None\<close>. \<open>size_t\<close>,
  \<open>uint32_t\<close> and addresses are words of their width, so arithmetic wraps as in the code; the counts and capacities of the
  vectors of \<open>file_walk.c\<close> and of the arrays made of them, and the lengths of buffers, paths and names, are natural numbers, since they count elements that are
  in memory. Structs in memory are records, or maps
  from addresses to fields where the code links them by pointers. Such a map has one cell per object, which is what memory provides when
  objects do not overlap; the code does not check that objects have room for what is put into them, so linking a free list of objects
  smaller than a pointer, and copying a value into a tree node that has no room for it, is \<open>None\<close> here, and the theorems state
  the room they need (\<open>MIN_OBJ_SIZE\<close>, \<open>node_room\<close>). The system is an argument: a call takes its answer, and a
  loop around a call a list of answers, its script. A loop that has used its script up is \<open>Running\<close>, it waits; so what such a loop does is known
  for every finite sequence of answers. Loops that follow pointers take fuel.

  \<^bold>\<open>Theories.\<close>
  \<^item> \<open>Jfs_Prelude\<close>: word arithmetic, powers of two, rounding.
  \<^item> \<open>Jfs_Error\<close> (\<open>error.c\<close>, \<open>error.h\<close>): the enum and its strings, every wrapper as a function of the outcome of its call; the
    interface \<open>sys_wrapper\<close>, interpreted for all of them, says that a code is set exactly on failure. Also the
    allocator that may fail and the count of live blocks.
  \<^item> \<open>Jfs_Layout\<close> (\<open>memory_layout_generator.c\<close>): the layout of a block; its regions are aligned, inside and disjoint.
  \<^item> \<open>Jfs_Free_List\<close> (\<open>free_list.c\<close>): linked lists over a map of next pointers (\<open>heap_list\<close>), the free list, and the interface
    \<open>object_pool\<close> of an allocator of objects, which it provides: no object is lost or handed out twice.
  \<^item> \<open>Jfs_Memory_Block\<close> (\<open>memory_block.c\<close>): bytes in memory and the slots of a block, with the interface \<open>slot_store\<close>.
  \<^item> \<open>Jfs_Lru\<close> (\<open>lru_cache.c\<close>): the cache refines a list with the most recent key first, for every sequence of accesses.
  \<^item> \<open>Jfs_File_Io\<close> (\<open>file_io.c\<close>): the write and read loops as instances of the interfaces \<open>out_loop\<close> and \<open>in_loop\<close>; paths.
  \<^item> \<open>Jfs_File_Walk\<close> (\<open>file_walk.c\<close>): vectors, scan, step, walk, record; ownership of every block on every path, completeness of the
    walk over a finite tree of directories.
  \<^item> \<open>Jfs_Net_Socket\<close> (\<open>net_socket.c\<close>): sockets, retries, and the transfer loops, which extend the interfaces of files by
    their behaviour under interruptions.
  \<^item> \<open>Jfs_Programs\<close> (\<open>server.c\<close>, \<open>daemon.c\<close>): both programs with every failure path; what they release, and that they exchange
    their messages when each receives what the other one sends. \<open>main\<close> passes an error variable that is not set; it is an argument.
  \<^item> \<open>Jfs_Bst\<close>, \<open>Jfs_Bst_Shape\<close>, \<open>Jfs_Bst_Insert\<close>, \<open>Jfs_Bst_Delete\<close>, \<open>Jfs_Bst_Take\<close>, \<open>Jfs_Bst_Theorems\<close> (\<open>binary_search_tree.c\<close>): the operations; the
    tree a heap of nodes represents and the invariants of red-black trees; insertion and its fixup; deletion, with the
    transplants and the fixup of a subtree that lacks a black node; the removal of entries, the cache of the ends and the interface \<open>end_queue\<close> of a store that is emptied from one end, interpreted for both; the interface
    \<open>ordered_store\<close> of one that is filled, and the properties.
  \<^item> \<open>Jfs_Vm\<close> and \<open>Jfs_Slab\<close> (\<open>slab_allocator.c\<close>): mappings of the process, aligned slabs, the configuration.
  \<^item> \<open>Jfs_Tss\<close>, \<open>Jfs_Tss_Inv\<close>, \<open>Jfs_Tss_Caches\<close>, \<open>Jfs_Tss_World\<close>, \<open>Jfs_Tss_Theorems\<close> (\<open>old_thread_safe_slab.c\<close>): the operations; the invariant of
    slabs, batches and counters; the operations of one cache among others; the relation \<open>tss_run\<close> of all sequences of calls on
    any number of caches other than \<open>jfs_tss_cache_refresh\<close>, which breaks the cache it is called on (\<open>tss_refresh_breaks_cache\<close>), with clients that write into their objects and a kernel that answers what it documents
    (\<open>honest\<close>); the properties. A call of a cache is one step: outside its critical section it touches only objects of its own
    cache, which \<open>frame\<close> states. When all objects have come back, destroying the allocator leaves mapped exactly what was mapped before.
  \<^item> \<open>Jfs_Test_Tss\<close> (\<open>test.c\<close>, the allocator test): its threads as program counters with local variables, all interleavings of their steps
    on one allocator (\<open>tss_test_run\<close>). No thread finds its objects changed, none is stuck, and in the end all memory is given back unless an
    allocation failed.
  \<^item> \<open>Jfs_Test\<close> (the rest of \<open>test.c\<close>): the elapsed time, the status line, the threads on the heap and the walk test, with all its
    failure paths: what it prints, what it releases.
  \<^item> \<open>Jfs_Tsq\<close> (\<open>thread_safe_queue.c\<close>): the operations of the queue of chunks, over any \<open>jfs_tsq_chunk_enqueue\<close>; why no queue is ever
    initialised, and what an error leaves behind.
  \<^item> \<open>Jfs_Tm\<close> (\<open>thread_message.c\<close>): messages, their queues and the router: building it, and what the module does with queues that were
    never initialised.

  \<^bold>\<open>Bounds and fuel.\<close> The loops of the tree take fuel; a tree of fewer than \<open>2 ^ k\<close> entries
  has a height of at most \<open>2 * k\<close>, and the theorems ask for more fuel than that. The loops of the slab allocator run over linked lists of distinct non-null
  addresses, of which there are fewer than \<open>2 ^ 64\<close>, so the theorems ask for that much fuel. The doubling loop of
  \<open>sa_config_init\<close> takes 64. The termination of \<open>tss_load_loop\<close>, the vectors' growth and the
  script loops is proved with their definitions.

  \<^bold>\<open>Not modelled.\<close> The functions of \<open>slab_allocator.c\<close> that are declared without a body, and \<open>sa_slab_link_batches\<close>, whose loop is
  empty; of \<open>thread_safe_queue.c\<close> \<open>jfs_tsq_chunk_enqueue\<close>, which is not C and is an argument, and the loop of
  \<open>jfs_tsq_chunk_destroy\<close> over the items of a chunk, which takes an index for a pointer; the functions of the queue that
  \<open>thread_message.c\<close> calls and no file declares are arguments, and the broadcast on the condition variable that the queue does not
  have is left out. The members \<open>attach\<close> and \<open>detach\<close> of the tree, which its struct does not have, are arguments. A
  \<open>percent_to_retire\<close> that is not a number has no counterpart, and the page size is taken to be the one the slab allocators assume. Of \<open>test.c\<close>, \<open>main\<close> only calls the allocator
  test and prints its status; the log lines of the error macros are left out. Interleavings inside a critical section are excluded by the mutex,
  as in the code; weak memory effects are not considered.
\<close>

end
